(* ===== verification/Prelude.thy ===== *)
theory Prelude
  imports Main "HOL-Library.Word" "HOL-Library.List_Lexorder" "HOL-Library.Multiset"
begin

unbundle bit_operations_syntax

text \<open>
  Shared material of the development: the machine types of the Go sources, the pieces of the Go
  standard library the sources use (\<^verbatim>\<open>bytes.Compare\<close>, \<^verbatim>\<open>sort.Search\<close>, the three-way tests on
  byte strings), and the generic lemmas on lists, words and arrays the component theories rest on.

  Conventions. \<^verbatim>\<open>uint64\<close>, \<^verbatim>\<open>uint8\<close> and \<^verbatim>\<open>byte\<close> are words, so that wrap-around is the machine's;
  Go's \<^verbatim>\<open>int\<close> is \<open>nat\<close> or \<open>int\<close> where the code only holds small non-negative counts. A slice is
  a list (\<^verbatim>\<open>nil\<close> and the empty slice are both \<open>[]\<close>, as the sources only ask for the length).
  A fixed-size array \<^verbatim>\<open>[N]T\<close> is a function from the index, updated with \<open>f(i := v)\<close>, and only
  ever read at indices below \<open>N\<close>.
\<close>

section \<open>Machine types\<close>

type_synonym u8 = "8 word"
type_synonym u64 = "64 word"
type_synonym bytes = "u8 list"

named_theorems go_defs \<open>unfolding rules of the small helpers of the sources\<close>
named_theorems wf_intros \<open>introduction rules of the components' invariants\<close>
named_theorems wf_dests \<open>destruction rules of the components' invariants\<close>

section \<open>Three-way comparison of byte strings\<close>

text \<open>
  \<^verbatim>\<open>bytes.Compare\<close>: lexicographic, a proper prefix is smaller. The order on lists of
  \<open>HOL-Library.List_Lexorder\<close> is the same relation, and the lemmas below let the simplifier move
  every test of the sources to that linear order.
\<close>

fun bytes_Compare :: "bytes \<Rightarrow> bytes \<Rightarrow> int" where
  "bytes_Compare [] [] = 0"
| "bytes_Compare [] (b # bs) = -1"
| "bytes_Compare (a # as) [] = 1"
| "bytes_Compare (a # as) (b # bs) =
     (if a < b then -1 else if b < a then 1 else bytes_Compare as bs)"

lemma bytes_Compare_cases:
  "bytes_Compare a b = (if a < b then -1 else if a = b then 0 else 1)"
  by (induction a b rule: bytes_Compare.induct) (auto simp: Cons_less_Cons)

lemma bytes_Compare_less [simp]:
  "bytes_Compare a b < 0 \<longleftrightarrow> a < b"
  "bytes_Compare a b \<le> 0 \<longleftrightarrow> a \<le> b"
  "0 < bytes_Compare a b \<longleftrightarrow> b < a"
  "0 \<le> bytes_Compare a b \<longleftrightarrow> b \<le> a"
  "bytes_Compare a b = 0 \<longleftrightarrow> a = b"
  by (auto simp: bytes_Compare_cases)

section \<open>Binary search\<close>

text \<open>
  \<^verbatim>\<open>sort.Search(n, f)\<close> of the Go standard library: the loop keeps \<open>\<not> f (i - 1)\<close> and \<open>f j\<close>
  while it halves \<open>[i, j)\<close>.
\<close>

function search_loop :: "(nat \<Rightarrow> bool) \<Rightarrow> nat \<Rightarrow> nat \<Rightarrow> nat" where
  "search_loop f i j =
     (if i < j then
        (let h = (i + j) div 2 in
         if \<not> f h then search_loop f (h + 1) j else search_loop f i h)
      else i)"
  by pat_completeness auto
termination
  by (relation "measure (\<lambda>(f, i, j). j - i)") (auto simp: Let_def)

declare search_loop.simps [simp del]

definition sort_Search :: "nat \<Rightarrow> (nat \<Rightarrow> bool) \<Rightarrow> nat" where
  "sort_Search n f = search_loop f 0 n"

lemma search_loop_correct:
  assumes "\<forall>k l. k \<le> l \<and> l < n \<and> f k \<longrightarrow> f l" and "i \<le> j" and "j \<le> n"
    and "\<forall>k < i. \<not> f k" and "\<forall>k. j \<le> k \<and> k < n \<longrightarrow> f k"
  shows "search_loop f i j \<le> n \<and> (\<forall>k < search_loop f i j. \<not> f k) \<and>
         (\<forall>k. search_loop f i j \<le> k \<and> k < n \<longrightarrow> f k)"
  using assms
proof (induction "j - i" arbitrary: i j rule: less_induct)
  case less
  show ?case
  proof (cases "i < j")
    case False
    then have "search_loop f i j = i" by (simp add: search_loop.simps [of f i j])
    with False less.prems show ?thesis by simp
  next
    case True
    define h where "h = (i + j) div 2"
    have h: "i \<le> h" "h < j" using True by (auto simp: h_def)
    have eq: "search_loop f i j = (if f h then search_loop f i h else search_loop f (h + 1) j)"
      using True by (simp add: search_loop.simps [of f i j] h_def Let_def)
    show ?thesis
    proof (cases "f h")
      case True
      then have "\<forall>k. h \<le> k \<and> k < n \<longrightarrow> f k" using less.prems(1) by blast
      note IH = less.hyps [OF _ less.prems(1) _ _ less.prems(4) this]
      show ?thesis unfolding eq if_P [OF True] by (rule IH) (use h less.prems(3) in simp_all)
    next
      case False
      have "h < n" using h less.prems(3) by linarith
      have "\<forall>k < h + 1. \<not> f k"
      proof (intro allI impI notI)
        fix k assume "k < h + 1" "f k"
        then show False using less.prems(1) [rule_format, of k h] \<open>h < n\<close> False by simp
      qed
      note IH = less.hyps [OF _ less.prems(1) _ less.prems(3) this less.prems(5)]
      show ?thesis unfolding eq if_not_P [OF False] by (rule IH) (use h in simp_all)
    qed
  qed
qed

lemma sort_Search_correct:
  assumes "\<forall>k l. k \<le> l \<and> l < n \<and> f k \<longrightarrow> f l"
  shows "sort_Search n f \<le> n"
    and "k < sort_Search n f \<Longrightarrow> \<not> f k"
    and "sort_Search n f \<le> k \<Longrightarrow> k < n \<Longrightarrow> f k"
proof -
  from assms have "search_loop f 0 n \<le> n \<and> (\<forall>k < search_loop f 0 n. \<not> f k) \<and>
         (\<forall>k. search_loop f 0 n \<le> k \<and> k < n \<longrightarrow> f k)"
    by (rule search_loop_correct) auto
  then show "sort_Search n f \<le> n"
    and "k < sort_Search n f \<Longrightarrow> \<not> f k"
    and "sort_Search n f \<le> k \<Longrightarrow> k < n \<Longrightarrow> f k"
    by (auto simp: sort_Search_def)
qed

lemma sort_Search_sorted:
  fixes xs :: "'a::linorder list"
  assumes "sorted xs" and "i = sort_Search (length xs) (\<lambda>k. x \<le> xs ! k)"
  shows "i < length xs \<and> xs ! i = x \<longleftrightarrow> x \<in> set xs"
proof -
  have mono: "\<forall>k l. k \<le> l \<and> l < length xs \<and> x \<le> xs ! k \<longrightarrow> x \<le> xs ! l"
    using assms(1) by (meson dual_order.trans sorted_nth_mono)
  note s = sort_Search_correct [of "length xs" "\<lambda>k. x \<le> xs ! k", OF mono, folded assms(2)]
  have "i < length xs \<and> xs ! i = x" if k: "k < length xs" "xs ! k = x" for k
  proof -
    have "i \<le> k" using s(2) k by (metis leI order_refl)
    then have "i < length xs" "x \<le> xs ! i" "xs ! i \<le> xs ! k"
      using s(3) k assms(1) by (auto intro: sorted_nth_mono)
    then show ?thesis using k by simp
  qed
  then show ?thesis unfolding in_set_conv_nth by blast
qed

section \<open>Words\<close>

text \<open>
  Single-bit tests and updates: the simplifier turns \<^verbatim>\<open>1 << n\<close> into \<open>2 ^ n\<close>.
\<close>

lemma word_bit_test [simp]: "w AND 2 ^ n = 0 \<longleftrightarrow> \<not> bit (w :: 'a::len word) n"
  by (simp add: and_exp_eq_0_iff_not_bit)

lemma bit_or_push: "bit (w OR 2 ^ n) k \<longleftrightarrow> bit w k \<or> k = n \<and> n < LENGTH('a)"
  for w :: "'a::len word"
  by (auto simp: bit_simps)

lemma bit_andnot_push: "bit (w AND NOT (2 ^ n)) k \<longleftrightarrow> bit w k \<and> k \<noteq> n"
  for w :: "'a::len word"
  using bit_imp_le_length [of w k] by (auto simp: bit_simps)

lemma unat_succ: "v \<noteq> -1 \<Longrightarrow> unat (v + 1) = Suc (unat v)" for v :: "'a::len word"
  by (metis add.commute add_eq_0_iff unatSuc)

lemma word_numeral_one [simp]:
  "numeral n \<le> (1 :: 'a::len word) \<longleftrightarrow> unat (numeral n :: 'a word) \<le> unat (1 :: 'a word)"
  "numeral n < (1 :: 'a::len word) \<longleftrightarrow> unat (numeral n :: 'a word) < unat (1 :: 'a word)"
  by (simp_all add: word_le_nat_alt word_less_nat_alt)

lemma unat_max: "unat (max a b) = max (unat a) (unat b)"
  by (simp add: max_def word_le_nat_alt)

section \<open>Lists\<close>

lemma sort_eq_Nil [simp]: "sort xs = [] \<longleftrightarrow> xs = []"
  by (simp flip: length_0_conv [of "sort xs"])

lemma sum_list_sort: "(\<Sum>x \<leftarrow> sort xs. f x) = (\<Sum>x \<leftarrow> xs. f x :: 'b::comm_monoid_add)"
proof -
  have "mset (map f (sort xs)) = mset (map f xs)" by simp
  then have "sum_mset (mset (map f (sort xs))) = sum_mset (mset (map f xs))" by (rule arg_cong)
  then show ?thesis by (simp only: sum_mset_sum_list)
qed

lemma sorted_distinct_strict:
  "sorted_wrt (<) xs \<longleftrightarrow> sorted xs \<and> distinct (xs :: 'a::linorder list)"
  by (simp add: strict_sorted_iff)

lemma strict_sorted_nth_less:
  "sorted_wrt (<) xs \<Longrightarrow> i < j \<Longrightarrow> j < length xs \<Longrightarrow> xs ! i < (xs ! j :: 'a::linorder)"
  by (simp add: sorted_wrt_iff_nth_less)

section \<open>Callbacks\<close>

text \<open>
  A Go iteration \<^verbatim>\<open>for ... { if !yield(x) { return false } }\<close> over the elements of a list: the callback
  maps its state and answers whether to go on.
\<close>

fun yield_all :: "('a \<Rightarrow> 's \<Rightarrow> 's \<times> bool) \<Rightarrow> 'a list \<Rightarrow> 's \<Rightarrow> 's \<times> bool" where
  "yield_all f [] s = (s, True)"
| "yield_all f (x # xs) s = (let (s', go) = f x s in if go then yield_all f xs s' else (s', False))"

lemma yield_all_append:
  "yield_all f (xs @ ys) s =
     (let (s', go) = yield_all f xs s in if go then yield_all f ys s' else (s', False))"
  by (induction xs arbitrary: s) (auto simp: Let_def split: prod.split)

lemma yield_all_True:
  assumes "\<And>x s. x \<in> set xs \<Longrightarrow> snd (f x s)"
  shows "yield_all f xs s = (fold (\<lambda>x s. fst (f x s)) xs s, True)"
  using assms by (induction xs arbitrary: s) (simp_all add: case_prod_unfold)

end
