(* ===== verification/Ids.thy ===== *)
theory Ids
  imports Prelude
begin

text \<open>
  The identifiers of \<^verbatim>\<open>epaxos/types.go\<close>: instance references, ballots, statuses and the other
  small enumerations, and configurations with their voter index. References and ballots are
  made instances of \<open>linorder\<close> with the order the sources compare them by (\<^verbatim>\<open>lessRef\<close>,
  \<^verbatim>\<open>Ballot.Less\<close>), so the order automation of HOL applies to them.

  Go enumerations over \<^verbatim>\<open>uint8\<close> stay 8-bit words: the decoder produces any byte and
  \<^verbatim>\<open>Message.Validate\<close> rejects the ones outside the enumeration.
\<close>

section \<open>Errors\<close>

datatype error =
    ErrInvalidConfig
  | ErrInvalidMessage
  | ErrChecksumMismatch
  | ErrMessageRejected
  | ErrTOQConfigUnavailable
  | ErrTOQClockRollback
  | ErrTOQTimestampOverflow
  | ErrLogicalTimeExhausted
  | ErrDeferredQueueFull
  | ErrDeferredRecordLoadFull
  | ErrUnrequestedRecordLoad
  | ErrInvalidRecord
  | ErrResidentInstancesExceeded
  | ErrBallotExhausted
  | ErrInstanceExhausted
  | ErrUnknownInstance
  | ErrInvalidReady
  | ErrInvalidFootprint
  | ErrInvalidCheckpoint
  | ErrUnrequestedCheckpoint
  | ErrCheckpointMismatch

section \<open>Instance references\<close>

type_synonym ReplicaID = u64
type_synonym InstanceNum = u64
type_synonym ConfID = u64

datatype InstanceRef =
  InstanceRef (ref_Replica: ReplicaID) (ref_Instance: InstanceNum) (ref_Conf: ConfID)

abbreviation zero_ref :: InstanceRef where
  "zero_ref \<equiv> InstanceRef 0 0 0"

definition ref_IsZero :: "InstanceRef \<Rightarrow> bool" where
  "ref_IsZero r \<longleftrightarrow> ref_Replica r = 0 \<and> ref_Instance r = 0 \<and> ref_Conf r = 0"

lemma ref_IsZero_iff [simp]: "ref_IsZero r \<longleftrightarrow> r = zero_ref"
  by (cases r) (simp add: ref_IsZero_def)

definition lessRef :: "InstanceRef \<Rightarrow> InstanceRef \<Rightarrow> bool" where
  "lessRef a b =
     (if ref_Conf a \<noteq> ref_Conf b then ref_Conf a < ref_Conf b
      else if ref_Replica a \<noteq> ref_Replica b then ref_Replica a < ref_Replica b
      else ref_Instance a < ref_Instance b)"

instantiation InstanceRef :: linorder
begin

definition less_InstanceRef :: "InstanceRef \<Rightarrow> InstanceRef \<Rightarrow> bool" where
  "less_InstanceRef a b = lessRef a b"

definition less_eq_InstanceRef :: "InstanceRef \<Rightarrow> InstanceRef \<Rightarrow> bool" where
  "less_eq_InstanceRef a b \<longleftrightarrow> lessRef a b \<or> a = b"

instance
proof
  fix x y z :: InstanceRef
  show "x < y \<longleftrightarrow> x \<le> y \<and> \<not> y \<le> x"
    by (auto simp: less_InstanceRef_def less_eq_InstanceRef_def lessRef_def split: if_splits)
  show "x \<le> x" by (simp add: less_eq_InstanceRef_def)
  show "x \<le> z" if "x \<le> y" and "y \<le> z"
    using that by (auto simp: less_eq_InstanceRef_def lessRef_def split: if_splits)
  show "x = y" if "x \<le> y" and "y \<le> x"
    using that by (auto simp: less_eq_InstanceRef_def lessRef_def split: if_splits)
  show "x \<le> y \<or> y \<le> x"
    by (cases x; cases y) (auto simp: less_eq_InstanceRef_def lessRef_def)
qed

end

record instanceLane =
  lane_conf :: ConfID
  lane_replica :: ReplicaID

definition laneFor :: "InstanceRef \<Rightarrow> instanceLane" where
  "laneFor ref = \<lparr>lane_conf = ref_Conf ref, lane_replica = ref_Replica ref\<rparr>"

lemma laneFor_inject:
  "laneFor a = laneFor b \<Longrightarrow> ref_Instance a = ref_Instance b \<Longrightarrow> a = b"
  by (cases a; cases b) (simp add: laneFor_def)

definition refOf :: "instanceLane \<Rightarrow> InstanceNum \<Rightarrow> InstanceRef" where
  "refOf lane inst = InstanceRef (lane_replica lane) inst (lane_conf lane)"

lemma refOf_eq [simp]: "refOf lane inst = ref \<longleftrightarrow> lane = laneFor ref \<and> inst = ref_Instance ref"
  by (cases ref) (auto simp: refOf_def laneFor_def)

lemma laneFor_conf [simp]: "lane_conf (laneFor ref) = ref_Conf ref"
  by (simp add: laneFor_def)

lemma laneFor_refOf [simp]: "laneFor (refOf lane inst) = lane" "ref_Instance (refOf lane inst) = inst"
  by (simp_all add: laneFor_def refOf_def)

lemma refOf_laneFor [simp]: "refOf (laneFor ref) (ref_Instance ref) = ref"
  by simp

definition instanceSuccessor :: "InstanceNum \<Rightarrow> InstanceNum option" where
  "instanceSuccessor v = (if v = NOT 0 then None else Some (v + 1))"

lemma instanceSuccessor_Some:
  "instanceSuccessor v = Some w \<Longrightarrow> unat w = Suc (unat v)"
  by (auto simp: instanceSuccessor_def unat_succ split: if_splits)

section \<open>Ballots\<close>

datatype Ballot = Ballot (bal_Epoch: u64) (bal_Number: u64) (bal_Replica: ReplicaID)

abbreviation zero_ballot :: Ballot where
  "zero_ballot \<equiv> Ballot 0 0 0"

definition ballot_Less :: "Ballot \<Rightarrow> Ballot \<Rightarrow> bool" where
  "ballot_Less b other =
     (if bal_Epoch b \<noteq> bal_Epoch other then bal_Epoch b < bal_Epoch other
      else if bal_Number b \<noteq> bal_Number other then bal_Number b < bal_Number other
      else bal_Replica b < bal_Replica other)"

instantiation Ballot :: linorder
begin

definition less_Ballot :: "Ballot \<Rightarrow> Ballot \<Rightarrow> bool" where
  "less_Ballot a b = ballot_Less a b"

definition less_eq_Ballot :: "Ballot \<Rightarrow> Ballot \<Rightarrow> bool" where
  "less_eq_Ballot a b \<longleftrightarrow> ballot_Less a b \<or> a = b"

instance
proof
  fix x y z :: Ballot
  show "x < y \<longleftrightarrow> x \<le> y \<and> \<not> y \<le> x"
    by (auto simp: less_Ballot_def less_eq_Ballot_def ballot_Less_def split: if_splits)
  show "x \<le> x" by (simp add: less_eq_Ballot_def)
  show "x \<le> z" if "x \<le> y" and "y \<le> z"
    using that by (auto simp: less_eq_Ballot_def ballot_Less_def split: if_splits)
  show "x = y" if "x \<le> y" and "y \<le> x"
    using that by (auto simp: less_eq_Ballot_def ballot_Less_def split: if_splits)
  show "x \<le> y \<or> y \<le> x"
    by (cases x; cases y) (auto simp: less_eq_Ballot_def ballot_Less_def)
qed

end

lemma ballot_Less_iff [simp]: "ballot_Less a b \<longleftrightarrow> a < b"
  by (simp add: less_Ballot_def)

lemma lessRef_iff [simp]: "lessRef a b \<longleftrightarrow> a < b"
  by (simp add: less_InstanceRef_def)

definition ballot_IsInitialFor :: "Ballot \<Rightarrow> ReplicaID \<Rightarrow> bool" where
  "ballot_IsInitialFor b replica \<longleftrightarrow>
     replica \<noteq> 0 \<and> bal_Epoch b = 0 \<and> bal_Number b = 0 \<and> bal_Replica b = replica"

definition ballot_IsRecovery :: "Ballot \<Rightarrow> bool" where
  "ballot_IsRecovery b \<longleftrightarrow> b \<noteq> zero_ballot \<and> (bal_Epoch b \<noteq> 0 \<or> bal_Number b \<noteq> 0)"

definition ballot_Next :: "Ballot \<Rightarrow> ReplicaID \<Rightarrow> error + Ballot" where
  "ballot_Next b replica =
     (if bal_Number b \<noteq> NOT 0 then Inr (Ballot (bal_Epoch b) (bal_Number b + 1) replica)
      else if bal_Epoch b = NOT 0 then Inl ErrBallotExhausted
      else Inr (Ballot (bal_Epoch b + 1) 0 replica))"

section \<open>Enumerations\<close>

type_synonym Status = u8
abbreviation (input) StatusNone :: Status where "StatusNone \<equiv> 0"
abbreviation (input) StatusPreAccepted :: Status where "StatusPreAccepted \<equiv> 1"
abbreviation (input) StatusAccepted :: Status where "StatusAccepted \<equiv> 2"
abbreviation (input) StatusCommitted :: Status where "StatusCommitted \<equiv> 3"
abbreviation (input) StatusExecuted :: Status where "StatusExecuted \<equiv> 4"

type_synonym EntryKind = u8
abbreviation (input) EntryCommand :: EntryKind where "EntryCommand \<equiv> 1"
abbreviation (input) EntryNoop :: EntryKind where "EntryNoop \<equiv> 2"
abbreviation (input) EntryConfChange :: EntryKind where "EntryConfChange \<equiv> 3"
abbreviation (input) EntryMembership :: EntryKind where "EntryMembership \<equiv> 4"
abbreviation (input) EntryCheckpoint :: EntryKind where "EntryCheckpoint \<equiv> 5"

type_synonym ConfChangeType = u8
abbreviation (input) ConfChangeAddVoter :: ConfChangeType where "ConfChangeAddVoter \<equiv> 1"
abbreviation (input) ConfChangeRemoveVoter :: ConfChangeType where "ConfChangeRemoveVoter \<equiv> 2"

type_synonym TimingDomain = u8
abbreviation (input) TimingDomainUntimed :: TimingDomain where "TimingDomainUntimed \<equiv> 0"
abbreviation (input) TimingDomainLogical :: TimingDomain where "TimingDomainLogical \<equiv> 1"
abbreviation (input) TimingDomainTOQ :: TimingDomain where "TimingDomainTOQ \<equiv> 2"

section \<open>Configurations\<close>

record ConfState =
  conf_ID :: ConfID
  conf_Voters :: "ReplicaID list"

text \<open>
  \<^verbatim>\<open>ConfState.Index\<close> returns the position and whether the voter is there; the position of an
  absent voter is where it would be inserted.
\<close>

definition conf_Index :: "ConfState \<Rightarrow> ReplicaID \<Rightarrow> nat \<times> bool" where
  "conf_Index c i =
     (let k = sort_Search (length (conf_Voters c)) (\<lambda>j. i \<le> conf_Voters c ! j) in
      (k, k < length (conf_Voters c) \<and> conf_Voters c ! k = i))"

definition conf_Contains :: "ConfState \<Rightarrow> ReplicaID \<Rightarrow> bool" where
  "conf_Contains c i = snd (conf_Index c i)"

text \<open>The canonical configurations: what \<^verbatim>\<open>newQuorum\<close> builds and \<^verbatim>\<open>Validate\<close> demands.\<close>

definition conf_wf :: "ConfState \<Rightarrow> bool" where
  "conf_wf c \<longleftrightarrow> conf_Voters c \<noteq> [] \<and> length (conf_Voters c) \<le> 7 \<and>
     0 \<notin> set (conf_Voters c) \<and> sorted_wrt (<) (conf_Voters c)"

lemma conf_wf_sorted [wf_dests]: "conf_wf c \<Longrightarrow> sorted (conf_Voters c)"
  and conf_wf_distinct [wf_dests]: "conf_wf c \<Longrightarrow> distinct (conf_Voters c)"
  and conf_wf_length [wf_dests]: "conf_wf c \<Longrightarrow> length (conf_Voters c) \<le> 7"
  by (auto simp: conf_wf_def sorted_distinct_strict)

lemma conf_Contains_iff:
  "sorted (conf_Voters c) \<Longrightarrow> conf_Contains c i \<longleftrightarrow> i \<in> set (conf_Voters c)"
  by (simp add: conf_Contains_def conf_Index_def Let_def sort_Search_sorted [OF _ refl])

lemma conf_Index_True:
  "conf_Index c i = (k, True) \<Longrightarrow> k < length (conf_Voters c) \<and> conf_Voters c ! k = i"
  by (auto simp: conf_Index_def Let_def)

lemma conf_Index_nth:
  assumes "conf_wf c" and "k < length (conf_Voters c)"
  shows "conf_Index c (conf_Voters c ! k) = (k, True)"
proof -
  let ?i = "conf_Voters c ! k"
  obtain j b where jb: "conf_Index c ?i = (j, b)" by fastforce
  have "b" using conf_Contains_iff [of c ?i] assms jb by (simp add: conf_Contains_def wf_dests)
  with jb have "j < length (conf_Voters c) \<and> conf_Voters c ! j = ?i"
    by (intro conf_Index_True) simp
  with assms have "j = k" by (simp add: conf_wf_distinct flip: nth_eq_iff_index_eq [of "conf_Voters c"])
  with jb \<open>b\<close> show ?thesis by simp
qed

lemma conf_Index_inj:
  "conf_Index c a = (k, True) \<Longrightarrow> conf_Index c b = (k, True) \<Longrightarrow> a = b"
  by (auto dest: conf_Index_True)

end
