(* ===== verification/Footprint.thy ===== *)
theory Footprint
  imports Ids
begin

text \<open>
  \<^verbatim>\<open>epaxos/footprint.go\<close>: the logical resources a command declares. A footprint is a set of byte
  keys given by points, half-open spans, or everything; \<^verbatim>\<open>canonicalizeFootprint\<close> sorts, merges and
  prunes it, \<^verbatim>\<open>footprintCanonical\<close> recognises the result, and \<^verbatim>\<open>footprintsConflict\<close> decides
  overlap. The abstract view is \<open>fp_keys\<close>, the set of keys a footprint names.

  \<^verbatim>\<open>sort.Slice\<close> is called with linear orders on values that are equal when neither is smaller, so
  its result is the sorted list. The running index \<^verbatim>\<open>spanIndex\<close> of the two-pointer loops is
  represented by the spans from that index on.
\<close>

section \<open>The code\<close>

datatype Span = Span (span_Start: bytes) (span_End: bytes)

instantiation Span :: linorder
begin

definition less_Span :: "Span \<Rightarrow> Span \<Rightarrow> bool" where
  "less_Span a b \<longleftrightarrow>
     (let cmp = bytes_Compare (span_Start a) (span_Start b) in
      if cmp \<noteq> 0 then cmp < 0 else bytes_Compare (span_End a) (span_End b) < 0)"

definition less_eq_Span :: "Span \<Rightarrow> Span \<Rightarrow> bool" where
  "less_eq_Span a b \<longleftrightarrow> a < b \<or> a = b"

instance
proof
  fix x y z :: Span
  show "x < y \<longleftrightarrow> x \<le> y \<and> \<not> y \<le> x"
    by (auto simp: less_Span_def less_eq_Span_def Let_def split: if_splits)
  show "x \<le> x" by (simp add: less_eq_Span_def)
  show "x \<le> z" if "x \<le> y" and "y \<le> z"
    using that by (auto simp: less_eq_Span_def less_Span_def Let_def split: if_splits)
  show "x = y" if "x \<le> y" and "y \<le> x"
    using that by (auto simp: less_eq_Span_def less_Span_def Let_def split: if_splits)
  show "x \<le> y \<or> y \<le> x"
    by (cases x; cases y) (auto simp: less_eq_Span_def less_Span_def Let_def)
qed

end

record Footprint =
  fp_Points :: "bytes list"
  fp_Spans :: "Span list"
  fp_All :: bool

abbreviation zero_footprint :: Footprint where
  "zero_footprint \<equiv> \<lparr>fp_Points = [], fp_Spans = [], fp_All = False\<rparr>"

record footprintLimits =
  lim_points :: int
  lim_spans :: int
  lim_bytes :: int

definition wireFootprintLimits :: footprintLimits where
  "wireFootprintLimits = \<lparr>lim_points = 128, lim_spans = 128, lim_bytes = 2 ^ 20\<rparr>"

text \<open>The closure \<^verbatim>\<open>addBytes\<close> and the two loops that call it; \<open>None\<close> is the early error return.\<close>

definition addBytes :: "footprintLimits \<Rightarrow> int \<Rightarrow> int \<Rightarrow> int option" where
  "addBytes limits tot n =
     (if n < 0 \<or> tot > lim_bytes limits - n then None else Some (tot + n))"

fun addPoints :: "footprintLimits \<Rightarrow> int \<Rightarrow> bytes list \<Rightarrow> int option" where
  "addPoints limits tot [] = Some tot"
| "addPoints limits tot (p # ps) =
     (case addBytes limits tot (int (length p)) of
        None \<Rightarrow> None
      | Some tot' \<Rightarrow> addPoints limits tot' ps)"

fun addSpans :: "footprintLimits \<Rightarrow> int \<Rightarrow> Span list \<Rightarrow> int option" where
  "addSpans limits tot [] = Some tot"
| "addSpans limits tot (s # ss) =
     (if bytes_Compare (span_Start s) (span_End s) \<ge> 0 then None
      else case addBytes limits tot (int (length (span_Start s))) of
        None \<Rightarrow> None
      | Some t1 \<Rightarrow>
          (case addBytes limits t1 (int (length (span_End s))) of
             None \<Rightarrow> None
           | Some t2 \<Rightarrow> addSpans limits t2 ss))"

fun dedupPoints :: "bytes list \<Rightarrow> bytes list \<Rightarrow> bytes list" where
  "dedupPoints out [] = out"
| "dedupPoints out (p # ps) =
     dedupPoints (if out = [] \<or> last out \<noteq> p then out @ [p] else out) ps"

fun mergeSpans :: "Span list \<Rightarrow> Span list \<Rightarrow> Span list" where
  "mergeSpans out [] = out"
| "mergeSpans out (s # ss) =
     (if out = [] \<or> bytes_Compare (span_End (last out)) (span_Start s) < 0
      then mergeSpans (out @ [s]) ss
      else let l = last out in
        if bytes_Compare (span_End l) (span_End s) < 0
        then mergeSpans (butlast out @ [Span (span_Start l) (span_End s)]) ss
        else mergeSpans out ss)"

definition spanCovers :: "Span \<Rightarrow> bytes \<Rightarrow> bool" where
  "spanCovers s p \<longleftrightarrow> bytes_Compare (span_Start s) p \<le> 0 \<and> bytes_Compare p (span_End s) < 0"

fun filterPoints :: "Span list \<Rightarrow> bytes list \<Rightarrow> bytes list" where
  "filterPoints spans [] = []"
| "filterPoints spans (p # ps) =
     (let rest = dropWhile (\<lambda>s. bytes_Compare (span_End s) p \<le> 0) spans in
      if rest \<noteq> [] \<and> spanCovers (hd rest) p
      then filterPoints rest ps else p # filterPoints rest ps)"

fun canonicalSpans :: "Span option \<Rightarrow> Span list \<Rightarrow> bool" where
  "canonicalSpans prev [] = True"
| "canonicalSpans prev (s # ss) =
     (if bytes_Compare (span_Start s) (span_End s) \<ge> 0 then False
      else if (case prev of None \<Rightarrow> False
               | Some q \<Rightarrow> bytes_Compare (span_Start q) (span_Start s) \<ge> 0 \<or>
                          bytes_Compare (span_End q) (span_Start s) \<ge> 0) then False
      else canonicalSpans (Some s) ss)"

fun canonicalPoints :: "Span list \<Rightarrow> bytes option \<Rightarrow> bytes list \<Rightarrow> bool" where
  "canonicalPoints spans prev [] = True"
| "canonicalPoints spans prev (p # ps) =
     (if (case prev of None \<Rightarrow> False | Some q \<Rightarrow> bytes_Compare q p \<ge> 0) then False
      else let rest = dropWhile (\<lambda>s. bytes_Compare (span_End s) p \<le> 0) spans in
        if rest \<noteq> [] \<and> spanCovers (hd rest) p then False
        else canonicalPoints rest (Some p) ps)"

definition footprintCanonical :: "Footprint \<Rightarrow> bool" where
  "footprintCanonical f =
     (if fp_All f then length (fp_Points f) = 0 \<and> length (fp_Spans f) = 0
      else if length (fp_Points f) = 0 \<and> length (fp_Spans f) = 0 then False
      else if \<not> canonicalSpans None (fp_Spans f) then False
      else canonicalPoints (fp_Spans f) None (fp_Points f))"

text \<open>
  \<^verbatim>\<open>canonicalizeFootprint\<close>; a nil destination is \<open>None\<close>, and the result is what \<^verbatim>\<open>*dst\<close> holds
  after success.
\<close>

definition canonicalizeFootprint ::
  "Footprint option \<Rightarrow> Footprint \<Rightarrow> footprintLimits \<Rightarrow> bool \<Rightarrow> error + Footprint" where
  "canonicalizeFootprint dst src limits borrowCanonical =
     (if dst = None \<or> lim_points limits < 0 \<or> lim_spans limits < 0 \<or> lim_bytes limits < 0 \<or>
         int (length (fp_Points src)) > lim_points limits \<or>
         int (length (fp_Spans src)) > lim_spans limits
      then Inl ErrInvalidFootprint
      else case addPoints limits 0 (fp_Points src) of
        None \<Rightarrow> Inl ErrInvalidFootprint
      | Some tot \<Rightarrow>
        (case addSpans limits tot (fp_Spans src) of
           None \<Rightarrow> Inl ErrInvalidFootprint
         | Some _ \<Rightarrow>
           if \<not> fp_All src \<and> length (fp_Points src) = 0 \<and> length (fp_Spans src) = 0
           then Inl ErrInvalidFootprint
           else if fp_All src then Inr (zero_footprint\<lparr>fp_All := True\<rparr>)
           else if footprintCanonical src \<and> borrowCanonical then Inr src
           else
             let outPoints = dedupPoints [] (sort (fp_Points src));
                 outSpans = mergeSpans [] (sort (fp_Spans src))
             in Inr \<lparr>fp_Points = filterPoints outSpans outPoints,
                     fp_Spans = outSpans, fp_All = False\<rparr>))"

definition CanonicalizeFootprint :: "Footprint option \<Rightarrow> Footprint \<Rightarrow> error + Footprint" where
  "CanonicalizeFootprint dst src =
     (if dst = None then Inl ErrInvalidFootprint
      else canonicalizeFootprint dst src wireFootprintLimits False)"

definition footprintEqual :: "Footprint \<Rightarrow> Footprint \<Rightarrow> bool" where
  "footprintEqual a b =
     (if fp_All a \<noteq> fp_All b \<or> length (fp_Points a) \<noteq> length (fp_Points b) \<or>
         length (fp_Spans a) \<noteq> length (fp_Spans b) then False
      else list_all2 (=) (fp_Points a) (fp_Points b) \<and>
           list_all2 (\<lambda>s t. span_Start s = span_Start t \<and> span_End s = span_End t)
             (fp_Spans a) (fp_Spans b))"

definition footprintsConflict :: "Footprint \<Rightarrow> Footprint \<Rightarrow> bool" where
  "footprintsConflict a b =
     (if fp_All a \<or> fp_All b then True
      else if list_ex (\<lambda>ap. list_ex (\<lambda>bp. ap = bp) (fp_Points b) \<or>
                            list_ex (\<lambda>bs. spanCovers bs ap) (fp_Spans b)) (fp_Points a) then True
      else if list_ex (\<lambda>bp. list_ex (\<lambda>as. spanCovers as bp) (fp_Spans a)) (fp_Points b) then True
      else list_ex (\<lambda>as. list_ex (\<lambda>bs.
             bytes_Compare (span_Start as) (span_End bs) < 0 \<and>
             bytes_Compare (span_Start bs) (span_End as) < 0) (fp_Spans b)) (fp_Spans a))"

section \<open>The keys a footprint names\<close>

definition span_keys :: "Span \<Rightarrow> bytes set" where
  "span_keys s = {k. span_Start s \<le> k \<and> k < span_End s}"

definition spans_keys :: "Span list \<Rightarrow> bytes set" where
  "spans_keys ss = (\<Union>s \<in> set ss. span_keys s)"

definition fp_keys :: "Footprint \<Rightarrow> bytes set" where
  "fp_keys f = (if fp_All f then UNIV else set (fp_Points f) \<union> spans_keys (fp_Spans f))"

definition spans_nonempty :: "Span list \<Rightarrow> bool" where
  "spans_nonempty ss \<longleftrightarrow> (\<forall>s \<in> set ss. span_Start s < span_End s)"

text \<open>Spans in order with a gap between consecutive ones: the canonical shape.\<close>

definition spans_apart :: "Span list \<Rightarrow> bool" where
  "spans_apart ss \<longleftrightarrow> sorted_wrt (\<lambda>s t. span_End s < span_Start t) ss \<and> spans_nonempty ss"

lemma spanCovers_iff [simp]: "spanCovers s p \<longleftrightarrow> p \<in> span_keys s"
  by (simp add: spanCovers_def span_keys_def)

lemma spans_keys_simps [simp]:
  "spans_keys [] = {}" "spans_keys (s # ss) = span_keys s \<union> spans_keys ss"
  "spans_keys (ss @ ts) = spans_keys ss \<union> spans_keys ts"
  by (auto simp: spans_keys_def)

lemma spans_keys_sort [simp]: "spans_keys (sort ss) = spans_keys ss"
  by (simp add: spans_keys_def)

lemma spans_nonempty_simps [simp]:
  "spans_nonempty []" "spans_nonempty (s # ss) \<longleftrightarrow> span_Start s < span_End s \<and> spans_nonempty ss"
  "spans_nonempty (ss @ ts) \<longleftrightarrow> spans_nonempty ss \<and> spans_nonempty ts"
  "spans_nonempty (sort ss) = spans_nonempty ss"
  by (auto simp: spans_nonempty_def)

lemma spans_apart_Nil [simp]: "spans_apart []"
  by (simp add: spans_apart_def)

lemma spans_apart_Cons:
  "spans_apart (s # ss) \<longleftrightarrow>
     span_Start s < span_End s \<and> (\<forall>t \<in> set ss. span_End s < span_Start t) \<and> spans_apart ss"
  by (auto simp: spans_apart_def)

lemma spans_apart_snoc:
  "spans_apart (ss @ [t]) \<longleftrightarrow>
     spans_apart ss \<and> span_Start t < span_End t \<and> (\<forall>s \<in> set ss. span_End s < span_Start t)"
  by (auto simp: spans_apart_def sorted_wrt_append)

section \<open>Sorting, deduplication and merging\<close>

lemma dedupPoints_spec:
  assumes "sorted (out @ ps)" and "sorted_wrt (<) out"
  shows "sorted_wrt (<) (dedupPoints out ps) \<and> set (dedupPoints out ps) = set out \<union> set ps"
  using assms
proof (induction out ps rule: dedupPoints.induct)
  case (2 out p ps)
  show ?case
  proof (cases "out = [] \<or> last out \<noteq> p")
    case True
    have "x < p" if x: "x \<in> set out" for x
    proof -
      obtain ys l where out: "out = ys @ [l]" using x by (cases out rule: rev_exhaust) auto
      with True "2.prems"(1) have "l < p" by (auto simp: sorted_append)
      with out x "2.prems"(2) show ?thesis by (auto simp: sorted_wrt_append)
    qed
    with True "2" show ?thesis by (auto simp: sorted_wrt_append sorted_append)
  next
    case False
    then have "p \<in> set out" by auto
    with False "2" show ?thesis by (auto simp: sorted_append)
  qed
qed auto

lemma dedupPoints_id:
  "sorted_wrt (<) (out @ ps) \<Longrightarrow> dedupPoints out ps = out @ ps"
proof (induction ps arbitrary: out)
  case (Cons p ps)
  have "out = [] \<or> last out \<noteq> p"
    using Cons.prems by (cases out rule: rev_cases) (auto simp: sorted_wrt_append)
  with Cons show ?case by simp
qed simp

lemma Span_le_Start: "a \<le> b \<Longrightarrow> span_Start a \<le> span_Start b"
  by (auto simp: less_eq_Span_def less_Span_def Let_def split: if_splits)

lemma span_keys_join:
  assumes "span_Start l \<le> span_Start s" "span_Start s \<le> span_End l"
  shows "span_keys l \<union> span_keys s =
    (if span_End l < span_End s then span_keys (Span (span_Start l) (span_End s)) else span_keys l)"
  using assms by (auto simp: span_keys_def)

lemma spans_apart_extend:
  assumes "spans_apart out" "span_Start s < span_End s" "out = [] \<or> span_End (last out) < span_Start s"
  shows "spans_apart (out @ [s])"
proof (cases out rule: rev_cases)
  case (snoc ys l)
  have "span_End t < span_Start s" if "t \<in> set ys" for t
  proof -
    have "span_End t < span_Start l" "span_Start l < span_End l"
      using snoc that assms(1) by (auto simp: spans_apart_snoc)
    then show ?thesis using assms(3) snoc by simp
  qed
  then show ?thesis unfolding spans_apart_snoc using assms snoc by auto
qed (use assms in \<open>simp add: spans_apart_Cons\<close>)

lemma mergeSpans_spec:
  assumes "sorted ss" "spans_nonempty ss" "spans_apart out"
    and "out \<noteq> [] \<longrightarrow> (\<forall>s \<in> set ss. span_Start (last out) \<le> span_Start s)"
  shows "spans_apart (mergeSpans out ss) \<and> spans_keys (mergeSpans out ss) = spans_keys out \<union> spans_keys ss"
  using assms
proof (induction ss arbitrary: out)
  case (Cons s ss)
  have ss: "sorted ss" "spans_nonempty ss" "span_Start s < span_End s" using Cons.prems by auto
  have le: "\<forall>t \<in> set ss. span_Start s \<le> span_Start t"
    using Cons.prems(1) by (auto intro: Span_le_Start)
  show ?case
  proof (cases "out = [] \<or> span_End (last out) < span_Start s")
    case True
    have "spans_apart (out @ [s])" using spans_apart_extend Cons.prems(3) ss(3) True by blast
    then have "spans_apart (mergeSpans (out @ [s]) ss) \<and>
        spans_keys (mergeSpans (out @ [s]) ss) = spans_keys (out @ [s]) \<union> spans_keys ss"
      by (intro Cons.IH ss) (simp_all add: le)
    with True show ?thesis by (simp add: sup.assoc)
  next
    case False
    then obtain ys l where out: "out = ys @ [l]" by (cases out rule: rev_exhaust) auto
    with False have l: "span_Start s \<le> span_End l" "span_Start l \<le> span_Start s"
      using Cons.prems(4) by auto
    let ?m = "Span (span_Start l) (span_End s)"
    let ?out' = "if span_End l < span_End s then ys @ [?m] else out"
    have eq: "mergeSpans out (s # ss) = mergeSpans ?out' ss" using False out by simp
    have keys: "spans_keys ?out' = spans_keys out \<union> span_keys s"
      using span_keys_join [OF l(2,1)] out by (auto split: if_splits)
    have "spans_apart ?out'" using Cons.prems(3) out by (auto simp: spans_apart_snoc)
    then have "spans_apart (mergeSpans ?out' ss) \<and>
        spans_keys (mergeSpans ?out' ss) = spans_keys ?out' \<union> spans_keys ss"
      by (intro Cons.IH ss) (use Cons.prems(4) out in \<open>simp_all split: if_splits\<close>)
    then show ?thesis unfolding eq keys by (simp add: sup.assoc)
  qed
qed auto

lemma spans_apart_sorted: "spans_apart ss \<Longrightarrow> sorted ss"
proof (induction ss)
  case (Cons s ss)
  have "s \<le> t" if "t \<in> set ss" for t
    using Cons.prems that by (auto simp: spans_apart_Cons less_eq_Span_def less_Span_def)
  with Cons show ?case by (simp add: spans_apart_Cons)
qed simp

lemma mergeSpans_id: "spans_apart (out @ ss) \<Longrightarrow> mergeSpans out ss = out @ ss"
proof (induction ss arbitrary: out)
  case (Cons s ss)
  have "out = [] \<or> span_End (last out) < span_Start s"
    using Cons.prems by (cases out rule: rev_cases) (auto simp: spans_apart_def sorted_wrt_append)
  with Cons show ?case by simp
qed simp

section \<open>Points against spans\<close>

lemma dropWhile_keys:
  "p \<le> q \<Longrightarrow> q \<in> spans_keys (dropWhile (\<lambda>s. span_End s \<le> p) ss) \<longleftrightarrow> q \<in> spans_keys ss"
  by (induction ss) (auto simp: span_keys_def)

lemma spans_apart_dropWhile: "spans_apart ss \<Longrightarrow> spans_apart (dropWhile P ss)"
  by (induction ss) (auto simp: spans_apart_Cons)

lemma hd_dropWhile_keys:
  assumes "spans_apart ss"
  shows "dropWhile (\<lambda>s. span_End s \<le> p) ss \<noteq> [] \<and>
      p \<in> span_keys (hd (dropWhile (\<lambda>s. span_End s \<le> p) ss)) \<longleftrightarrow> p \<in> spans_keys ss"
  using assms
proof (induction ss)
  case (Cons s ss)
  show ?case
  proof (cases "span_End s \<le> p")
    case True
    with Cons show ?thesis by (auto simp: spans_apart_Cons span_keys_def)
  next
    case False
    have "p \<notin> spans_keys ss"
    proof
      assume "p \<in> spans_keys ss"
      then obtain t where "t \<in> set ss" "span_Start t \<le> p" by (auto simp: spans_keys_def span_keys_def)
      with Cons.prems have "span_End s < p" by (auto simp: spans_apart_Cons)
      with False show False by simp
    qed
    with False show ?thesis by simp
  qed
qed simp

lemma filterPoints_spec:
  "spans_apart spans \<Longrightarrow> sorted ps \<Longrightarrow>
     filterPoints spans ps = filter (\<lambda>p. p \<notin> spans_keys spans) ps"
proof (induction spans ps rule: filterPoints.induct)
  case (2 spans p ps)
  let ?rest = "dropWhile (\<lambda>s. span_End s \<le> p) spans"
  have IH: "filterPoints ?rest ps = filter (\<lambda>p. p \<notin> spans_keys ?rest) ps"
    using "2" by (cases "?rest \<noteq> [] \<and> spanCovers (hd ?rest) p") (auto simp: spans_apart_dropWhile)
  have "filter (\<lambda>p. p \<notin> spans_keys ?rest) ps = filter (\<lambda>p. p \<notin> spans_keys spans) ps"
    using "2.prems"(2) by (intro filter_cong refl) (auto simp: dropWhile_keys)
  with IH show ?case
    using hd_dropWhile_keys [OF "2.prems"(1), of p] by (auto simp: Let_def)
qed simp

lemma spans_apart_Cons2:
  "spans_apart (q # s # ss) \<longleftrightarrow>
     span_Start q < span_End q \<and> span_End q < span_Start s \<and> spans_apart (s # ss)"
  by (auto simp: spans_apart_Cons intro: order.strict_trans)

lemma canonicalSpans_Some:
  "span_Start q < span_End q \<Longrightarrow> canonicalSpans (Some q) ss \<longleftrightarrow> spans_apart (q # ss)"
proof (induction ss arbitrary: q)
  case (Cons s ss)
  have "span_Start q < span_Start s" if "span_End q < span_Start s"
    using that Cons.prems by (rule order.strict_trans [rotated])
  with Cons show ?case
    unfolding spans_apart_Cons2 by (auto simp: not_le spans_apart_Cons [of s ss])
qed (simp add: spans_apart_Cons)

lemma canonicalSpans_None: "canonicalSpans None ss \<longleftrightarrow> spans_apart ss"
  by (cases ss) (auto simp: canonicalSpans_Some not_le spans_apart_Cons)

lemma canonicalPoints_step:
  assumes "spans_apart spans"
  shows "canonicalPoints spans prev (p # ps) \<longleftrightarrow>
     (\<forall>q. prev = Some q \<longrightarrow> q < p) \<and> p \<notin> spans_keys spans \<and>
     canonicalPoints (dropWhile (\<lambda>s. span_End s \<le> p) spans) (Some p) ps"
  unfolding canonicalPoints.simps Let_def bytes_Compare_less spanCovers_iff
    hd_dropWhile_keys [OF assms, of p]
  by (auto simp: not_le split: option.split)

lemma dropWhile_keys_disjoint:
  assumes "\<forall>x \<in> set ps. p < x"
  shows "set ps \<inter> spans_keys (dropWhile (\<lambda>s. span_End s \<le> p) ss) = set ps \<inter> spans_keys ss"
  using assms dropWhile_keys [OF less_imp_le] by blast

lemma canonicalPoints_Some:
  "spans_apart spans \<Longrightarrow>
   canonicalPoints spans (Some q) ps \<longleftrightarrow>
     sorted_wrt (<) (q # ps) \<and> set ps \<inter> spans_keys spans = {}"
proof (induction ps arbitrary: spans q)
  case (Cons p ps)
  have "canonicalPoints spans (Some q) (p # ps) \<longleftrightarrow> q < p \<and> p \<notin> spans_keys spans \<and>
      sorted_wrt (<) (p # ps) \<and> set ps \<inter> spans_keys (dropWhile (\<lambda>s. span_End s \<le> p) spans) = {}"
    unfolding canonicalPoints_step [OF Cons.prems] Cons.IH [OF spans_apart_dropWhile [OF Cons.prems]]
    by simp
  also have "\<dots> \<longleftrightarrow> q < p \<and> p \<notin> spans_keys spans \<and> sorted_wrt (<) (p # ps) \<and> set ps \<inter> spans_keys spans = {}"
    using dropWhile_keys_disjoint [of ps p spans] by auto
  also have "\<dots> \<longleftrightarrow> sorted_wrt (<) (q # p # ps) \<and> set (p # ps) \<inter> spans_keys spans = {}"
    by (auto intro: order.strict_trans)
  finally show ?case .
qed simp

lemma canonicalPoints_None:
  assumes "spans_apart spans"
  shows "canonicalPoints spans None ps \<longleftrightarrow> sorted_wrt (<) ps \<and> set ps \<inter> spans_keys spans = {}"
proof (cases ps)
  case (Cons p qs)
  have "canonicalPoints spans None (p # qs) \<longleftrightarrow> p \<notin> spans_keys spans \<and>
      sorted_wrt (<) (p # qs) \<and> set qs \<inter> spans_keys (dropWhile (\<lambda>s. span_End s \<le> p) spans) = {}"
    unfolding canonicalPoints_step [OF assms] canonicalPoints_Some [OF spans_apart_dropWhile [OF assms]]
    by simp
  then show ?thesis using dropWhile_keys_disjoint [of qs p spans] Cons by auto
qed simp

section \<open>Limits\<close>

definition points_size :: "bytes list \<Rightarrow> int" where
  "points_size ps = (\<Sum>p \<leftarrow> ps. int (length p))"

definition spans_size :: "Span list \<Rightarrow> int" where
  "spans_size ss = (\<Sum>s \<leftarrow> ss. int (length (span_Start s)) + int (length (span_End s)))"

lemma size_simps [simp]:
  "points_size [] = 0" "points_size (p # ps) = int (length p) + points_size ps"
  "points_size (ps @ qs) = points_size ps + points_size qs"
  "spans_size [] = 0"
  "spans_size (s # ss) = int (length (span_Start s)) + int (length (span_End s)) + spans_size ss"
  "spans_size (ss @ ts) = spans_size ss + spans_size ts"
  by (auto simp: points_size_def spans_size_def)

lemma size_nonneg: "0 \<le> points_size ps" "0 \<le> spans_size ss"
  by (induction ps, simp_all) (induction ss, simp_all)

lemma addPoints_eq:
  "t \<le> lim_bytes l \<Longrightarrow>
   addPoints l t ps = (if t + points_size ps \<le> lim_bytes l then Some (t + points_size ps) else None)"
proof (induction ps arbitrary: t)
  case (Cons p ps)
  show ?case
  proof (cases "t + int (length p) \<le> lim_bytes l")
    case True
    then have "addBytes l t (int (length p)) = Some (t + int (length p))" by (simp add: addBytes_def)
    with Cons.IH [OF True] show ?thesis by (simp add: add.assoc)
  next
    case False
    then have "addBytes l t (int (length p)) = None" by (simp add: addBytes_def)
    with False size_nonneg(1) [of ps] show ?thesis by simp
  qed
qed simp

lemma addSpans_eq:
  "t \<le> lim_bytes l \<Longrightarrow>
   addSpans l t ss = (if spans_nonempty ss \<and> t + spans_size ss \<le> lim_bytes l
                      then Some (t + spans_size ss) else None)"
proof (induction ss arbitrary: t)
  case (Cons s ss)
  let ?a = "int (length (span_Start s))" and ?b = "int (length (span_End s))"
  note IH = Cons.IH [of "t + ?a + ?b"] size_nonneg(2) [of ss]
  show ?case
    using IH by (auto simp: addBytes_def add.assoc not_le)
qed simp

definition fp_admissible :: "footprintLimits \<Rightarrow> Footprint \<Rightarrow> bool" where
  "fp_admissible l f \<longleftrightarrow>
     0 \<le> lim_points l \<and> 0 \<le> lim_spans l \<and> 0 \<le> lim_bytes l \<and>
     int (length (fp_Points f)) \<le> lim_points l \<and> int (length (fp_Spans f)) \<le> lim_spans l \<and>
     points_size (fp_Points f) + spans_size (fp_Spans f) \<le> lim_bytes l \<and>
     spans_nonempty (fp_Spans f) \<and> (fp_All f \<or> fp_Points f \<noteq> [] \<or> fp_Spans f \<noteq> [])"

text \<open>The normal form the routine computes when it does not return early.\<close>

definition fp_normal :: "Footprint \<Rightarrow> Footprint" where
  "fp_normal f =
     (if fp_All f then zero_footprint\<lparr>fp_All := True\<rparr>
      else let outSpans = mergeSpans [] (sort (fp_Spans f)) in
        \<lparr>fp_Points = filterPoints outSpans (dedupPoints [] (sort (fp_Points f))),
         fp_Spans = outSpans, fp_All = False\<rparr>)"

lemma footprintCanonical_iff:
  "footprintCanonical f \<longleftrightarrow>
     (if fp_All f then fp_Points f = [] \<and> fp_Spans f = []
      else (fp_Points f \<noteq> [] \<or> fp_Spans f \<noteq> []) \<and> spans_apart (fp_Spans f) \<and>
           sorted_wrt (<) (fp_Points f) \<and> set (fp_Points f) \<inter> spans_keys (fp_Spans f) = {})"
  by (auto simp: footprintCanonical_def canonicalSpans_None canonicalPoints_None)

lemma fp_normal_id:
  assumes "footprintCanonical f"
  shows "fp_normal f = f"
proof (cases "fp_All f")
  case True
  with assms show ?thesis by (simp add: footprintCanonical_iff fp_normal_def)
next
  case False
  then have c: "spans_apart (fp_Spans f)" "sorted_wrt (<) (fp_Points f)"
      "set (fp_Points f) \<inter> spans_keys (fp_Spans f) = {}"
    using assms by (auto simp: footprintCanonical_iff)
  then have "sort (fp_Points f) = fp_Points f" "sort (fp_Spans f) = fp_Spans f" "sorted (fp_Points f)"
    using spans_apart_sorted by (auto simp: sorted_distinct_strict sort_key_id_if_sorted)
  moreover have "filter (\<lambda>p. p \<notin> spans_keys (fp_Spans f)) (fp_Points f) = fp_Points f"
    using c(3) by (auto simp: filter_id_conv)
  ultimately show ?thesis
    using False mergeSpans_id [of "[]" "fp_Spans f"] dedupPoints_id [of "[]" "fp_Points f"] c
    by (simp add: fp_normal_def filterPoints_spec)
qed

lemma canonicalizeFootprint_eq:
  "canonicalizeFootprint (Some d) src l borrow =
     (if fp_admissible l src then Inr (fp_normal src) else Inl ErrInvalidFootprint)"
proof (cases "0 \<le> lim_bytes l")
  case True
  have s: "0 \<le> spans_size (fp_Spans src)" by (rule size_nonneg)
  have p: "addPoints l 0 (fp_Points src) =
      (if points_size (fp_Points src) \<le> lim_bytes l then Some (points_size (fp_Points src)) else None)"
    using addPoints_eq [of 0 l] True by simp
  have a: "addSpans l (points_size (fp_Points src)) (fp_Spans src) =
      (if spans_nonempty (fp_Spans src) \<and> points_size (fp_Points src) + spans_size (fp_Spans src) \<le> lim_bytes l
       then Some (points_size (fp_Points src) + spans_size (fp_Spans src)) else None)"
    if "points_size (fp_Points src) \<le> lim_bytes l"
    using that by (rule addSpans_eq)
  show ?thesis
  proof (cases "points_size (fp_Points src) \<le> lim_bytes l")
    case True
    show ?thesis
      using fp_normal_id [of src]
      by (auto simp: canonicalizeFootprint_def p a [OF True] True fp_admissible_def fp_normal_def Let_def)
  next
    case False
    with s show ?thesis by (auto simp: canonicalizeFootprint_def p fp_admissible_def)
  qed
qed (simp add: canonicalizeFootprint_def fp_admissible_def)

lemma fp_normal_canonical:
  assumes "spans_nonempty (fp_Spans f)" "fp_All f \<or> fp_Points f \<noteq> [] \<or> fp_Spans f \<noteq> []"
  shows "footprintCanonical (fp_normal f) \<and> fp_keys (fp_normal f) = fp_keys f"
proof (cases "fp_All f")
  case True
  then show ?thesis by (simp add: fp_normal_def footprintCanonical_iff fp_keys_def)
next
  case False
  let ?ss = "mergeSpans [] (sort (fp_Spans f))" and ?ps = "dedupPoints [] (sort (fp_Points f))"
  have ss: "spans_apart ?ss" "spans_keys ?ss = spans_keys (fp_Spans f)"
    using mergeSpans_spec [of "sort (fp_Spans f)" "[]"] assms(1) by auto
  have ps: "sorted_wrt (<) ?ps" "set ?ps = set (fp_Points f)"
    using dedupPoints_spec [of "[]" "sort (fp_Points f)"] by auto
  have fps: "filterPoints ?ss ?ps = filter (\<lambda>p. p \<notin> spans_keys (fp_Spans f)) ?ps"
    using filterPoints_spec [OF ss(1)] ps(1) ss(2) by (simp add: sorted_distinct_strict)
  have keys: "fp_keys (fp_normal f) = fp_keys f"
    using False ss ps fps by (auto simp: fp_keys_def fp_normal_def Let_def)
  have "fp_keys f \<noteq> {}" using assms False
    by (cases "fp_Spans f") (auto simp: fp_keys_def spans_keys_def span_keys_def)
  then have "filterPoints ?ss ?ps \<noteq> [] \<or> ?ss \<noteq> []"
    using keys False by (auto simp: fp_keys_def fp_normal_def Let_def)
  then have "footprintCanonical (fp_normal f)"
    using False ss ps unfolding footprintCanonical_iff
    by (auto simp: fp_normal_def Let_def fps sorted_wrt_filter)
  with keys show ?thesis by simp
qed

lemma dedupPoints_size:
  "length (dedupPoints out ps) \<le> length out + length ps \<and>
   points_size (dedupPoints out ps) \<le> points_size out + points_size ps"
proof (induction ps arbitrary: out)
  case (Cons p ps)
  show ?case using Cons [of out] Cons [of "out @ [p]"] by auto
qed simp

lemma mergeSpans_size:
  "length (mergeSpans out ss) \<le> length out + length ss \<and>
   spans_size (mergeSpans out ss) \<le> spans_size out + spans_size ss"
proof (induction ss arbitrary: out)
  case (Cons s ss)
  show ?case
  proof (cases "out = [] \<or> span_End (last out) < span_Start s")
    case True
    with Cons [of "out @ [s]"] show ?thesis by auto
  next
    case False
    then obtain ys l where out: "out = ys @ [l]" by (cases out rule: rev_exhaust) auto
    with Cons [of out] Cons [of "ys @ [Span (span_Start l) (span_End s)]"] False show ?thesis by auto
  qed
qed simp

lemma filterPoints_size:
  "length (filterPoints ss ps) \<le> length ps \<and> points_size (filterPoints ss ps) \<le> points_size ps"
proof (induction ps arbitrary: ss)
  case (Cons p ps)
  show ?case using Cons [of "dropWhile (\<lambda>s. span_End s \<le> p) ss"] by (simp add: Let_def)
qed simp

lemma size_sort: "points_size (sort ps) = points_size ps" "spans_size (sort ss) = spans_size ss"
  by (simp_all add: points_size_def spans_size_def sum_list_sort)

lemma fp_normal_keeps_admissible:
  assumes "fp_admissible l f"
  shows "fp_admissible l (fp_normal f)"
proof (cases "fp_All f")
  case True
  with assms show ?thesis by (auto simp: fp_admissible_def fp_normal_def)
next
  case False
  let ?ps = "dedupPoints [] (sort (fp_Points f))" and ?ss = "mergeSpans [] (sort (fp_Spans f))"
  have "footprintCanonical (fp_normal f)"
    using fp_normal_canonical [of f] assms by (simp add: fp_admissible_def)
  then have "spans_nonempty (fp_Spans (fp_normal f))" "fp_Points (fp_normal f) \<noteq> [] \<or> fp_Spans (fp_normal f) \<noteq> []"
    using False by (auto simp: footprintCanonical_iff spans_apart_def fp_normal_def Let_def)
  then show ?thesis
    using assms False dedupPoints_size [of "[]" "sort (fp_Points f)"]
      mergeSpans_size [of "[]" "sort (fp_Spans f)"] filterPoints_size [of ?ss ?ps]
    by (auto simp: fp_admissible_def fp_normal_def Let_def size_sort)
qed

section \<open>Conflict\<close>

text \<open>A footprint with nonempty spans that names some key: what canonicalization leaves.\<close>

definition fp_valid :: "Footprint \<Rightarrow> bool" where
  "fp_valid f \<longleftrightarrow> spans_nonempty (fp_Spans f) \<and> (fp_All f \<or> fp_Points f \<noteq> [] \<or> fp_Spans f \<noteq> [])"

lemma fp_valid_keys: "fp_valid f \<Longrightarrow> fp_keys f \<noteq> {}"
  by (cases "fp_Spans f") (auto simp: fp_valid_def fp_keys_def spans_keys_def span_keys_def)

lemma footprintCanonical_valid: "footprintCanonical f \<Longrightarrow> fp_valid f"
  by (auto simp: footprintCanonical_iff fp_valid_def spans_apart_def split: if_splits)

lemma span_overlap_iff:
  assumes "span_Start a < span_End a" "span_Start b < span_End b"
  shows "span_keys a \<inter> span_keys b \<noteq> {} \<longleftrightarrow> span_Start a < span_End b \<and> span_Start b < span_End a"
proof
  assume "span_Start a < span_End b \<and> span_Start b < span_End a"
  then have "max (span_Start a) (span_Start b) \<in> span_keys a \<inter> span_keys b"
    using assms by (auto simp: span_keys_def max_def)
  then show "span_keys a \<inter> span_keys b \<noteq> {}" by blast
qed (auto simp: span_keys_def)

lemma footprintsConflict_iff:
  assumes "fp_valid a" "fp_valid b"
  shows "footprintsConflict a b \<longleftrightarrow> fp_keys a \<inter> fp_keys b \<noteq> {}"
proof (cases "fp_All a \<or> fp_All b")
  case True
  with assms fp_valid_keys [of a] fp_valid_keys [of b] show ?thesis
    by (auto simp: footprintsConflict_def fp_keys_def [of a] fp_keys_def [of b])
next
  case False
  have overlap: "(span_Start s < span_End t \<and> span_Start t < span_End s) \<longleftrightarrow> span_keys s \<inter> span_keys t \<noteq> {}"
    if "s \<in> set (fp_Spans a)" "t \<in> set (fp_Spans b)" for s t
    using span_overlap_iff [of s t] assms that by (auto simp: fp_valid_def spans_nonempty_def)
  have "footprintsConflict a b \<longleftrightarrow>
      (\<exists>p \<in> set (fp_Points a). p \<in> set (fp_Points b) \<or> p \<in> spans_keys (fp_Spans b)) \<or>
      (\<exists>p \<in> set (fp_Points b). p \<in> spans_keys (fp_Spans a)) \<or>
      (\<exists>s \<in> set (fp_Spans a). \<exists>t \<in> set (fp_Spans b). span_keys s \<inter> span_keys t \<noteq> {})"
    using False overlap by (auto simp: footprintsConflict_def list_ex_iff spans_keys_def)
  also have "\<dots> \<longleftrightarrow> fp_keys a \<inter> fp_keys b \<noteq> {}"
    using False by (auto simp: fp_keys_def spans_keys_def)
  finally show ?thesis .
qed

lemma footprintEqual_iff: "footprintEqual a b \<longleftrightarrow> a = b"
proof -
  have "(list_all2 (\<lambda>s t. span_Start s = span_Start t \<and> span_End s = span_End t) xs ys) = (xs = ys)" for xs ys
    by (induction xs ys rule: list_induct2') (auto intro: Span.expand)
  then show ?thesis
    by (cases a; cases b) (auto simp: footprintEqual_def list_all2_eq [symmetric])
qed

lemma CanonicalizeFootprint_keys:
  assumes "CanonicalizeFootprint (Some d) f = Inr a"
  shows "fp_valid f" and "fp_valid a" and "fp_keys a = fp_keys f"
proof -
  have a: "fp_admissible wireFootprintLimits f" "a = fp_normal f"
    using assms by (auto simp: CanonicalizeFootprint_def canonicalizeFootprint_eq split: if_splits)
  then show "fp_valid f" by (simp add: fp_admissible_def fp_valid_def)
  with a fp_normal_canonical [of f] footprintCanonical_valid [of a]
  show "fp_valid a" and "fp_keys a = fp_keys f" by (auto simp: fp_valid_def)
qed

section \<open>Properties\<close>

text \<open>
  C8. Canonicalization succeeds exactly on the footprints within the limits whose spans are
  nonempty and that name something, and then the result is canonical and names the same keys.
\<close>

theorem canonicalizeFootprint_correct:
  "case canonicalizeFootprint (Some d) src l borrow of
     Inl e \<Rightarrow> e = ErrInvalidFootprint \<and> \<not> fp_admissible l src
   | Inr g \<Rightarrow> fp_admissible l src \<and> footprintCanonical g \<and> fp_keys g = fp_keys src"
  using fp_normal_canonical [of src] by (simp add: canonicalizeFootprint_eq fp_admissible_def)

text \<open>
  C29. Canonicalization is idempotent under the same limits, and borrowing an already canonical
  footprint returns what the copying path would compute.
\<close>

theorem canonicalizeFootprint_idem:
  "canonicalizeFootprint dst src l True = canonicalizeFootprint dst src l False \<and>
   (case canonicalizeFootprint dst src l borrow of
      Inl e \<Rightarrow> True | Inr g \<Rightarrow> canonicalizeFootprint dst g l borrow = Inr g)"
proof (cases dst)
  case (Some d)
  have "fp_normal (fp_normal src) = fp_normal src" if "fp_admissible l src"
    using fp_normal_canonical [of src] that by (simp add: fp_normal_id fp_admissible_def)
  with Some fp_normal_keeps_admissible [of l src] show ?thesis
    by (simp add: canonicalizeFootprint_eq)
qed (simp add: canonicalizeFootprint_def)

text \<open>
  C14. Two canonical footprints conflict exactly when some key belongs to both; the test is
  symmetric, and canonicalizing either side does not change the answer.
\<close>

theorem footprintsConflict_correct:
  assumes "CanonicalizeFootprint (Some d) f = Inr a" and "CanonicalizeFootprint (Some d) g = Inr b"
  shows "(footprintsConflict a b \<longleftrightarrow> fp_keys f \<inter> fp_keys g \<noteq> {}) \<and>
    footprintsConflict a b = footprintsConflict b a \<and> footprintsConflict a b = footprintsConflict f g"
  using CanonicalizeFootprint_keys [OF assms(1)] CanonicalizeFootprint_keys [OF assms(2)]
  by (simp add: footprintsConflict_iff inf_commute)

theorem footprintsConflict_correct_witness:
  "footprintsConflict \<lparr>fp_Points = [[2]], fp_Spans = [], fp_All = False\<rparr>
     \<lparr>fp_Points = [], fp_Spans = [Span [1] [3]], fp_All = False\<rparr>"
proof -
  let ?f = "\<lparr>fp_Points = [[2], [2]], fp_Spans = [], fp_All = False\<rparr>"
  let ?a = "\<lparr>fp_Points = [[2]], fp_Spans = [], fp_All = False\<rparr>"
  let ?g = "\<lparr>fp_Points = [], fp_Spans = [Span [1] [2], Span [2] [3]], fp_All = False\<rparr>"
  let ?b = "\<lparr>fp_Points = [], fp_Spans = [Span [1] [3]], fp_All = False\<rparr>"
  have "CanonicalizeFootprint (Some zero_footprint) ?f = Inr ?a"
    "CanonicalizeFootprint (Some zero_footprint) ?g = Inr ?b"
    by code_simp+
  then have "footprintsConflict ?a ?b \<longleftrightarrow> fp_keys ?f \<inter> fp_keys ?g \<noteq> {}"
    using footprintsConflict_correct by blast
  moreover have "[2] \<in> fp_keys ?f \<inter> fp_keys ?g"
    by (simp add: fp_keys_def span_keys_def)
  ultimately show ?thesis by blast
qed

end
