(* ===== verification/Records.thy ===== *)
theory Records
  imports Footprint
begin

text \<open>
  The data of the protocol (\<^verbatim>\<open>epaxos/types.go\<close>, \<^verbatim>\<open>epaxos/message.go\<close>, \<^verbatim>\<open>epaxos/bootstrap.go\<close>): commands,
  attributes, instance records and messages, and the value functions on them. Structs are
  records, \<^verbatim>\<open>uint64\<close> fields 64-bit words, \<^verbatim>\<open>uint8\<close> enumerations 8-bit words, \<^verbatim>\<open>[32]byte\<close> digests byte
  lists whose zero value has 32 zeros, slices lists. The deep copies of the source (\<^verbatim>\<open>Clone\<close>,
  \<^verbatim>\<open>CloneInto\<close>) are the identity on these values.
\<close>

section \<open>Commands and entry values\<close>

record CommandID =
  cid_Client :: u64
  cid_Sequence :: u64

record Command =
  cmd_ID :: CommandID
  cmd_Payload :: bytes
  cmd_Footprint :: Footprint
  cmd_CycleKey :: bytes

record ConfChange =
  cc_Type :: ConfChangeType
  cc_Replica :: ReplicaID

definition zero_digest :: bytes where
  "zero_digest = replicate 32 0"

definition zero_command :: Command where
  "zero_command = \<lparr>cmd_ID = \<lparr>cid_Client = 0, cid_Sequence = 0\<rparr>, cmd_Payload = [],
     cmd_Footprint = zero_footprint, cmd_CycleKey = []\<rparr>"

definition zero_confChange :: ConfChange where
  "zero_confChange = \<lparr>cc_Type = 0, cc_Replica = 0\<rparr>"

definition ConflictsWith :: "Command \<Rightarrow> Command \<Rightarrow> bool" where
  "ConflictsWith c other = footprintsConflict (cmd_Footprint c) (cmd_Footprint other)"

definition commandEmpty :: "Command \<Rightarrow> bool" where
  "commandEmpty c \<longleftrightarrow>
     cmd_ID c = \<lparr>cid_Client = 0, cid_Sequence = 0\<rparr> \<and> length (cmd_Payload c) = 0 \<and>
     length (fp_Points (cmd_Footprint c)) = 0 \<and> length (fp_Spans (cmd_Footprint c)) = 0 \<and>
     \<not> fp_All (cmd_Footprint c) \<and> length (cmd_CycleKey c) = 0"

definition maxWireCycleKeyBytes :: nat where
  "maxWireCycleKeyBytes = 64 * 2 ^ 10"

definition maxWireProtocolControl :: nat where
  "maxWireProtocolControl = 2 ^ 20"

definition entryValueCanonical :: "EntryKind \<Rightarrow> Command \<Rightarrow> ConfChange \<Rightarrow> bytes \<Rightarrow> bool" where
  "entryValueCanonical kind command change control =
     (let changeEmpty = (change = zero_confChange) in
      if kind = 0 then commandEmpty command \<and> changeEmpty \<and> length control = 0
      else if kind = EntryCommand then
        changeEmpty \<and> length control = 0 \<and> footprintCanonical (cmd_Footprint command) \<and>
        length (cmd_CycleKey command) \<le> maxWireCycleKeyBytes
      else if kind = EntryNoop then commandEmpty command \<and> changeEmpty \<and> length control = 0
      else if kind = EntryConfChange then
        commandEmpty command \<and> length control = 0 \<and>
        (cc_Type change = ConfChangeAddVoter \<or> cc_Type change = ConfChangeRemoveVoter) \<and>
        cc_Replica change \<noteq> 0
      else if kind = EntryMembership \<or> kind = EntryCheckpoint then
        commandEmpty command \<and> changeEmpty \<and> length control \<noteq> 0 \<and>
        length control \<le> maxWireProtocolControl
      else False)"

section \<open>Attributes\<close>

record Attributes =
  at_Seq :: u64
  at_Deps :: "InstanceNum list"

definition zero_attrs :: Attributes where
  "zero_attrs = \<lparr>at_Seq = 0, at_Deps = []\<rparr>"

fun instanceNumsEqual :: "InstanceNum list \<Rightarrow> InstanceNum list \<Rightarrow> bool" where
  "instanceNumsEqual [] [] = True"
| "instanceNumsEqual (a # as) (b # bs) \<longleftrightarrow> a = b \<and> instanceNumsEqual as bs"
| "instanceNumsEqual _ _ = False"

definition attrs_Equal :: "Attributes \<Rightarrow> Attributes \<Rightarrow> bool" where
  "attrs_Equal a b \<longleftrightarrow>
     at_Seq a = at_Seq b \<and> length (at_Deps a) = length (at_Deps b) \<and>
     (\<forall>i < length (at_Deps a). at_Deps a ! i = at_Deps b ! i)"

text \<open>The loop of \<^verbatim>\<open>mergeAttrs\<close> over the dependencies of \<open>b\<close>, on a list grown to their number.\<close>

fun raiseDeps :: "InstanceNum list \<Rightarrow> InstanceNum list \<Rightarrow> InstanceNum list" where
  "raiseDeps (d # ds) (x # xs) = (if x > d then x else d) # raiseDeps ds xs"
| "raiseDeps ds [] = ds"
| "raiseDeps [] (x # xs) = []"

definition growDeps :: "InstanceNum list \<Rightarrow> nat \<Rightarrow> InstanceNum list" where
  "growDeps ds n = (if n > length ds then ds @ replicate (n - length ds) 0 else ds)"

definition mergeAttrs :: "Attributes \<Rightarrow> Attributes \<Rightarrow> Attributes" where
  "mergeAttrs a b =
     (let seq = (if at_Seq b > at_Seq a then at_Seq b else at_Seq a);
          deps = raiseDeps (growDeps (at_Deps a) (length (at_Deps b))) (at_Deps b)
      in \<lparr>at_Seq = (if seq = 0 then 1 else seq), at_Deps = deps\<rparr>)"

definition attrsCover :: "Attributes \<Rightarrow> Attributes \<Rightarrow> bool" where
  "attrsCover base candidate =
     (if at_Seq candidate < at_Seq base \<or> length (at_Deps candidate) < length (at_Deps base) then False
      else \<forall>i < length (at_Deps base). \<not> at_Deps candidate ! i < at_Deps base ! i)"

text \<open>The bit set of the nonzero dependencies; \<open>uint64(1) << uint(i)\<close> is zero from bit 64 on.\<close>

fun dependencyMask_from :: "nat \<Rightarrow> InstanceNum list \<Rightarrow> u64" where
  "dependencyMask_from i [] = 0"
| "dependencyMask_from i (d # ds) =
     (if d \<noteq> 0 then push_bit i 1 else 0) OR dependencyMask_from (Suc i) ds"

definition dependencyMask :: "InstanceNum list \<Rightarrow> u64" where
  "dependencyMask deps = dependencyMask_from 0 deps"

section \<open>Accept evidence\<close>

record AcceptEvidence =
  ev_Sender :: ReplicaID
  ev_Seq :: u64
  ev_Deps :: "InstanceNum list"

text \<open>
  The inner loop of \<^verbatim>\<open>mergeAcceptEvidenceEntries\<close> for one entry: the first entry of the same
  sender is merged in place, an unseen sender is appended. The source leaves the entry
  alone when the merge changes nothing, which gives the same value.
\<close>

fun mergeEvidence :: "AcceptEvidence list \<Rightarrow> AcceptEvidence \<Rightarrow> AcceptEvidence list" where
  "mergeEvidence [] ev = [ev]"
| "mergeEvidence (e # out) ev =
     (if ev_Sender e \<noteq> ev_Sender ev then e # mergeEvidence out ev
      else
        let attrs = mergeAttrs \<lparr>at_Seq = ev_Seq e, at_Deps = ev_Deps e\<rparr> \<lparr>at_Seq = ev_Seq ev, at_Deps = ev_Deps ev\<rparr>
        in (if ev_Seq e \<noteq> at_Seq attrs \<or> \<not> instanceNumsEqual (ev_Deps e) (at_Deps attrs)
            then e\<lparr>ev_Seq := at_Seq attrs, ev_Deps := at_Deps attrs\<rparr> else e) # out)"

fun mergeAcceptEvidenceEntries :: "AcceptEvidence list \<Rightarrow> AcceptEvidence list \<Rightarrow> AcceptEvidence list" where
  "mergeAcceptEvidenceEntries dst [] = dst"
| "mergeAcceptEvidenceEntries dst (ev # src) =
     mergeAcceptEvidenceEntries (if ev_Sender ev = 0 then dst else mergeEvidence dst ev) src"

section \<open>Durable records\<close>

type_synonym ConfChangeOutcome = u8
abbreviation (input) ConfChangeOutcomeUnspecified :: ConfChangeOutcome where "ConfChangeOutcomeUnspecified \<equiv> 0"
abbreviation (input) ConfChangeApplied :: ConfChangeOutcome where "ConfChangeApplied \<equiv> 1"
abbreviation (input) ConfChangeRejectedSuperseded :: ConfChangeOutcome where "ConfChangeRejectedSuperseded \<equiv> 2"
abbreviation (input) ConfChangeRejectedInvalid :: ConfChangeOutcome where "ConfChangeRejectedInvalid \<equiv> 3"

record ConfChangeResult =
  ccr_Outcome :: ConfChangeOutcome
  ccr_Conf :: ConfState

type_synonym BootstrapOutcome = u8

record MembershipResult =
  mr_Plan :: bytes
  mr_Outcome :: BootstrapOutcome
  mr_ExitRef :: InstanceRef
  mr_CertificateDigest :: bytes
  mr_Successor :: ConfState

definition zero_conf :: ConfState where
  "zero_conf = \<lparr>conf_ID = 0, conf_Voters = []\<rparr>"

definition zero_membershipResult :: MembershipResult where
  "zero_membershipResult = \<lparr>mr_Plan = zero_digest, mr_Outcome = 0, mr_ExitRef = zero_ref,
     mr_CertificateDigest = zero_digest, mr_Successor = zero_conf\<rparr>"

record InstanceRecord =
  r_Ref :: InstanceRef
  r_Ballot :: Ballot
  r_RecordBallot :: Ballot
  r_Status :: Status
  r_Seq :: u64
  r_Deps :: "InstanceNum list"
  r_AcceptSeq :: u64
  r_AcceptDeps :: "InstanceNum list"
  r_AcceptEvidence :: "AcceptEvidence list"
  r_Kind :: EntryKind
  r_ConfChange :: ConfChange
  r_ProtocolControl :: bytes
  r_Command :: Command
  r_FastPathEligible :: bool
  r_ProcessAt :: u64
  r_TimingDomain :: TimingDomain
  r_TOQPending :: bool
  r_ConfChangeResult :: ConfChangeResult
  r_MembershipResult :: MembershipResult
  r_Checksum :: bytes

definition zero_record :: InstanceRecord where
  "zero_record = \<lparr>r_Ref = zero_ref, r_Ballot = zero_ballot, r_RecordBallot = zero_ballot, r_Status = 0,
     r_Seq = 0, r_Deps = [], r_AcceptSeq = 0, r_AcceptDeps = [], r_AcceptEvidence = [], r_Kind = 0,
     r_ConfChange = zero_confChange, r_ProtocolControl = [], r_Command = zero_command,
     r_FastPathEligible = False, r_ProcessAt = 0, r_TimingDomain = 0, r_TOQPending = False,
     r_ConfChangeResult = \<lparr>ccr_Outcome = 0, ccr_Conf = zero_conf\<rparr>,
     r_MembershipResult = zero_membershipResult, r_Checksum = zero_digest\<rparr>"

definition rec_Attributes :: "InstanceRecord \<Rightarrow> Attributes" where
  "rec_Attributes r = \<lparr>at_Seq = r_Seq r, at_Deps = r_Deps r\<rparr>"

definition rec_AcceptAttributes :: "InstanceRecord \<Rightarrow> Attributes \<times> bool" where
  "rec_AcceptAttributes r =
     (if r_AcceptSeq r = 0 \<or> length (r_AcceptDeps r) = 0 then (zero_attrs, False)
      else (\<lparr>at_Seq = r_AcceptSeq r, at_Deps = r_AcceptDeps r\<rparr>, True))"

record HardState =
  hs_Conf :: ConfState
  hs_Tick :: u64

definition hs_Empty :: "HardState \<Rightarrow> bool" where
  "hs_Empty h \<longleftrightarrow> conf_ID (hs_Conf h) = 0 \<and> length (conf_Voters (hs_Conf h)) = 0 \<and> hs_Tick h = 0"

definition hs_Equal :: "HardState \<Rightarrow> HardState \<Rightarrow> bool" where
  "hs_Equal h other =
     (if hs_Tick h \<noteq> hs_Tick other \<or> conf_ID (hs_Conf h) \<noteq> conf_ID (hs_Conf other) \<or>
         length (conf_Voters (hs_Conf h)) \<noteq> length (conf_Voters (hs_Conf other))
      then False
      else \<forall>i < length (conf_Voters (hs_Conf h)). conf_Voters (hs_Conf h) ! i = conf_Voters (hs_Conf other) ! i)"

section \<open>Messages\<close>

type_synonym MessageType = u8
abbreviation (input) MsgPreAccept :: MessageType where "MsgPreAccept \<equiv> 1"
abbreviation (input) MsgPreAcceptResp :: MessageType where "MsgPreAcceptResp \<equiv> 2"
abbreviation (input) MsgAccept :: MessageType where "MsgAccept \<equiv> 3"
abbreviation (input) MsgAcceptResp :: MessageType where "MsgAcceptResp \<equiv> 4"
abbreviation (input) MsgCommit :: MessageType where "MsgCommit \<equiv> 5"
abbreviation (input) MsgPrepare :: MessageType where "MsgPrepare \<equiv> 6"
abbreviation (input) MsgPrepareResp :: MessageType where "MsgPrepareResp \<equiv> 7"
abbreviation (input) MsgTryPreAccept :: MessageType where "MsgTryPreAccept \<equiv> 8"
abbreviation (input) MsgTryPreAcceptResp :: MessageType where "MsgTryPreAcceptResp \<equiv> 9"
abbreviation (input) MsgEvidence :: MessageType where "MsgEvidence \<equiv> 10"
abbreviation (input) MsgEvidenceResp :: MessageType where "MsgEvidenceResp \<equiv> 11"
abbreviation (input) MsgCheckpointVote :: MessageType where "MsgCheckpointVote \<equiv> 12"
abbreviation (input) MsgCheckpointCertificate :: MessageType where "MsgCheckpointCertificate \<equiv> 13"
abbreviation (input) MsgCheckpointOffer :: MessageType where "MsgCheckpointOffer \<equiv> 14"

type_synonym RejectReason = u8
abbreviation (input) RejectNone :: RejectReason where "RejectNone \<equiv> 0"
abbreviation (input) RejectStaleBallot :: RejectReason where "RejectStaleBallot \<equiv> 1"
abbreviation (input) RejectCommittedConflict :: RejectReason where "RejectCommittedConflict \<equiv> 2"
abbreviation (input) RejectUncommittedConflict :: RejectReason where "RejectUncommittedConflict \<equiv> 3"
abbreviation (input) RejectAcceptedTarget :: RejectReason where "RejectAcceptedTarget \<equiv> 4"

record Message =
  m_Type :: MessageType
  m_From :: ReplicaID
  m_To :: ReplicaID
  m_FromIncarnation :: u64
  m_ToIncarnation :: u64
  m_Ref :: InstanceRef
  m_ProcessAt :: u64
  m_TOQ :: bool
  m_Ballot :: Ballot
  m_RecordBallot :: Ballot
  m_Seq :: u64
  m_Deps :: "InstanceNum list"
  m_AcceptSeq :: u64
  m_AcceptDeps :: "InstanceNum list"
  m_AcceptEvidence :: "AcceptEvidence list"
  m_IgnoreDependency :: InstanceRef
  m_Kind :: EntryKind
  m_ConfChange :: ConfChange
  m_ProtocolControl :: bytes
  m_Command :: Command
  m_Reject :: bool
  m_RejectReason :: RejectReason
  m_RejectHint :: Ballot
  m_ConflictRef :: InstanceRef
  m_ConflictStatus :: Status
  m_FastPathEligible :: bool
  m_DepsCommitted :: u64
  m_RecordStatus :: Status
  m_Checksum :: bytes

definition zero_message :: Message where
  "zero_message = \<lparr>m_Type = 0, m_From = 0, m_To = 0, m_FromIncarnation = 0, m_ToIncarnation = 0,
     m_Ref = zero_ref, m_ProcessAt = 0, m_TOQ = False, m_Ballot = zero_ballot, m_RecordBallot = zero_ballot,
     m_Seq = 0, m_Deps = [], m_AcceptSeq = 0, m_AcceptDeps = [], m_AcceptEvidence = [],
     m_IgnoreDependency = zero_ref, m_Kind = 0, m_ConfChange = zero_confChange, m_ProtocolControl = [],
     m_Command = zero_command, m_Reject = False, m_RejectReason = 0, m_RejectHint = zero_ballot,
     m_ConflictRef = zero_ref, m_ConflictStatus = 0, m_FastPathEligible = False, m_DepsCommitted = 0,
     m_RecordStatus = 0, m_Checksum = zero_digest\<rparr>"

definition msg_Attributes :: "Message \<Rightarrow> Attributes" where
  "msg_Attributes m = \<lparr>at_Seq = m_Seq m, at_Deps = m_Deps m\<rparr>"

definition msg_AcceptAttributes :: "Message \<Rightarrow> Attributes \<times> bool" where
  "msg_AcceptAttributes m =
     (if m_AcceptSeq m = 0 \<or> length (m_AcceptDeps m) = 0 then (zero_attrs, False)
      else (\<lparr>at_Seq = m_AcceptSeq m, at_Deps = m_AcceptDeps m\<rparr>, True))"

section \<open>Attributes as a join semilattice\<close>

lemma instanceNumsEqual_iff [simp]: "instanceNumsEqual a b \<longleftrightarrow> a = b"
  by (induction a b rule: instanceNumsEqual.induct) auto

lemma attrs_Equal_iff [simp]: "attrs_Equal a b \<longleftrightarrow> a = b"
  by (auto simp: attrs_Equal_def list_eq_iff_nth_eq)

lemma hs_Equal_iff: "hs_Equal a b \<longleftrightarrow> a = b"
  by (cases a; cases b) (auto simp: hs_Equal_def intro!: ConfState.equality nth_equalityI)

text \<open>The dependency on a lane; a list that does not reach the lane has none.\<close>

definition dep_at :: "InstanceNum list \<Rightarrow> nat \<Rightarrow> InstanceNum" where
  "dep_at ds i = (if i < length ds then ds ! i else 0)"

lemma dep_at_simps [simp]: "dep_at [] i = 0" "dep_at (d # ds) 0 = d" "dep_at (d # ds) (Suc i) = dep_at ds i"
  by (simp_all add: dep_at_def)

lemma deps_eqI: "length a = length b \<Longrightarrow> (\<And>i. dep_at a i = dep_at b i) \<Longrightarrow> a = b"
  unfolding dep_at_def by (metis nth_equalityI)

lemma attrs_eqI:
  "at_Seq a = at_Seq b \<Longrightarrow> length (at_Deps a) = length (at_Deps b) \<Longrightarrow>
     (\<And>i. dep_at (at_Deps a) i = dep_at (at_Deps b) i) \<Longrightarrow> a = b"
  for a b :: Attributes
  using deps_eqI [of "at_Deps a" "at_Deps b"] by (intro Attributes.equality) simp_all

lemma word_one_le [simp]: "(1::'a::len word) \<le> x \<longleftrightarrow> x \<noteq> 0"
  by (simp add: word_le_nat_alt Suc_le_eq unat_gt_0)

lemma word_max_zero [simp]: "max 0 (x::'a::len word) = x" "max x 0 = (x::'a::len word)"
  by (simp_all add: max_def)

lemma raiseDeps_length [simp]: "length (raiseDeps ds xs) = length ds"
  by (induction ds xs rule: raiseDeps.induct) simp_all

lemma raiseDeps_at: "length xs \<le> length ds \<Longrightarrow> dep_at (raiseDeps ds xs) i = max (dep_at ds i) (dep_at xs i)"
  by (induction ds xs arbitrary: i rule: raiseDeps.induct) (auto simp: less_Suc_eq_0_disj max_def split: nat.split,
      (case_tac i; auto simp: max_def)+)

lemma growDeps_length [simp]: "length (growDeps ds n) = max (length ds) n"
  by (simp add: growDeps_def max_def)

lemma growDeps_at [simp]: "dep_at (growDeps ds n) i = dep_at ds i"
  by (simp add: growDeps_def dep_at_def nth_append)

lemma mergeAttrs_simps [simp]:
  "at_Seq (mergeAttrs a b) = max 1 (max (at_Seq a) (at_Seq b))"
  "length (at_Deps (mergeAttrs a b)) = max (length (at_Deps a)) (length (at_Deps b))"
  "dep_at (at_Deps (mergeAttrs a b)) i = max (dep_at (at_Deps a) i) (dep_at (at_Deps b) i)"
  by (simp_all add: mergeAttrs_def Let_def raiseDeps_at) (auto simp: max_def word_neq_0_conv)

lemma mergeAttrs_comm: "mergeAttrs a b = mergeAttrs b a"
  by (rule attrs_eqI) (simp_all add: max.commute)

lemma mergeAttrs_assoc: "mergeAttrs (mergeAttrs a b) c = mergeAttrs a (mergeAttrs b c)"
  by (rule attrs_eqI) (simp_all add: max.assoc max.commute max.left_commute)

lemma mergeAttrs_idem: "at_Seq a \<noteq> 0 \<Longrightarrow> mergeAttrs a a = a"
  by (rule attrs_eqI) (auto simp: max_def)

lemma attrsCover_iff:
  "attrsCover a b \<longleftrightarrow>
     at_Seq a \<le> at_Seq b \<and> length (at_Deps a) \<le> length (at_Deps b) \<and> (\<forall>i. dep_at (at_Deps a) i \<le> dep_at (at_Deps b) i)"
  by (auto simp: attrsCover_def dep_at_def not_less split: if_splits)

lemma attrsCover_refl: "attrsCover a a"
  by (simp add: attrsCover_iff)

lemma attrsCover_trans: "attrsCover a b \<Longrightarrow> attrsCover b c \<Longrightarrow> attrsCover a c"
  unfolding attrsCover_iff by (meson order_trans)

lemma attrsCover_antisym: "attrsCover a b \<Longrightarrow> attrsCover b a \<Longrightarrow> a = b"
  by (rule attrs_eqI) (auto simp: attrsCover_iff intro: antisym)

lemma mergeAttrs_cover:
  "attrsCover a (mergeAttrs a b)" "attrsCover b (mergeAttrs a b)"
  "attrsCover (mergeAttrs a b) c \<longleftrightarrow> at_Seq c \<noteq> 0 \<and> attrsCover a c \<and> attrsCover b c"
  by (auto simp: attrsCover_iff le_max_iff_disj)

lemma dependencyMask_from_bit:
  "bit (dependencyMask_from k ds) j \<longleftrightarrow> k \<le> j \<and> j < 64 \<and> dep_at ds (j - k) \<noteq> 0"
proof (induction ds arbitrary: k)
  case (Cons d ds)
  have p: "bit (2 ^ k :: u64) j \<longleftrightarrow> j = k \<and> j < 64"
    by (auto simp: bit_exp_iff)
  show ?case
  proof (cases "k < j")
    case True
    then obtain i where "j = k + Suc i" using less_imp_Suc_add by auto
    then show ?thesis using Cons p by (simp add: bit_or_iff)
  next
    case False
    then show ?thesis using Cons p by (auto simp: bit_or_iff)
  qed
qed simp

lemma dependencyMask_bit: "bit (dependencyMask ds) j \<longleftrightarrow> j < 64 \<and> dep_at ds j \<noteq> 0"
  by (simp add: dependencyMask_def dependencyMask_from_bit)

section \<open>Evidence keeps one entry per sender\<close>

lemma mergeEvidence_senders:
  "ev_Sender ` set (mergeEvidence out ev) = insert (ev_Sender ev) (ev_Sender ` set out)"
  by (induction out) (auto simp: Let_def)

lemma mergeEvidence_distinct:
  "distinct (map ev_Sender out) \<Longrightarrow> distinct (map ev_Sender (mergeEvidence out ev))"
proof (induction out)
  case (Cons e out)
  then show ?case using mergeEvidence_senders [of out ev] by (auto simp: Let_def)
qed simp

lemma mergeAcceptEvidence_senders:
  "ev_Sender ` set (mergeAcceptEvidenceEntries dst src) =
     ev_Sender ` set dst \<union> (ev_Sender ` set src - {0})"
  by (induction src arbitrary: dst) (auto simp: mergeEvidence_senders)

lemma mergeAcceptEvidence_distinct:
  "distinct (map ev_Sender dst) \<Longrightarrow> distinct (map ev_Sender (mergeAcceptEvidenceEntries dst src))"
  by (induction src arbitrary: dst) (auto simp: mergeEvidence_distinct)

end
