(* ===== verification/Parser.thy ===== *)
theory Parser
  imports Records "HOL-Library.State_Monad"
begin

text \<open>
  The byte-level half of \<^verbatim>\<open>epaxos/codec.go\<close>: the variable-length integers of Go's
  \<^verbatim>\<open>encoding/binary\<close>, which the codec calls, and the \<^verbatim>\<open>parser\<close> with its sticky error. The methods of the
  parser are computations of the state monad over its two fields; the scratch pointer of
  the source only chooses where decoded slices live, and is a flag of the decoder.
\<close>

section \<open>Variable-length integers\<close>

function appendUvarint :: "u64 \<Rightarrow> bytes" where
  "appendUvarint x = (if x \<ge> 0x80 then (ucast x OR 0x80) # appendUvarint (drop_bit 7 x) else [ucast x])"
  by pat_completeness auto

text \<open>
  \<^verbatim>\<open>binary.Uvarint\<close> returns the value and the number of bytes read; the number is zero when
  the input ends inside an integer and negative when the value does not fit 64 bits.
\<close>

fun uvarint_loop :: "nat \<Rightarrow> u64 \<Rightarrow> nat \<Rightarrow> bytes \<Rightarrow> u64 \<times> int" where
  "uvarint_loop i x s [] = (0, 0)"
| "uvarint_loop i x s (b # buf) =
     (if i = 10 then (0, - (int i + 1))
      else if b < 0x80 then
        (if i = 9 \<and> b > 1 then (0, - (int i + 1)) else (x OR push_bit s (ucast b), int i + 1))
      else uvarint_loop (Suc i) (x OR push_bit s (ucast (b AND 0x7f))) (s + 7) buf)"

definition Uvarint :: "bytes \<Rightarrow> u64 \<times> int" where
  "Uvarint buf = uvarint_loop 0 0 0 buf"

section \<open>The parser\<close>

record parser =
  p_b :: bytes
  p_err :: bool

definition p_uvarint :: "(parser, u64) state" where
  "p_uvarint = State (\<lambda>p.
     if p_err p then (0, p)
     else
       let (v, n) = Uvarint (p_b p) in
       if n \<le> 0 then (0, p\<lparr>p_err := True\<rparr>)
       else (v, p\<lparr>p_b := drop (nat n) (p_b p)\<rparr>))"

definition p_fail :: "'a \<Rightarrow> (parser, 'a) state" where
  "p_fail x = State (\<lambda>p. (x, p\<lparr>p_err := True\<rparr>))"

definition p_uvarint8 :: "(parser, u8) state" where
  "p_uvarint8 = do {
     v \<leftarrow> p_uvarint;
     if v > 255 then p_fail 0 else State_Monad.return (ucast v)
   }"

definition p_byte :: "(parser, u8) state" where
  "p_byte = State (\<lambda>p.
     case p_b p of
       [] \<Rightarrow> (0, p\<lparr>p_err := True\<rparr>)
     | v # b \<Rightarrow> (v, p\<lparr>p_b := b\<rparr>))"

text \<open>An empty result is a nil slice in the source, which the model does not tell from an empty one.\<close>

definition p_bytesBound :: "u64 \<Rightarrow> (parser, bytes) state" where
  "p_bytesBound maxLen = do {
     n \<leftarrow> p_uvarint;
     State (\<lambda>p.
       if n > maxLen \<or> unat n > length (p_b p) then ([], p\<lparr>p_err := True\<rparr>)
       else if n = 0 then ([], p)
       else (take (unat n) (p_b p), p\<lparr>p_b := drop (unat n) (p_b p)\<rparr>))
   }"

text \<open>The loops that read a known number of elements, and the ones that only skip them.\<close>

fun p_many :: "nat \<Rightarrow> (parser, 'a) state \<Rightarrow> (parser, 'a list) state" where
  "p_many 0 p = State_Monad.return []"
| "p_many (Suc n) p = do { x \<leftarrow> p; xs \<leftarrow> p_many n p; State_Monad.return (x # xs) }"

fun p_skip :: "nat \<Rightarrow> (parser, 'a) state \<Rightarrow> (parser, unit) state" where
  "p_skip 0 p = State_Monad.return ()"
| "p_skip (Suc n) p = do { _ \<leftarrow> p; p_skip n p }"

section \<open>Integers read back\<close>

termination appendUvarint
proof (relation "measure unat")
  fix x :: u64
  assume "0x80 \<le> x"
  then have "0 < unat x" by (auto simp: word_le_nat_alt)
  then have "unat x div 2 ^ 7 < unat x" by simp
  then show "(drop_bit 7 x, x) \<in> measure unat" by (simp add: drop_bit_eq_div unat_div)
qed simp

declare appendUvarint.simps [simp del]

lemma bit_0x7f: "bit (0x7f :: u8) n \<longleftrightarrow> n < 7"
proof -
  have "(0x7f :: u8) = mask 7" by (simp add: mask_eq_exp_minus_1)
  then show ?thesis by (simp only: bit_mask_iff) auto
qed

lemma bit_0x80: "bit (0x80 :: u8) n \<longleftrightarrow> n = 7"
proof -
  have "(0x80 :: u8) = 2 ^ 7" by simp
  then show ?thesis by (simp only: bit_exp_iff) auto
qed

lemma low7_bit: "bit (ucast ((ucast v OR 0x80 :: u8) AND 0x7f) :: u64) n \<longleftrightarrow> n < 7 \<and> bit v n" for v :: u64
  by (simp only: bit_unsigned_iff bit_and_iff bit_or_iff bit_0x7f bit_0x80) auto

lemma high_byte: "\<not> (ucast v OR 0x80 :: u8) < 0x80" for v :: u64
  using le_word_or1 [of "0x80 :: u8" "ucast v"] by (simp add: not_less)

lemma shift_split:
  "(x OR push_bit s (ucast ((ucast v OR 0x80 :: u8) AND 0x7f))) OR push_bit (s + 7) (drop_bit 7 v) =
     x OR push_bit s v" for x v :: u64
proof (rule bit_word_eqI)
  fix n
  have "s + 7 \<le> n \<Longrightarrow> 7 + (n - (s + 7)) = n - s" by simp
  then show "bit ((x OR push_bit s (ucast ((ucast v OR 0x80 :: u8) AND 0x7f))) OR push_bit (s + 7) (drop_bit 7 v)) n =
      bit (x OR push_bit s v) n"
    by (cases "s + 7 \<le> n") (auto simp: bit_or_iff bit_push_bit_iff low7_bit bit_drop_bit_eq)
qed

lemma small_ucast: "v < 0x80 \<Longrightarrow> (ucast (ucast v :: u8) :: u64) = v" for v :: u64
  by (simp add: word_unat_eq_iff unsigned_ucast_eq unsigned_take_bit_eq take_bit_nat_eq_self word_less_nat_alt)

lemma uvarint_loop_append:
  "unat v < 2 ^ (64 - 7 * i) \<Longrightarrow> i \<le> 9 \<Longrightarrow>
     uvarint_loop i x (7 * i) (appendUvarint v @ rest) = (x OR push_bit (7 * i) v, int (i + length (appendUvarint v)))"
proof (induction v arbitrary: i x rule: appendUvarint.induct)
  case (1 v)
  show ?case
  proof (cases "0x80 \<le> v")
    case True
    then have v: "128 \<le> unat v" by (simp add: word_le_nat_alt)
    then have "(2::nat) ^ 7 < 2 ^ (64 - 7 * i)" using 1(2) by simp
    then have "7 < 64 - 7 * i" by (rule power_less_imp_less_exp [rotated]) simp
    then have i: "i \<le> 8" and e: "64 - 7 * i = 7 + (64 - 7 * Suc i)" by simp_all
    have "unat (drop_bit 7 v) < 2 ^ (64 - 7 * Suc i)"
      using 1(2) unfolding e power_add by (simp add: drop_bit_eq_div unat_div less_mult_imp_div_less mult.commute)
    moreover have "7 * Suc i = 7 * i + 7" by simp
    ultimately have "uvarint_loop (Suc i) (x OR push_bit (7 * i) (ucast ((ucast v OR 0x80 :: u8) AND 0x7f))) (7 * i + 7)
        (appendUvarint (drop_bit 7 v) @ rest) = (x OR push_bit (7 * i) v, int (Suc i + length (appendUvarint (drop_bit 7 v))))"
      using 1(1) [OF True, of "Suc i" "x OR push_bit (7 * i) (ucast ((ucast v OR 0x80 :: u8) AND 0x7f))"] i
      by (simp only: shift_split)
    with True i high_byte [of v] show ?thesis
      by (simp add: appendUvarint.simps [of v])
  next
    case False
    then have v: "v < 0x80" by simp
    have "unat v < 2" if "i = 9" using 1(2) that by simp
    then have "\<not> ((ucast v :: u8) > 1)" if "i = 9"
      using that v by (simp add: word_less_nat_alt unsigned_ucast_eq take_bit_nat_eq_self)
    moreover have "(ucast v :: u8) < 0x80" using v by (simp add: word_less_nat_alt unsigned_ucast_eq take_bit_nat_eq_self)
    ultimately show ?thesis
      using False 1(3) small_ucast [OF v] by (auto simp: appendUvarint.simps [of v])
  qed
qed

lemma Uvarint_append: "Uvarint (appendUvarint v @ rest) = (v, int (length (appendUvarint v)))"
  using uvarint_loop_append [of v 0 0 rest] unsigned_less [of v] by (simp add: Uvarint_def)

lemma appendUvarint_nonempty [simp]: "appendUvarint v \<noteq> []"
  by (simp add: appendUvarint.simps)

section \<open>What a computation reads\<close>

text \<open>
  \<open>reads p bs v\<close>: on any input that starts with \<open>bs\<close> the computation consumes \<open>bs\<close> and returns
  \<open>v\<close> without an error. \<open>sticky p\<close>: an error stays an error.
\<close>

definition reads :: "(parser, 'a) state \<Rightarrow> bytes \<Rightarrow> 'a \<Rightarrow> bool" where
  "reads p bs v \<longleftrightarrow>
     (\<forall>rest. run_state p \<lparr>p_b = bs @ rest, p_err = False\<rparr> = (v, \<lparr>p_b = rest, p_err = False\<rparr>))"

definition sticky :: "(parser, 'a) state \<Rightarrow> bool" where
  "sticky p \<longleftrightarrow> (\<forall>s. p_err s \<longrightarrow> p_err (snd (run_state p s)))"

named_theorems reads_intros and sticky_intros

lemma reads_return [reads_intros]: "reads (State_Monad.return v) [] v"
  by (simp add: reads_def)

lemma reads_bind [reads_intros]:
  "reads p bs x \<Longrightarrow> reads (f x) cs y \<Longrightarrow> reads (p \<bind> f) (bs @ cs) y"
  by (simp add: reads_def State_Monad.bind_def)

lemma reads_bind_fun: "reads p bs x \<Longrightarrow> reads (f x) [] y \<Longrightarrow> reads (p \<bind> f) bs y"
  using reads_bind [of p bs x f "[]" y] by simp

lemma reads_if_False [reads_intros]: "\<not> c \<Longrightarrow> reads q bs v \<Longrightarrow> reads (if c then p else q) bs v"
  by simp

lemma reads_uvarint [reads_intros]: "reads p_uvarint (appendUvarint v) v"
  by (simp add: reads_def p_uvarint_def Uvarint_append)

lemma reads_uvarint8 [reads_intros]: "reads p_uvarint8 (appendUvarint (ucast v)) v"
proof -
  have "\<not> (ucast v :: u64) > 255"
    using unsigned_less [of v, where 'a = nat] by (simp add: word_less_nat_alt unsigned_ucast_eq take_bit_nat_eq_self)
  moreover have "ucast (ucast v :: u64) = v" by (rule bit_word_eqI) (simp add: bit_simps)
  ultimately show ?thesis
    unfolding p_uvarint8_def by (intro reads_bind_fun [OF reads_uvarint]) (simp add: reads_return)
qed

lemma reads_byte [reads_intros]: "reads p_byte [b] b"
  by (simp add: reads_def p_byte_def)

lemma reads_bytes [reads_intros]:
  assumes "length b < 2 ^ 64" "of_nat (length b) \<le> maxLen"
  shows "reads (p_bytesBound maxLen) (appendUvarint (of_nat (length b)) @ b) b"
proof -
  have n: "unat (of_nat (length b) :: u64) = length b"
    using assms(1) by (simp add: unat_of_nat take_bit_nat_eq_self)
  moreover have "(of_nat (length b) :: u64) = 0 \<longleftrightarrow> b = []"
    using n by (metis length_0_conv unat_0 unsigned_0 of_nat_0 word_unat_eq_iff)
  ultimately show ?thesis
    unfolding p_bytesBound_def using assms(2)
    by (intro reads_bind [OF reads_uvarint]) (auto simp: reads_def not_less)
qed

lemma reads_many [reads_intros]:
  "n = length xs \<Longrightarrow> (\<And>x. x \<in> set xs \<Longrightarrow> reads p (w x) x) \<Longrightarrow> reads (p_many n p) (concat (map w xs)) xs"
proof (induction xs arbitrary: n)
  case (Cons x xs)
  then have "reads (p_many (length xs) p \<bind> (\<lambda>xs. State_Monad.return (x # xs))) (concat (map w xs)) (x # xs)"
    by (intro reads_bind_fun [OF Cons.IH] reads_return) simp_all
  moreover have "reads p (w x) x" using Cons.prems by simp
  ultimately show ?case using Cons.prems(1) by (simp add: reads_bind)
qed (simp add: reads_return)

lemma sticky_return [sticky_intros]: "sticky (State_Monad.return v)"
  by (simp add: sticky_def)

lemma sticky_bind [sticky_intros]: "sticky p \<Longrightarrow> (\<And>x. sticky (f x)) \<Longrightarrow> sticky (p \<bind> f)"
  by (simp add: sticky_def State_Monad.bind_def case_prod_unfold)

lemma sticky_if [sticky_intros]: "sticky p \<Longrightarrow> sticky q \<Longrightarrow> sticky (if c then p else q)"
  by simp

lemma sticky_fail [sticky_intros]: "sticky (p_fail v)"
  by (simp add: sticky_def p_fail_def)

lemma sticky_uvarint [sticky_intros]: "sticky p_uvarint"
  by (simp add: sticky_def p_uvarint_def)

lemma sticky_uvarint8 [sticky_intros]: "sticky p_uvarint8"
  unfolding p_uvarint8_def by (intro sticky_intros)

lemma sticky_byte [sticky_intros]: "sticky p_byte"
  by (simp add: sticky_def p_byte_def split: list.split)

lemma sticky_bytes [sticky_intros]: "sticky (p_bytesBound n)"
  unfolding p_bytesBound_def by (intro sticky_intros) (simp add: sticky_def)

lemma sticky_many [sticky_intros]: "sticky p \<Longrightarrow> sticky (p_many n p)"
  by (induction n) (auto intro!: sticky_intros)

lemma p_many_length: "length (fst (run_state (p_many n p) s)) = n"
  by (induction n arbitrary: s) (simp_all add: State_Monad.bind_def case_prod_unfold)

lemma p_skip_many: "run_state (p_skip n p) s = ((), snd (run_state (p_many n p) s))"
  by (induction n arbitrary: s) (simp_all add: State_Monad.bind_def case_prod_unfold)

end
