(* ===== verification/Checksum.thy ===== *)
theory Checksum
  imports Records
begin

text \<open>
  \<^verbatim>\<open>epaxos/checksum.go\<close>: the checksums of records and messages. The hash is BLAKE3 from a
  third-party package; it is the parameter \<open>H\<close> from the bytes written to the hasher, in order,
  to the sum. A function of the source that writes to the hasher returns the bytes it
  writes; a checksum is \<open>H\<close> of the bytes of its parts. The hasher pool does not show: every
  hasher is reset before use.
\<close>

section \<open>Writers\<close>

definition writeByte :: "u8 \<Rightarrow> bytes" where
  "writeByte v = [v]"

text \<open>Little-endian order.\<close>

definition writeUint64 :: "u64 \<Rightarrow> bytes" where
  "writeUint64 v = map (\<lambda>i. ucast (drop_bit (8 * i) v)) [0..<8]"

definition writeBytes :: "bytes \<Rightarrow> bytes" where
  "writeBytes b = writeUint64 (of_nat (length b)) @ b"

definition writeBool :: "bool \<Rightarrow> bytes" where
  "writeBool b = (if b then writeByte 1 else writeByte 0)"

text \<open>The loops that write a count and then each element.\<close>

definition writeAll :: "('a \<Rightarrow> bytes) \<Rightarrow> 'a list \<Rightarrow> bytes" where
  "writeAll w xs = writeUint64 (of_nat (length xs)) @ concat (map w xs)"

definition writeFootprint :: "Footprint \<Rightarrow> bytes" where
  "writeFootprint f =
     writeBool (fp_All f) @
     writeAll writeBytes (fp_Points f) @
     writeAll (\<lambda>s. writeBytes (span_Start s) @ writeBytes (span_End s)) (fp_Spans f)"

definition writeCommand :: "Command \<Rightarrow> bytes" where
  "writeCommand c =
     writeUint64 (cid_Client (cmd_ID c)) @
     writeUint64 (cid_Sequence (cmd_ID c)) @
     writeBytes (cmd_Payload c) @
     writeFootprint (cmd_Footprint c) @
     writeBytes (cmd_CycleKey c)"

definition writeEntryValue :: "EntryKind \<Rightarrow> Command \<Rightarrow> ConfChange \<Rightarrow> bytes \<Rightarrow> bytes" where
  "writeEntryValue kind command change control =
     writeByte kind @
     writeByte (cc_Type change) @
     writeUint64 (cc_Replica change) @
     writeBytes control @
     writeCommand command"

definition writeLegacyCommand :: "InstanceRecord \<Rightarrow> bytes" where
  "writeLegacyCommand r =
     (let zero_id = \<lparr>cid_Client = 0, cid_Sequence = 0\<rparr>;
          (kind, i, payload, points) =
            (if r_Kind r = EntryCommand then
               (0, cmd_ID (r_Command r), cmd_Payload (r_Command r), fp_Points (cmd_Footprint (r_Command r)))
             else if r_Kind r = EntryNoop then (1, zero_id, [], [])
             else if r_Kind r = EntryConfChange then
               (2, zero_id, cc_Type (r_ConfChange r) # writeUint64 (cc_Replica (r_ConfChange r)), [])
             else if r_Kind r = EntryMembership then (3, zero_id, r_ProtocolControl r, [])
             else if r_Kind r = EntryCheckpoint then (EntryCheckpoint, zero_id, r_ProtocolControl r, [])
             else (r_Kind r, zero_id, [], []))
      in writeUint64 (cid_Client i) @ writeUint64 (cid_Sequence i) @ writeByte kind @ writeBytes payload @
         writeAll writeBytes points)"

definition writeRef :: "InstanceRef \<Rightarrow> bytes" where
  "writeRef r = writeUint64 (ref_Replica r) @ writeUint64 (ref_Instance r) @ writeUint64 (ref_Conf r)"

definition writeBallot :: "Ballot \<Rightarrow> bytes" where
  "writeBallot b = writeUint64 (bal_Epoch b) @ writeUint64 (bal_Number b) @ writeUint64 (bal_Replica b)"

definition writeEvidence :: "AcceptEvidence \<Rightarrow> bytes" where
  "writeEvidence ev = writeUint64 (ev_Sender ev) @ writeUint64 (ev_Seq ev) @ writeAll writeUint64 (ev_Deps ev)"

section \<open>Record checksums\<close>

text \<open>The bytes before the entry value, which both layouts share.\<close>

definition recordHead :: "InstanceRecord \<Rightarrow> bool \<Rightarrow> bool \<Rightarrow> bool \<Rightarrow> bytes" where
  "recordHead r includeAcceptEvidence includeRecordBallot includeSenderEvidence =
     writeRef (r_Ref r) @
     writeBallot (r_Ballot r) @
     (if includeRecordBallot then writeBallot (r_RecordBallot r) else []) @
     writeByte (r_Status r) @
     writeUint64 (r_Seq r) @
     writeAll writeUint64 (r_Deps r) @
     (if includeAcceptEvidence
      then writeUint64 (r_AcceptSeq r) @ writeAll writeUint64 (r_AcceptDeps r) else []) @
     (if includeSenderEvidence then writeAll writeEvidence (r_AcceptEvidence r) else [])"

text \<open>The bytes after the entry value, up to the configuration outcome.\<close>

definition recordTail :: "InstanceRecord \<Rightarrow> bool \<Rightarrow> bool \<Rightarrow> bool \<Rightarrow> bool \<Rightarrow> bytes" where
  "recordTail r includeFastPath includeTOQ includeConfChangeResult includeTimingDomain =
     (if includeFastPath then writeBool (r_FastPathEligible r) else []) @
     (if includeTOQ then writeUint64 (r_ProcessAt r) @ writeBool (r_TOQPending r) else []) @
     (if includeTimingDomain then writeByte (r_TimingDomain r) else []) @
     (if includeConfChangeResult
      then writeByte (ccr_Outcome (r_ConfChangeResult r)) @
           writeUint64 (conf_ID (ccr_Conf (r_ConfChangeResult r))) @
           writeAll writeUint64 (conf_Voters (ccr_Conf (r_ConfChangeResult r)))
      else [])"

definition checksumLegacyRecordLayout ::
  "(bytes \<Rightarrow> bytes) \<Rightarrow> InstanceRecord \<Rightarrow> bool \<Rightarrow> bool \<Rightarrow> bool \<Rightarrow> bool \<Rightarrow> bool \<Rightarrow> bool \<Rightarrow> bool \<Rightarrow> bytes" where
  "checksumLegacyRecordLayout H r includeFastPath includeTOQ includeAcceptEvidence includeRecordBallot
     includeSenderEvidence includeConfChangeResult includeTimingDomain =
     H (recordHead r includeAcceptEvidence includeRecordBallot includeSenderEvidence @
        writeLegacyCommand r @
        recordTail r includeFastPath includeTOQ includeConfChangeResult includeTimingDomain)"

definition checksumRecordLayout ::
  "(bytes \<Rightarrow> bytes) \<Rightarrow> InstanceRecord \<Rightarrow> bool \<Rightarrow> bool \<Rightarrow> bool \<Rightarrow> bool \<Rightarrow> bool \<Rightarrow> bool \<Rightarrow> bool \<Rightarrow> bool \<Rightarrow> bytes" where
  "checksumRecordLayout H r includeFastPath includeTOQ includeAcceptEvidence includeRecordBallot
     includeSenderEvidence includeConfChangeResult includeTimingDomain includeMembershipResult =
     H (recordHead r includeAcceptEvidence includeRecordBallot includeSenderEvidence @
        writeEntryValue (r_Kind r) (r_Command r) (r_ConfChange r) (r_ProtocolControl r) @
        recordTail r includeFastPath includeTOQ includeConfChangeResult includeTimingDomain @
        (if includeMembershipResult
         then writeBytes (mr_Plan (r_MembershipResult r)) @
              writeByte (mr_Outcome (r_MembershipResult r)) @
              writeRef (mr_ExitRef (r_MembershipResult r)) @
              writeBytes (mr_CertificateDigest (r_MembershipResult r)) @
              writeUint64 (conf_ID (mr_Successor (r_MembershipResult r))) @
              writeAll writeUint64 (conf_Voters (mr_Successor (r_MembershipResult r)))
         else []))"

definition checksumRecord ::
  "(bytes \<Rightarrow> bytes) \<Rightarrow> InstanceRecord \<Rightarrow> bool \<Rightarrow> bool \<Rightarrow> bool \<Rightarrow> bool \<Rightarrow> bool \<Rightarrow> bool \<Rightarrow> bytes" where
  "checksumRecord H r includeFastPath includeTOQ includeAcceptEvidence includeRecordBallot
     includeSenderEvidence includeConfChangeResult =
     checksumLegacyRecordLayout H r includeFastPath includeTOQ includeAcceptEvidence includeRecordBallot
       includeSenderEvidence includeConfChangeResult False"

definition ChecksumRecord :: "(bytes \<Rightarrow> bytes) \<Rightarrow> InstanceRecord \<Rightarrow> bytes" where
  "ChecksumRecord H r = checksumRecordLayout H r True True True True True True True True"

definition ChecksumRecordWithoutMembershipResult :: "(bytes \<Rightarrow> bytes) \<Rightarrow> InstanceRecord \<Rightarrow> bytes" where
  "ChecksumRecordWithoutMembershipResult H r =
     checksumLegacyRecordLayout H r True True True True True True True"

definition ChecksumRecordWithoutTimingDomain :: "(bytes \<Rightarrow> bytes) \<Rightarrow> InstanceRecord \<Rightarrow> bytes" where
  "ChecksumRecordWithoutTimingDomain H r =
     checksumLegacyRecordLayout H r True True True True True True False"

definition recordTimingInvariant :: "InstanceRecord \<Rightarrow> bool" where
  "recordTimingInvariant r =
     (if r_Kind r = EntryNoop
      then r_ProcessAt r = 0 \<and> r_TimingDomain r = TimingDomainUntimed \<and> \<not> r_TOQPending r
      else if r_TimingDomain r = TimingDomainUntimed then r_ProcessAt r = 0 \<and> \<not> r_TOQPending r
      else if r_TimingDomain r = TimingDomainLogical then r_ProcessAt r \<noteq> 0 \<and> \<not> r_TOQPending r
      else r_TimingDomain r = TimingDomainTOQ)"

definition recordChecksumInvariant :: "InstanceRecord \<Rightarrow> bool" where
  "recordChecksumInvariant r =
     (if r_Status r \<ge> StatusPreAccepted then r_RecordBallot r \<noteq> zero_ballot
      else r_RecordBallot r = zero_ballot)"

definition confChangeResultAbsent :: "InstanceRecord \<Rightarrow> bool" where
  "confChangeResultAbsent r \<longleftrightarrow>
     ccr_Outcome (r_ConfChangeResult r) = ConfChangeOutcomeUnspecified \<and>
     conf_ID (ccr_Conf (r_ConfChangeResult r)) = 0 \<and>
     length (conf_Voters (ccr_Conf (r_ConfChangeResult r))) = 0"

definition confStateIsZero :: "ConfState \<Rightarrow> bool" where
  "confStateIsZero c \<longleftrightarrow> conf_ID c = 0 \<and> length (conf_Voters c) = 0"

definition membershipResultAbsent :: "InstanceRecord \<Rightarrow> bool" where
  "membershipResultAbsent r \<longleftrightarrow>
     mr_Plan (r_MembershipResult r) = zero_digest \<and>
     mr_Outcome (r_MembershipResult r) = 0 \<and>
     ref_IsZero (mr_ExitRef (r_MembershipResult r)) \<and>
     mr_CertificateDigest (r_MembershipResult r) = zero_digest \<and>
     confStateIsZero (mr_Successor (r_MembershipResult r))"

definition acceptEvidenceAbsent :: "InstanceRecord \<Rightarrow> bool" where
  "acceptEvidenceAbsent r \<longleftrightarrow>
     r_AcceptSeq r = 0 \<and> length (r_AcceptDeps r) = 0 \<and> length (r_AcceptEvidence r) = 0"

definition verifyCanonicalRecordChecksumBytes :: "(bytes \<Rightarrow> bytes) \<Rightarrow> InstanceRecord \<Rightarrow> bool" where
  "verifyCanonicalRecordChecksumBytes H r \<longleftrightarrow> recordChecksumInvariant r \<and> r_Checksum r = ChecksumRecord H r"

definition VerifyRecordChecksum :: "(bytes \<Rightarrow> bytes) \<Rightarrow> InstanceRecord \<Rightarrow> bool" where
  "VerifyRecordChecksum H r \<longleftrightarrow> recordTimingInvariant r \<and> verifyCanonicalRecordChecksumBytes H r"

definition VerifyRecordChecksumWithoutMembershipResult :: "(bytes \<Rightarrow> bytes) \<Rightarrow> InstanceRecord \<Rightarrow> bool" where
  "VerifyRecordChecksumWithoutMembershipResult H r \<longleftrightarrow>
     membershipResultAbsent r \<and> recordTimingInvariant r \<and> recordChecksumInvariant r \<and>
     r_Checksum r = ChecksumRecordWithoutMembershipResult H r"

definition VerifyRecordChecksumWithoutTimingDomain :: "(bytes \<Rightarrow> bytes) \<Rightarrow> InstanceRecord \<Rightarrow> bool" where
  "VerifyRecordChecksumWithoutTimingDomain H r \<longleftrightarrow>
     r_TimingDomain r = TimingDomainUntimed \<and> recordChecksumInvariant r \<and>
     r_Checksum r = ChecksumRecordWithoutTimingDomain H r"

definition VerifyRecordChecksumWithoutConfChangeResult :: "(bytes \<Rightarrow> bytes) \<Rightarrow> InstanceRecord \<Rightarrow> bool" where
  "VerifyRecordChecksumWithoutConfChangeResult H r \<longleftrightarrow>
     r_TimingDomain r = TimingDomainUntimed \<and> confChangeResultAbsent r \<and> recordChecksumInvariant r \<and>
     r_Checksum r = checksumRecord H r True True True True True False"

definition VerifyRecordChecksumWithoutAcceptEvidence :: "(bytes \<Rightarrow> bytes) \<Rightarrow> InstanceRecord \<Rightarrow> bool" where
  "VerifyRecordChecksumWithoutAcceptEvidence H r \<longleftrightarrow>
     r_TimingDomain r = TimingDomainUntimed \<and> confChangeResultAbsent r \<and> r_RecordBallot r = zero_ballot \<and>
     acceptEvidenceAbsent r \<and> r_Checksum r = checksumRecord H r True True False False False False"

definition VerifyRecordChecksumWithoutSenderAcceptEvidence :: "(bytes \<Rightarrow> bytes) \<Rightarrow> InstanceRecord \<Rightarrow> bool" where
  "VerifyRecordChecksumWithoutSenderAcceptEvidence H r \<longleftrightarrow>
     r_TimingDomain r = TimingDomainUntimed \<and> confChangeResultAbsent r \<and> length (r_AcceptEvidence r) = 0 \<and>
     recordChecksumInvariant r \<and> r_Checksum r = checksumRecord H r True True True True False False"

definition VerifyRecordChecksumWithoutRecordBallot :: "(bytes \<Rightarrow> bytes) \<Rightarrow> InstanceRecord \<Rightarrow> bool" where
  "VerifyRecordChecksumWithoutRecordBallot H r \<longleftrightarrow>
     r_TimingDomain r = TimingDomainUntimed \<and> confChangeResultAbsent r \<and> r_RecordBallot r = zero_ballot \<and>
     length (r_AcceptEvidence r) = 0 \<and> r_Checksum r = checksumRecord H r True True True False False False"

definition VerifyRecordChecksumWithoutTOQ :: "(bytes \<Rightarrow> bytes) \<Rightarrow> InstanceRecord \<Rightarrow> bool" where
  "VerifyRecordChecksumWithoutTOQ H r \<longleftrightarrow>
     r_TimingDomain r = TimingDomainUntimed \<and> confChangeResultAbsent r \<and> r_RecordBallot r = zero_ballot \<and>
     acceptEvidenceAbsent r \<and> r_ProcessAt r = 0 \<and> \<not> r_TOQPending r \<and>
     r_Checksum r = checksumRecord H r True False False False False False"

definition VerifyRecordChecksumWithoutFastPathOrTOQ :: "(bytes \<Rightarrow> bytes) \<Rightarrow> InstanceRecord \<Rightarrow> bool" where
  "VerifyRecordChecksumWithoutFastPathOrTOQ H r \<longleftrightarrow>
     r_TimingDomain r = TimingDomainUntimed \<and> confChangeResultAbsent r \<and> r_RecordBallot r = zero_ballot \<and>
     acceptEvidenceAbsent r \<and> \<not> r_FastPathEligible r \<and> r_ProcessAt r = 0 \<and> \<not> r_TOQPending r \<and>
     r_Checksum r = checksumRecord H r False False False False False False"

section \<open>Message checksums\<close>

definition ChecksumMessage :: "(bytes \<Rightarrow> bytes) \<Rightarrow> Message \<Rightarrow> bytes" where
  "ChecksumMessage H m =
     H (writeByte (m_Type m) @
        writeUint64 (m_From m) @
        writeUint64 (m_To m) @
        writeUint64 (m_FromIncarnation m) @
        writeUint64 (m_ToIncarnation m) @
        writeRef (m_Ref m) @
        writeUint64 (m_ProcessAt m) @
        writeBool (m_TOQ m) @
        writeBallot (m_Ballot m) @
        writeBallot (m_RecordBallot m) @
        writeUint64 (m_Seq m) @
        writeAll writeUint64 (m_Deps m) @
        writeUint64 (m_AcceptSeq m) @
        writeAll writeUint64 (m_AcceptDeps m) @
        writeAll writeEvidence (m_AcceptEvidence m) @
        writeRef (m_IgnoreDependency m) @
        writeEntryValue (m_Kind m) (m_Command m) (m_ConfChange m) (m_ProtocolControl m) @
        writeBool (m_Reject m) @
        writeBallot (m_RejectHint m) @
        writeByte (m_RejectReason m) @
        writeRef (m_ConflictRef m) @
        writeByte (m_ConflictStatus m) @
        writeBool (m_FastPathEligible m) @
        writeUint64 (m_DepsCommitted m) @
        writeByte (m_RecordStatus m))"

definition VerifyMessageChecksum :: "(bytes \<Rightarrow> bytes) \<Rightarrow> Message \<Rightarrow> bool" where
  "VerifyMessageChecksum H m \<longleftrightarrow> m_Checksum m = ChecksumMessage H m"

section \<open>The writers are prefix codes\<close>

lemma writeUint64_length [simp]: "length (writeUint64 v) = 8"
  by (simp add: writeUint64_def)

lemma writeUint64_bit: "i < 8 \<Longrightarrow> j < 8 \<Longrightarrow> bit (writeUint64 v ! i) j = bit v (8 * i + j)"
  by (simp add: writeUint64_def bit_simps)

lemma writeUint64_inject [simp]: "writeUint64 v = writeUint64 w \<longleftrightarrow> v = w"
proof
  assume eq: "writeUint64 v = writeUint64 w"
  show "v = w"
  proof (rule bit_word_eqI)
    fix n assume "n < LENGTH(64)"
    then have "n div 8 < 8" by simp
    with writeUint64_bit [of "n div 8" "n mod 8"] eq show "bit v n = bit w n"
      by (metis mod_less_divisor mult_div_mod_eq zero_less_numeral)
  qed
qed simp

text \<open>The number of elements of a slice fits a 64-bit word.\<close>

definition sized :: "('a \<Rightarrow> bool) \<Rightarrow> 'a list \<Rightarrow> bool" where
  "sized D xs \<longleftrightarrow> length xs < 2 ^ 64 \<and> list_all D xs"

lemma of_nat_u64_inject: "m < 2 ^ 64 \<Longrightarrow> n < 2 ^ 64 \<Longrightarrow> (of_nat m :: u64) = of_nat n \<longleftrightarrow> m = n"
  by (auto simp: word_of_nat_eq_iff take_bit_nat_eq_self)

locale prefix_code =
  fixes w :: "'a \<Rightarrow> bytes" and D :: "'a \<Rightarrow> bool"
  assumes cancel: "D x \<Longrightarrow> D y \<Longrightarrow> w x @ r = w y @ s \<longleftrightarrow> x = y \<and> r = s"
begin

lemma inject: "D x \<Longrightarrow> D y \<Longrightarrow> w x = w y \<longleftrightarrow> x = y"
  using cancel [of x y "[]" "[]"] by simp

lemma concat_cancel:
  "length xs = length ys \<Longrightarrow> list_all D xs \<Longrightarrow> list_all D ys \<Longrightarrow>
     concat (map w xs) @ r = concat (map w ys) @ s \<longleftrightarrow> xs = ys \<and> r = s"
  by (induction xs ys rule: list_induct2) (simp_all add: cancel)

end

interpretation u64_code: prefix_code writeUint64 "\<lambda>_. True"
  by unfold_locales (simp add: append_eq_append_conv)

interpretation u8_code: prefix_code writeByte "\<lambda>_. True"
  by unfold_locales (simp add: writeByte_def)

interpretation bool_code: prefix_code writeBool "\<lambda>_. True"
  by unfold_locales (simp add: writeBool_def writeByte_def)

interpretation bytes_code: prefix_code writeBytes "sized (\<lambda>_. True)"
  by unfold_locales (auto simp: writeBytes_def u64_code.cancel sized_def of_nat_u64_inject)

context prefix_code
begin

lemma writeAll_cancel:
  "sized D xs \<Longrightarrow> sized D ys \<Longrightarrow> writeAll w xs @ r = writeAll w ys @ s \<longleftrightarrow> xs = ys \<and> r = s"
  by (auto simp: writeAll_def sized_def u64_code.cancel of_nat_u64_inject concat_cancel)

end

lemmas code_cancels = u64_code.cancel u8_code.cancel bool_code.cancel bytes_code.cancel
  u64_code.writeAll_cancel bytes_code.writeAll_cancel u8_code.inject

definition sized_span :: "Span \<Rightarrow> bool" where
  "sized_span s \<longleftrightarrow> sized (\<lambda>_. True) (span_Start s) \<and> sized (\<lambda>_. True) (span_End s)"

interpretation span_code: prefix_code "\<lambda>s. writeBytes (span_Start s) @ writeBytes (span_End s)" sized_span
  by unfold_locales (auto simp: sized_span_def code_cancels Span.expand)

definition sized_evidence :: "AcceptEvidence \<Rightarrow> bool" where
  "sized_evidence ev \<longleftrightarrow> sized (\<lambda>_. True) (ev_Deps ev)"

interpretation evidence_code: prefix_code writeEvidence sized_evidence
  by unfold_locales (auto simp: sized_evidence_def writeEvidence_def code_cancels)

interpretation ref_code: prefix_code writeRef "\<lambda>_. True"
  by unfold_locales (auto simp: writeRef_def code_cancels InstanceRef.expand)

interpretation ballot_code: prefix_code writeBallot "\<lambda>_. True"
  by unfold_locales (auto simp: writeBallot_def code_cancels Ballot.expand)

definition sized_command :: "Command \<Rightarrow> bool" where
  "sized_command c \<longleftrightarrow> sized (\<lambda>_. True) (cmd_Payload c) \<and> sized (\<lambda>_. True) (cmd_CycleKey c) \<and>
     sized (sized (\<lambda>_. True)) (fp_Points (cmd_Footprint c)) \<and> sized sized_span (fp_Spans (cmd_Footprint c))"

interpretation command_code: prefix_code writeCommand sized_command
  by unfold_locales (auto simp: sized_command_def writeCommand_def writeFootprint_def code_cancels
      span_code.writeAll_cancel intro!: Command.equality Footprint.equality CommandID.equality)

lemma writeEntryValue_cancel:
  "sized_command c \<Longrightarrow> sized_command c' \<Longrightarrow> sized (\<lambda>_. True) p \<Longrightarrow> sized (\<lambda>_. True) p' \<Longrightarrow>
     writeEntryValue k c cc p @ r = writeEntryValue k' c' cc' p' @ s \<longleftrightarrow>
     k = k' \<and> c = c' \<and> cc = cc' \<and> p = p' \<and> r = s"
  by (auto simp: writeEntryValue_def code_cancels command_code.cancel intro!: ConfChange.equality)

lemmas record_cancels = code_cancels ref_code.cancel ballot_code.cancel evidence_code.writeAll_cancel
  writeEntryValue_cancel

definition sized_message :: "Message \<Rightarrow> bool" where
  "sized_message m \<longleftrightarrow> sized (\<lambda>_. True) (m_Deps m) \<and> sized (\<lambda>_. True) (m_AcceptDeps m) \<and>
     sized sized_evidence (m_AcceptEvidence m) \<and> sized (\<lambda>_. True) (m_ProtocolControl m) \<and>
     sized_command (m_Command m)"

definition sized_record :: "InstanceRecord \<Rightarrow> bool" where
  "sized_record r \<longleftrightarrow> sized (\<lambda>_. True) (r_Deps r) \<and> sized (\<lambda>_. True) (r_AcceptDeps r) \<and>
     sized sized_evidence (r_AcceptEvidence r) \<and> sized (\<lambda>_. True) (r_ProtocolControl r) \<and>
     sized_command (r_Command r) \<and> sized (\<lambda>_. True) (conf_Voters (ccr_Conf (r_ConfChangeResult r))) \<and>
     sized (\<lambda>_. True) (mr_Plan (r_MembershipResult r)) \<and>
     sized (\<lambda>_. True) (mr_CertificateDigest (r_MembershipResult r)) \<and>
     sized (\<lambda>_. True) (conf_Voters (mr_Successor (r_MembershipResult r)))"

section \<open>Properties\<close>

text \<open>
  C22. The message checksum authenticates every field: whatever the hash function, two messages
  get the same bytes to hash only if they agree on everything but the stored checksum. In
  particular neither a length nor a boundary between fields can be shifted.
\<close>

theorem ChecksumMessage_authenticates:
  assumes "sized_message m" "sized_message m'"
  shows "(\<forall>H. ChecksumMessage H m = ChecksumMessage H m') \<longleftrightarrow> m\<lparr>m_Checksum := []\<rparr> = m'\<lparr>m_Checksum := []\<rparr>"
proof
  assume "\<forall>H. ChecksumMessage H m = ChecksumMessage H m'"
  then have "ChecksumMessage id m = ChecksumMessage id m'" by blast
  with assms show "m\<lparr>m_Checksum := []\<rparr> = m'\<lparr>m_Checksum := []\<rparr>"
    by (cases m; cases m') (simp add: ChecksumMessage_def sized_message_def record_cancels)
next
  assume eq: "m\<lparr>m_Checksum := []\<rparr> = m'\<lparr>m_Checksum := []\<rparr>"
  have "ChecksumMessage H (x\<lparr>m_Checksum := []\<rparr>) = ChecksumMessage H x" for H x
    by (simp add: ChecksumMessage_def)
  with eq show "\<forall>H. ChecksumMessage H m = ChecksumMessage H m'" by metis
qed

theorem ChecksumMessage_authenticates_witness:
  "\<not> (\<forall>H. ChecksumMessage H (zero_message\<lparr>m_Deps := [1]\<rparr>) = ChecksumMessage H (zero_message\<lparr>m_AcceptDeps := [1]\<rparr>))"
proof -
  have "sized_message (zero_message\<lparr>m_Deps := [1]\<rparr>)" "sized_message (zero_message\<lparr>m_AcceptDeps := [1]\<rparr>)"
    by (simp_all add: sized_message_def zero_message_def sized_def sized_command_def zero_command_def)
  from ChecksumMessage_authenticates [OF this] show ?thesis by (simp add: zero_message_def)
qed

text \<open>
  C23. The canonical record checksum authenticates every field of the record, the terminal
  membership outcome included: two records hash the same bytes only if they agree on
  everything but the stored checksum.
\<close>

theorem ChecksumRecord_authenticates:
  assumes "sized_record r" "sized_record r'"
  shows "(\<forall>H. ChecksumRecord H r = ChecksumRecord H r') \<longleftrightarrow> r\<lparr>r_Checksum := []\<rparr> = r'\<lparr>r_Checksum := []\<rparr>"
proof
  assume "\<forall>H. ChecksumRecord H r = ChecksumRecord H r'"
  then have "ChecksumRecord id r = ChecksumRecord id r'" by blast
  with assms show "r\<lparr>r_Checksum := []\<rparr> = r'\<lparr>r_Checksum := []\<rparr>"
    by (cases r; cases r') (auto simp: ChecksumRecord_def checksumRecordLayout_def recordHead_def recordTail_def
        sized_record_def record_cancels u64_code.writeAll_cancel [where r = "[]" and s = "[]", simplified]
        intro!: ConfChangeResult.equality MembershipResult.equality ConfState.equality)
next
  assume eq: "r\<lparr>r_Checksum := []\<rparr> = r'\<lparr>r_Checksum := []\<rparr>"
  have "ChecksumRecord H (x\<lparr>r_Checksum := []\<rparr>) = ChecksumRecord H x" for H x
    by (simp add: ChecksumRecord_def checksumRecordLayout_def recordHead_def recordTail_def)
  with eq show "\<forall>H. ChecksumRecord H r = ChecksumRecord H r'" by metis
qed

theorem ChecksumRecord_authenticates_witness:
  "\<not> (\<forall>H. ChecksumRecord H zero_record = ChecksumRecord H (zero_record\<lparr>r_TOQPending := True\<rparr>))"
proof -
  have "sized_record zero_record" "sized_record (zero_record\<lparr>r_TOQPending := True\<rparr>)"
    by (simp_all add: sized_record_def zero_record_def sized_def sized_command_def zero_command_def
        zero_conf_def zero_membershipResult_def zero_digest_def list_all_iff)
  from ChecksumRecord_authenticates [OF this] show ?thesis by (simp add: zero_record_def)
qed

text \<open>
  C33. The layouts kept for older records do not authenticate the fields added since: under the
  layout without the timing domain, whose comment promises every current field except that
  one, a record still verifies after its command's spans, its all-keys scope, its cycle key
  and its membership result are replaced at will, whatever the hash.
\<close>

theorem legacy_checksum_gap:
  assumes "VerifyRecordChecksumWithoutTimingDomain H r"
  shows "VerifyRecordChecksumWithoutTimingDomain H
    (r\<lparr>r_MembershipResult := mr,
       r_Command := r_Command r\<lparr>cmd_CycleKey := key,
         cmd_Footprint := cmd_Footprint (r_Command r)\<lparr>fp_Spans := spans, fp_All := b\<rparr>\<rparr>\<rparr>)"
  using assms by (simp add: VerifyRecordChecksumWithoutTimingDomain_def ChecksumRecordWithoutTimingDomain_def
      checksumLegacyRecordLayout_def recordHead_def recordTail_def writeLegacyCommand_def
      recordChecksumInvariant_def Let_def)

theorem legacy_checksum_gap_witness:
  "VerifyRecordChecksumWithoutTimingDomain (\<lambda>_. zero_digest)
    (zero_record\<lparr>r_MembershipResult := zero_membershipResult,
       r_Command := zero_command\<lparr>cmd_CycleKey := [1],
         cmd_Footprint := zero_footprint\<lparr>fp_Spans := [Span [1] [2]], fp_All := True\<rparr>\<rparr>\<rparr>)"
proof -
  have "VerifyRecordChecksumWithoutTimingDomain (\<lambda>_. zero_digest) zero_record"
    by (simp add: VerifyRecordChecksumWithoutTimingDomain_def ChecksumRecordWithoutTimingDomain_def
        checksumLegacyRecordLayout_def zero_record_def recordChecksumInvariant_def)
  from legacy_checksum_gap [OF this, where mr = zero_membershipResult and key = "[1]" and spans = "[Span [1] [2]]" and b = True] show ?thesis
    by (simp add: zero_record_def zero_command_def)
qed

end
