(* ===== verification/Codec.thy ===== *)
theory Codec
  imports Parser Checksum
begin

text \<open>
  \<^verbatim>\<open>epaxos/codec.go\<close>: the wire format of messages. \<^verbatim>\<open>EncodeMessage\<close> appends the fields in order, then
  the checksum; the decoder parses them back, with the bounds of the format, and verifies the
  checksum. \<^verbatim>\<open>decodeMessage\<close> is one function in the source; here its three consecutive parts have
  names (\<open>decodeHead\<close>, \<open>p_command\<close>, \<open>decodeTail\<close>). A failed decode resets the message, so an error
  carries none. Where the decoder takes its slices from, fresh or out of the scratch buffers,
  does not show in their values, since every element is written after it is taken; what the
  scratch changes is the scan of the whole body before it is decoded, and the bound of the arena
  the evidence is cut from.
\<close>

section \<open>Encoding\<close>

definition wireMagic :: bytes where
  "wireMagic = [77, 69, 80, 51]"

definition maxWireDeps :: nat where "maxWireDeps = 128"
definition maxWireAcceptEvidence :: nat where "maxWireAcceptEvidence = 128"
definition maxWireCommandPayload :: nat where "maxWireCommandPayload = 2 ^ 20"
definition maxWireFootprintPoints :: nat where "maxWireFootprintPoints = 128"
definition maxWireFootprintSpans :: nat where "maxWireFootprintSpans = 128"
definition maxWireFootprintBytes :: nat where "maxWireFootprintBytes = 2 ^ 20"

lemmas wire_bounds = maxWireDeps_def maxWireAcceptEvidence_def maxWireCommandPayload_def
  maxWireFootprintPoints_def maxWireFootprintSpans_def maxWireFootprintBytes_def
  maxWireCycleKeyBytes_def maxWireProtocolControl_def

definition appendBool :: "bool \<Rightarrow> bytes" where
  "appendBool b = (if b then [1] else [0])"

definition appendBytes :: "bytes \<Rightarrow> bytes" where
  "appendBytes b = appendUvarint (of_nat (length b)) @ b"

definition appendDeps :: "InstanceNum list \<Rightarrow> bytes" where
  "appendDeps ds = appendUvarint (of_nat (length ds)) @ concat (map appendUvarint ds)"

definition appendRef :: "InstanceRef \<Rightarrow> bytes" where
  "appendRef r = appendUvarint (ref_Replica r) @ appendUvarint (ref_Instance r) @ appendUvarint (ref_Conf r)"

definition appendBallot :: "Ballot \<Rightarrow> bytes" where
  "appendBallot b = appendUvarint (bal_Epoch b) @ appendUvarint (bal_Number b) @ appendUvarint (bal_Replica b)"

definition appendEvidence :: "AcceptEvidence \<Rightarrow> bytes" where
  "appendEvidence ev = appendUvarint (ev_Sender ev) @ appendUvarint (ev_Seq ev) @ appendDeps (ev_Deps ev)"

definition appendSpan :: "Span \<Rightarrow> bytes" where
  "appendSpan s = appendBytes (span_Start s) @ appendBytes (span_End s)"

definition appendCommand :: "Command \<Rightarrow> bytes" where
  "appendCommand c =
     appendUvarint (cid_Client (cmd_ID c)) @
     appendUvarint (cid_Sequence (cmd_ID c)) @
     appendBytes (cmd_Payload c) @
     appendBool (fp_All (cmd_Footprint c)) @
     appendUvarint (of_nat (length (fp_Points (cmd_Footprint c)))) @
     concat (map appendBytes (fp_Points (cmd_Footprint c))) @
     appendUvarint (of_nat (length (fp_Spans (cmd_Footprint c)))) @
     concat (map appendSpan (fp_Spans (cmd_Footprint c))) @
     appendBytes (cmd_CycleKey c)"

definition encodeHead :: "Message \<Rightarrow> bytes" where
  "encodeHead m =
     appendUvarint (ucast (m_Type m)) @
     appendUvarint (m_From m) @
     appendUvarint (m_To m) @
     appendUvarint (m_FromIncarnation m) @
     appendUvarint (m_ToIncarnation m) @
     appendRef (m_Ref m) @
     appendUvarint (m_ProcessAt m) @
     appendBool (m_TOQ m) @
     appendBallot (m_Ballot m) @
     appendBallot (m_RecordBallot m) @
     appendUvarint (m_Seq m) @
     appendDeps (m_Deps m) @
     appendUvarint (m_AcceptSeq m) @
     appendDeps (m_AcceptDeps m) @
     appendUvarint (of_nat (length (m_AcceptEvidence m))) @
     concat (map appendEvidence (m_AcceptEvidence m)) @
     appendRef (m_IgnoreDependency m) @
     appendUvarint (ucast (m_Kind m)) @
     appendUvarint (ucast (cc_Type (m_ConfChange m))) @
     appendUvarint (cc_Replica (m_ConfChange m)) @
     appendBytes (m_ProtocolControl m)"

definition encodeTail :: "Message \<Rightarrow> bytes" where
  "encodeTail m =
     appendBool (m_Reject m) @
     appendBallot (m_RejectHint m) @
     appendUvarint (ucast (m_RejectReason m)) @
     appendRef (m_ConflictRef m) @
     appendUvarint (ucast (m_ConflictStatus m)) @
     appendBool (m_FastPathEligible m) @
     appendUvarint (m_DepsCommitted m) @
     appendUvarint (ucast (m_RecordStatus m))"

definition EncodeMessage :: "(bytes \<Rightarrow> bytes) \<Rightarrow> bytes \<Rightarrow> Message \<Rightarrow> error + bytes" where
  "EncodeMessage H dst m =
     (if length (m_Deps m) > maxWireDeps \<or> length (m_AcceptDeps m) > maxWireDeps \<or>
         length (m_AcceptEvidence m) > maxWireAcceptEvidence \<or>
         length (cmd_Payload (m_Command m)) > maxWireCommandPayload \<or>
         length (cmd_CycleKey (m_Command m)) > maxWireCycleKeyBytes \<or>
         length (m_ProtocolControl m) > maxWireProtocolControl \<or>
         \<not> entryValueCanonical (m_Kind m) (m_Command m) (m_ConfChange m) (m_ProtocolControl m)
      then Inl ErrInvalidMessage
      else if \<exists>ev \<in> set (m_AcceptEvidence m). length (ev_Deps ev) > maxWireDeps then Inl ErrInvalidMessage
      else Inr (dst @ wireMagic @ encodeHead m @ appendCommand (m_Command m) @ encodeTail m @ ChecksumMessage H m))"

section \<open>Decoding\<close>

definition p_isErr :: "(parser, bool) state" where
  "p_isErr = State (\<lambda>p. (p_err p, p))"

definition p_span :: "(parser, Span) state" where
  "p_span = do {
     st \<leftarrow> p_bytesBound (of_nat maxWireFootprintBytes);
     fin \<leftarrow> p_bytesBound (of_nat maxWireFootprintBytes);
     State_Monad.return (Span st fin)
   }"

text \<open>The running total of the footprint's bytes, a \<^verbatim>\<open>uint64\<close>.\<close>

definition footprintTotal :: "bytes list \<Rightarrow> Span list \<Rightarrow> u64" where
  "footprintTotal points spans =
     fold (\<lambda>s t. t + of_nat (length (span_Start s) + length (span_End s))) spans
       (fold (\<lambda>p t. t + of_nat (length p)) points 0)"

definition p_command :: "(parser, Command) state" where
  "p_command = do {
     client \<leftarrow> p_uvarint;
     sequence \<leftarrow> p_uvarint;
     payload \<leftarrow> p_bytesBound (of_nat maxWireCommandPayload);
     all \<leftarrow> p_byte;
     let c = \<lparr>cmd_ID = \<lparr>cid_Client = client, cid_Sequence = sequence\<rparr>, cmd_Payload = payload,
              cmd_Footprint = \<lparr>fp_Points = [], fp_Spans = [], fp_All = (all = 1)\<rparr>, cmd_CycleKey = []\<rparr>;
     points \<leftarrow> p_uvarint;
     if points > of_nat maxWireFootprintPoints then p_fail c
     else do {
       pts \<leftarrow> p_many (unat points) (p_bytesBound (of_nat maxWireFootprintBytes));
       spans \<leftarrow> p_uvarint;
       if spans > of_nat maxWireFootprintSpans
       then p_fail (c\<lparr>cmd_Footprint := \<lparr>fp_Points = pts, fp_Spans = [], fp_All = (all = 1)\<rparr>\<rparr>)
       else do {
         sps \<leftarrow> p_many (unat spans) p_span;
         (if footprintTotal pts sps > of_nat maxWireFootprintBytes then p_fail () else State_Monad.return ());
         key \<leftarrow> p_bytesBound (of_nat maxWireCycleKeyBytes);
         let c' = c\<lparr>cmd_Footprint := \<lparr>fp_Points = pts, fp_Spans = sps, fp_All = (all = 1)\<rparr>, cmd_CycleKey := key\<rparr>;
         err \<leftarrow> p_isErr;
         if \<not> err \<and> \<not> commandEmpty c' \<and> \<not> footprintCanonical (cmd_Footprint c') then p_fail c'
         else State_Monad.return c'
       }
     }
   }"

text \<open>The scan of the evidence on a copy of the parser: the number of dependencies it holds.\<close>

fun scanEvidence :: "nat \<Rightarrow> nat \<Rightarrow> (parser, nat option) state" where
  "scanEvidence totalDeps 0 = State_Monad.return (Some totalDeps)"
| "scanEvidence totalDeps (Suc n) = do {
     _ \<leftarrow> p_uvarint;
     _ \<leftarrow> p_uvarint;
     deps \<leftarrow> p_uvarint;
     err \<leftarrow> p_isErr;
     if err \<or> deps > of_nat maxWireDeps then State_Monad.return None
     else do {
       p_skip (unat deps) p_uvarint;
       err' \<leftarrow> p_isErr;
       if err' then State_Monad.return None else scanEvidence (totalDeps + unat deps) n
     }
   }"

definition scanAcceptEvidence :: "parser \<Rightarrow> nat \<Rightarrow> nat option" where
  "scanAcceptEvidence p cnt = fst (run_state (scanEvidence 0 cnt) p)"

text \<open>
  The loop that decodes the evidence. \<open>arena\<close> is the length of the scratch arena when there is
  one, \<open>offset\<close> what has been cut from it.
\<close>

fun p_evidence :: "nat option \<Rightarrow> nat \<Rightarrow> nat \<Rightarrow> (parser, AcceptEvidence list option) state" where
  "p_evidence arena offset 0 = State_Monad.return (Some [])"
| "p_evidence arena offset (Suc n) = do {
     sender \<leftarrow> p_uvarint;
     seq \<leftarrow> p_uvarint;
     depsCount \<leftarrow> p_uvarint;
     err \<leftarrow> p_isErr;
     if err \<or> depsCount > of_nat maxWireDeps then State_Monad.return None
     else if (case arena of None \<Rightarrow> False | Some len \<Rightarrow> offset + unat depsCount > len)
     then State_Monad.return None
     else do {
       deps \<leftarrow> p_many (unat depsCount) p_uvarint;
       rest \<leftarrow> p_evidence arena (offset + unat depsCount) n;
       State_Monad.return (map_option ((#) \<lparr>ev_Sender = sender, ev_Seq = seq, ev_Deps = deps\<rparr>) rest)
     }
   }"

definition p_evidenceSection :: "bool \<Rightarrow> nat \<Rightarrow> (parser, AcceptEvidence list option) state" where
  "p_evidenceSection scratch cnt = do {
     evidenceDeps \<leftarrow> State (\<lambda>p. (scanAcceptEvidence p cnt, p));
     case evidenceDeps of
       None \<Rightarrow> State_Monad.return None
     | Some n \<Rightarrow> p_evidence (if scratch then Some n else None) 0 cnt
   }"

definition p_ref :: "(parser, InstanceRef) state" where
  "p_ref = do {
     replica \<leftarrow> p_uvarint;
     inst \<leftarrow> p_uvarint;
     conf \<leftarrow> p_uvarint;
     State_Monad.return (InstanceRef replica inst conf)
   }"

definition p_ballot :: "(parser, Ballot) state" where
  "p_ballot = do {
     epoch \<leftarrow> p_uvarint;
     number \<leftarrow> p_uvarint;
     replica \<leftarrow> p_uvarint;
     State_Monad.return (Ballot epoch number replica)
   }"

definition decodeHead :: "bool \<Rightarrow> (parser, Message option) state" where
  "decodeHead scratch = do {
     type \<leftarrow> p_uvarint8;
     from \<leftarrow> p_uvarint;
     to \<leftarrow> p_uvarint;
     fromIncarnation \<leftarrow> p_uvarint;
     toIncarnation \<leftarrow> p_uvarint;
     ref \<leftarrow> p_ref;
     processAt \<leftarrow> p_uvarint;
     toq \<leftarrow> p_byte;
     ballot \<leftarrow> p_ballot;
     recordBallot \<leftarrow> p_ballot;
     seq \<leftarrow> p_uvarint;
     deps \<leftarrow> p_uvarint;
     if deps > of_nat maxWireDeps then State_Monad.return None
     else do {
       ds \<leftarrow> p_many (unat deps) p_uvarint;
       acceptSeq \<leftarrow> p_uvarint;
       acceptDeps \<leftarrow> p_uvarint;
       if acceptDeps > of_nat maxWireDeps then State_Monad.return None
       else do {
         ads \<leftarrow> p_many (unat acceptDeps) p_uvarint;
         evidence \<leftarrow> p_uvarint;
         if evidence > of_nat maxWireAcceptEvidence then State_Monad.return None
         else do {
           evs \<leftarrow> p_evidenceSection scratch (unat evidence);
           case evs of
             None \<Rightarrow> State_Monad.return None
           | Some es \<Rightarrow> do {
               ignore \<leftarrow> p_ref;
               kind \<leftarrow> p_uvarint8;
               changeType \<leftarrow> p_uvarint8;
               changeReplica \<leftarrow> p_uvarint;
               control \<leftarrow> p_bytesBound (of_nat maxWireProtocolControl);
               State_Monad.return (Some (zero_message\<lparr>m_Type := type, m_From := from, m_To := to,
                 m_FromIncarnation := fromIncarnation, m_ToIncarnation := toIncarnation, m_Ref := ref,
                 m_ProcessAt := processAt, m_TOQ := (toq = 1), m_Ballot := ballot,
                 m_RecordBallot := recordBallot, m_Seq := seq, m_Deps := ds, m_AcceptSeq := acceptSeq,
                 m_AcceptDeps := ads, m_AcceptEvidence := es, m_IgnoreDependency := ignore, m_Kind := kind,
                 m_ConfChange := \<lparr>cc_Type = changeType, cc_Replica = changeReplica\<rparr>,
                 m_ProtocolControl := control\<rparr>))
             }
         }
       }
     }
   }"

definition decodeTail :: "Message \<Rightarrow> (parser, Message) state" where
  "decodeTail m = do {
     reject \<leftarrow> p_byte;
     hint \<leftarrow> p_ballot;
     reason \<leftarrow> p_uvarint8;
     conflictRef \<leftarrow> p_ref;
     conflictStatus \<leftarrow> p_uvarint8;
     fast \<leftarrow> p_byte;
     depsCommitted \<leftarrow> p_uvarint;
     recordStatus \<leftarrow> p_uvarint8;
     State_Monad.return (m\<lparr>m_Reject := (reject = 1), m_RejectHint := hint, m_RejectReason := reason,
       m_ConflictRef := conflictRef, m_ConflictStatus := conflictStatus, m_FastPathEligible := (fast = 1),
       m_DepsCommitted := depsCommitted, m_RecordStatus := recordStatus\<rparr>)
   }"

definition decodeBody :: "bool \<Rightarrow> (parser, Message option) state" where
  "decodeBody scratch = do {
     head \<leftarrow> decodeHead scratch;
     case head of
       None \<Rightarrow> State_Monad.return None
     | Some m \<Rightarrow> do {
         c \<leftarrow> p_command;
         m' \<leftarrow> decodeTail (m\<lparr>m_Command := c\<rparr>);
         State_Monad.return (Some m')
       }
   }"

definition scanCommand :: "(parser, bool) state" where
  "scanCommand = do {
     client \<leftarrow> p_uvarint;
     sequence \<leftarrow> p_uvarint;
     payload \<leftarrow> p_bytesBound (of_nat maxWireCommandPayload);
     all \<leftarrow> p_byte;
     pointCount \<leftarrow> p_uvarint;
     err \<leftarrow> p_isErr;
     if err \<or> pointCount > of_nat maxWireFootprintPoints then State_Monad.return False
     else do {
       points \<leftarrow> p_many (unat pointCount) (p_bytesBound (of_nat maxWireFootprintBytes));
       spanCount \<leftarrow> p_uvarint;
       err' \<leftarrow> p_isErr;
       if err' \<or> spanCount > of_nat maxWireFootprintSpans then State_Monad.return False
       else do {
         spans \<leftarrow> p_many (unat spanCount) p_span;
         cycleKey \<leftarrow> p_bytesBound (of_nat maxWireCycleKeyBytes);
         err'' \<leftarrow> p_isErr;
         if err'' \<or> footprintTotal points spans > of_nat maxWireFootprintBytes then State_Monad.return False
         else if client = 0 \<and> sequence = 0 \<and> length payload = 0 \<and> all \<noteq> 1 \<and> length points = 0 \<and>
                 length spans = 0 \<and> length cycleKey = 0
         then State_Monad.return True
         else State_Monad.return (footprintCanonical \<lparr>fp_Points = points, fp_Spans = spans, fp_All = (all = 1)\<rparr>)
       }
     }
   }"

text \<open>The evidence loop of \<^verbatim>\<open>scanMessageBody\<close>, which only looks at the count of each entry.\<close>

fun skipEvidence :: "nat \<Rightarrow> (parser, bool) state" where
  "skipEvidence 0 = State_Monad.return True"
| "skipEvidence (Suc n) = do {
     _ \<leftarrow> p_uvarint;
     _ \<leftarrow> p_uvarint;
     evidenceDeps \<leftarrow> p_uvarint;
     if evidenceDeps > of_nat maxWireDeps then State_Monad.return False
     else do { p_skip (unat evidenceDeps) p_uvarint; skipEvidence n }
   }"

definition scanHead :: "(parser, bool) state" where
  "scanHead = do {
     _ \<leftarrow> p_uvarint8;
     _ \<leftarrow> p_uvarint;
     _ \<leftarrow> p_uvarint;
     _ \<leftarrow> p_uvarint;
     _ \<leftarrow> p_uvarint;
     p_skip 3 p_uvarint;
     _ \<leftarrow> p_uvarint;
     _ \<leftarrow> p_byte;
     p_skip 7 p_uvarint;
     deps \<leftarrow> p_uvarint;
     if deps > of_nat maxWireDeps then State_Monad.return False
     else do {
       p_skip (unat deps) p_uvarint;
       _ \<leftarrow> p_uvarint;
       acceptDeps \<leftarrow> p_uvarint;
       if acceptDeps > of_nat maxWireDeps then State_Monad.return False
       else do {
         p_skip (unat acceptDeps) p_uvarint;
         evidence \<leftarrow> p_uvarint;
         if evidence > of_nat maxWireAcceptEvidence then State_Monad.return False
         else do {
           ok \<leftarrow> skipEvidence (unat evidence);
           if \<not> ok then State_Monad.return False
           else do {
             p_skip 3 p_uvarint;
             _ \<leftarrow> p_uvarint8;
             _ \<leftarrow> p_uvarint8;
             _ \<leftarrow> p_uvarint;
             _ \<leftarrow> p_bytesBound (of_nat maxWireProtocolControl);
             State_Monad.return True
           }
         }
       }
     }
   }"

definition scanTail :: "(parser, unit) state" where
  "scanTail = do {
     _ \<leftarrow> p_byte;
     p_skip 3 p_uvarint;
     _ \<leftarrow> p_uvarint8;
     p_skip 3 p_uvarint;
     _ \<leftarrow> p_uvarint8;
     _ \<leftarrow> p_byte;
     _ \<leftarrow> p_uvarint;
     _ \<leftarrow> p_uvarint8;
     State_Monad.return ()
   }"

definition scanMessageBody :: "parser \<Rightarrow> bool" where
  "scanMessageBody p =
     (let (ok, p1) = run_state scanHead p in
      if \<not> ok then False
      else
        let (ok', p2) = run_state scanCommand p1 in
        if \<not> ok' then False
        else
          let p3 = snd (run_state scanTail p2) in
          \<not> p_err p3 \<and> length (p_b p3) = 0)"

definition decodeMessage :: "(bytes \<Rightarrow> bytes) \<Rightarrow> bool \<Rightarrow> bytes \<Rightarrow> error + Message" where
  "decodeMessage H scratch src =
     (if length src < length wireMagic + 32 \<or> take (length wireMagic) src \<noteq> wireMagic then Inl ErrInvalidMessage
      else
        let p = \<lparr>p_b = drop (length wireMagic) (take (length src - 32) src), p_err = False\<rparr> in
        if scratch \<and> \<not> scanMessageBody p then Inl ErrInvalidMessage
        else
          case run_state (decodeBody scratch) p of
            (None, _) \<Rightarrow> Inl ErrInvalidMessage
          | (Some m, p') \<Rightarrow>
              if p_err p' \<or> length (p_b p') \<noteq> 0 then Inl ErrInvalidMessage
              else
                let m' = m\<lparr>m_Checksum := drop (length src - 32) src\<rparr> in
                if \<not> VerifyMessageChecksum H m' then Inl ErrChecksumMismatch else Inr m')"

definition DecodeMessage :: "(bytes \<Rightarrow> bytes) \<Rightarrow> bytes \<Rightarrow> error + Message" where
  "DecodeMessage H src = decodeMessage H False src"

definition DecodeMessageWithScratch :: "(bytes \<Rightarrow> bytes) \<Rightarrow> bool \<Rightarrow> bytes \<Rightarrow> error + Message" where
  "DecodeMessageWithScratch H scratch src = decodeMessage H scratch src"

section \<open>Reading what was written\<close>

text \<open>The equations by which the simplifier runs a computation on written input.\<close>

lemma run_bind: "run_state (p \<bind> f) s = (case run_state p s of (x, s') \<Rightarrow> run_state (f x) s')"
  by (simp add: State_Monad.bind_def)

lemma reads_run: "reads p bs v \<Longrightarrow> run_state p \<lparr>p_b = bs @ rest, p_err = False\<rparr> = (v, \<lparr>p_b = rest, p_err = False\<rparr>)"
  by (simp add: reads_def)

lemma run_isErr: "run_state p_isErr s = (p_err s, s)"
  by (simp add: p_isErr_def)

lemma run_if: "run_state (if c then p else q) s = (if c then run_state p s else run_state q s)"
  by simp

lemma run_appendBool:
  "run_state p_byte \<lparr>p_b = appendBool b @ rest, p_err = False\<rparr> = (if b then 1 else 0, \<lparr>p_b = rest, p_err = False\<rparr>)"
  by (simp add: appendBool_def p_byte_def)

lemma reads_appendBytes:
  "length b \<le> n \<Longrightarrow> n < 2 ^ 64 \<Longrightarrow> reads (p_bytesBound (of_nat n)) (appendBytes b) b"
  unfolding appendBytes_def
  by (rule reads_bytes) (simp_all add: word_le_nat_alt unat_of_nat take_bit_nat_eq_self)

lemma wire_bounds_u64:
  "maxWireFootprintBytes < 2 ^ 64" "maxWireCommandPayload < 2 ^ 64" "maxWireCycleKeyBytes < 2 ^ 64"
  "maxWireProtocolControl < 2 ^ 64" "maxWireDeps < 2 ^ 64" "maxWireAcceptEvidence < 2 ^ 64"
  by (simp_all add: wire_bounds)

lemmas run_rules = run_bind run_isErr run_appendBool
  reads_run [OF reads_uvarint] reads_run [OF reads_uvarint8] reads_run [OF reads_appendBytes]

lemma reads_ref: "reads p_ref (appendRef r) r"
  by (simp add: reads_def p_ref_def appendRef_def run_rules)

lemma reads_ballot: "reads p_ballot (appendBallot b) b"
  by (simp add: reads_def p_ballot_def appendBallot_def run_rules)

lemma reads_span:
  "length (span_Start s) \<le> maxWireFootprintBytes \<Longrightarrow> length (span_End s) \<le> maxWireFootprintBytes \<Longrightarrow>
     reads p_span (appendSpan s) s"
  using wire_bounds_u64 unfolding reads_def p_span_def appendSpan_def by (simp add: run_rules)

lemma unat_of_nat_le: "n \<le> k \<Longrightarrow> k < 2 ^ 64 \<Longrightarrow> unat (of_nat n :: u64) = n \<and> \<not> of_nat k < (of_nat n :: u64)"
  by (simp add: unat_of_nat take_bit_nat_eq_self not_less word_le_nat_alt)

definition footprint_bytes :: "Footprint \<Rightarrow> nat" where
  "footprint_bytes f = sum_list (map length (fp_Points f)) +
     sum_list (map (\<lambda>s. length (span_Start s) + length (span_End s)) (fp_Spans f))"

text \<open>What the decoder demands of a footprint; the encoder demands only that it is canonical.\<close>

definition wire_limits :: "Command \<Rightarrow> bool" where
  "wire_limits c \<longleftrightarrow> length (fp_Points (cmd_Footprint c)) \<le> maxWireFootprintPoints \<and>
     length (fp_Spans (cmd_Footprint c)) \<le> maxWireFootprintSpans \<and>
     footprint_bytes (cmd_Footprint c) \<le> maxWireFootprintBytes"

lemma footprintTotal_sum: "footprintTotal ps ss = of_nat (footprint_bytes \<lparr>fp_Points = ps, fp_Spans = ss, fp_All = b\<rparr>)"
proof -
  have "fold (\<lambda>p t. t + of_nat (length p)) ps x = x + of_nat (sum_list (map length ps))" for x :: u64
    by (induction ps arbitrary: x) (simp_all add: add.assoc)
  moreover have "fold (\<lambda>s t. t + of_nat (length (span_Start s) + length (span_End s))) ss x =
      x + of_nat (sum_list (map (\<lambda>s. length (span_Start s) + length (span_End s)) ss))" for x :: u64
    by (induction ss arbitrary: x) (simp_all add: add.assoc)
  ultimately show ?thesis by (simp add: footprintTotal_def footprint_bytes_def)
qed

lemma footprint_bytes_member:
  "p \<in> set (fp_Points f) \<Longrightarrow> length p \<le> footprint_bytes f"
  "s \<in> set (fp_Spans f) \<Longrightarrow> length (span_Start s) \<le> footprint_bytes f"
  "s \<in> set (fp_Spans f) \<Longrightarrow> length (span_End s) \<le> footprint_bytes f"
proof -
  show "length p \<le> footprint_bytes f" if "p \<in> set (fp_Points f)"
    using member_le_sum_list [of "length p" "map length (fp_Points f)"] that by (simp add: footprint_bytes_def)
  have "length (span_Start s) + length (span_End s) \<le> footprint_bytes f" if "s \<in> set (fp_Spans f)"
    using member_le_sum_list [of "length (span_Start s) + length (span_End s)"
        "map (\<lambda>s. length (span_Start s) + length (span_End s)) (fp_Spans f)"] that
    by (auto simp: footprint_bytes_def)
  then show "s \<in> set (fp_Spans f) \<Longrightarrow> length (span_Start s) \<le> footprint_bytes f"
    "s \<in> set (fp_Spans f) \<Longrightarrow> length (span_End s) \<le> footprint_bytes f" by simp_all
qed

lemma reads_command:
  assumes "length (cmd_Payload c) \<le> maxWireCommandPayload" "length (cmd_CycleKey c) \<le> maxWireCycleKeyBytes"
    "wire_limits c" "commandEmpty c \<or> footprintCanonical (cmd_Footprint c)"
  shows "reads p_command (appendCommand c) c"
proof -
  obtain ps ss al where f: "cmd_Footprint c = \<lparr>fp_Points = ps, fp_Spans = ss, fp_All = al\<rparr>"
    by (cases "cmd_Footprint c") blast
  note lim = assms(3) [unfolded wire_limits_def f, simplified]
  have pts: "unat (of_nat (length ps) :: u64) = length ps" "\<not> of_nat maxWireFootprintPoints < (of_nat (length ps) :: u64)"
    and sps: "unat (of_nat (length ss) :: u64) = length ss" "\<not> of_nat maxWireFootprintSpans < (of_nat (length ss) :: u64)"
    and tot: "\<not> of_nat maxWireFootprintBytes < footprintTotal ps ss"
    using lim unat_of_nat_le [of "length ps" maxWireFootprintPoints] unat_of_nat_le [of "length ss" maxWireFootprintSpans]
      unat_of_nat_le [of "footprint_bytes \<lparr>fp_Points = ps, fp_Spans = ss, fp_All = al\<rparr>" maxWireFootprintBytes]
    by (auto simp: wire_bounds footprintTotal_sum [where b = al])
  have "reads (p_many (length ps) (p_bytesBound (of_nat maxWireFootprintBytes))) (concat (map appendBytes ps)) ps"
    using footprint_bytes_member(1) [of _ "cmd_Footprint c"] lim wire_bounds_u64
    by (intro reads_many reads_appendBytes) (auto simp: f intro: order_trans)
  moreover have "reads (p_many (length ss) p_span) (concat (map appendSpan ss)) ss"
    using footprint_bytes_member(2,3) [of _ "cmd_Footprint c"] lim
    by (intro reads_many reads_span) (auto simp: f intro: order_trans)
  ultimately show ?thesis
    unfolding reads_def p_command_def appendCommand_def Let_def f
    using assms(1,2,4) f wire_bounds_u64
    by (simp add: run_rules run_if pts sps tot reads_run del: if_split)
      (auto simp: commandEmpty_def)
qed

lemma evidence_count:
  "length (ev_Deps ev) \<le> maxWireDeps \<Longrightarrow> unat (of_nat (length (ev_Deps ev)) :: u64) = length (ev_Deps ev) \<and>
     \<not> of_nat maxWireDeps < (of_nat (length (ev_Deps ev)) :: u64)"
  using wire_bounds_u64 by (intro unat_of_nat_le) simp_all

lemma reads_deps: "reads (p_many (length ds) p_uvarint) (concat (map appendUvarint ds)) ds"
  by (intro reads_many refl reads_uvarint)

lemma run_skip_deps:
  "run_state (p_skip (length ds) p_uvarint) \<lparr>p_b = concat (map appendUvarint ds) @ rest, p_err = False\<rparr> =
     ((), \<lparr>p_b = rest, p_err = False\<rparr>)"
  using reads_deps [of ds] by (simp add: p_skip_many reads_def)

lemma run_scanEvidence:
  "\<forall>ev \<in> set evs. length (ev_Deps ev) \<le> maxWireDeps \<Longrightarrow>
     fst (run_state (scanEvidence t (length evs)) \<lparr>p_b = concat (map appendEvidence evs) @ rest, p_err = False\<rparr>) =
       Some (t + sum_list (map (\<lambda>ev. length (ev_Deps ev)) evs))"
proof (induction evs arbitrary: t)
  case (Cons ev evs)
  then show ?case
    using evidence_count [of ev]
    by (simp add: run_rules run_if run_skip_deps appendEvidence_def appendDeps_def add.assoc)
qed simp

lemma run_p_evidence:
  "\<forall>ev \<in> set evs. length (ev_Deps ev) \<le> maxWireDeps \<Longrightarrow>
   (case arena of None \<Rightarrow> True | Some len \<Rightarrow> off + sum_list (map (\<lambda>ev. length (ev_Deps ev)) evs) \<le> len) \<Longrightarrow>
     run_state (p_evidence arena off (length evs)) \<lparr>p_b = concat (map appendEvidence evs) @ rest, p_err = False\<rparr> =
       (Some evs, \<lparr>p_b = rest, p_err = False\<rparr>)"
proof (induction evs arbitrary: off)
  case (Cons ev evs)
  then show ?case
    using evidence_count [of ev]
    by (simp add: run_rules run_if reads_run [OF reads_deps] appendEvidence_def appendDeps_def add.assoc
        split: option.splits)
qed simp

lemma reads_evidenceSection:
  "\<forall>ev \<in> set evs. length (ev_Deps ev) \<le> maxWireDeps \<Longrightarrow>
     reads (p_evidenceSection scratch (length evs)) (concat (map appendEvidence evs)) (Some evs)"
  by (simp add: reads_def p_evidenceSection_def run_rules scanAcceptEvidence_def run_scanEvidence run_p_evidence)

lemma reads_head:
  assumes "length (m_Deps m) \<le> maxWireDeps" "length (m_AcceptDeps m) \<le> maxWireDeps"
    "length (m_AcceptEvidence m) \<le> maxWireAcceptEvidence" "length (m_ProtocolControl m) \<le> maxWireProtocolControl"
    "\<forall>ev \<in> set (m_AcceptEvidence m). length (ev_Deps ev) \<le> maxWireDeps"
  shows "reads (decodeHead scratch) (encodeHead m) (Some (zero_message\<lparr>m_Type := m_Type m, m_From := m_From m,
    m_To := m_To m, m_FromIncarnation := m_FromIncarnation m, m_ToIncarnation := m_ToIncarnation m,
    m_Ref := m_Ref m, m_ProcessAt := m_ProcessAt m, m_TOQ := m_TOQ m, m_Ballot := m_Ballot m,
    m_RecordBallot := m_RecordBallot m, m_Seq := m_Seq m, m_Deps := m_Deps m, m_AcceptSeq := m_AcceptSeq m,
    m_AcceptDeps := m_AcceptDeps m, m_AcceptEvidence := m_AcceptEvidence m,
    m_IgnoreDependency := m_IgnoreDependency m, m_Kind := m_Kind m, m_ConfChange := m_ConfChange m,
    m_ProtocolControl := m_ProtocolControl m\<rparr>))"
proof -
  note counts = unat_of_nat_le [OF assms(1)] unat_of_nat_le [OF assms(2)] unat_of_nat_le [OF assms(3)]
  show ?thesis
    unfolding reads_def decodeHead_def encodeHead_def appendDeps_def
    using assms counts wire_bounds_u64
    by (simp add: run_rules run_if reads_run [OF reads_ref] reads_run [OF reads_ballot] reads_run [OF reads_deps]
        reads_run [OF reads_evidenceSection])
qed

lemma reads_tail:
  "reads (decodeTail m') (encodeTail m) (m'\<lparr>m_Reject := m_Reject m, m_RejectHint := m_RejectHint m,
     m_RejectReason := m_RejectReason m, m_ConflictRef := m_ConflictRef m, m_ConflictStatus := m_ConflictStatus m,
     m_FastPathEligible := m_FastPathEligible m, m_DepsCommitted := m_DepsCommitted m,
     m_RecordStatus := m_RecordStatus m\<rparr>)"
  unfolding reads_def decodeTail_def encodeTail_def
  by (simp add: run_rules reads_run [OF reads_ref] reads_run [OF reads_ballot])

section \<open>What a decoded command satisfies\<close>

text \<open>
  \<open>yields p Q\<close>: every result of the computation satisfies \<open>Q\<close>. \<open>ensures p P\<close>: every result without an
  error does. \<open>follows p bs v\<close>: on input that starts with \<open>bs\<close> there is an error or the computation
  consumes \<open>bs\<close> and returns \<open>v\<close>.
\<close>

definition yields :: "(parser, 'a) state \<Rightarrow> ('a \<Rightarrow> bool) \<Rightarrow> bool" where
  "yields p Q \<longleftrightarrow> (\<forall>s. Q (fst (run_state p s)))"

definition ensures :: "(parser, 'a) state \<Rightarrow> ('a \<Rightarrow> bool) \<Rightarrow> bool" where
  "ensures p P \<longleftrightarrow> (\<forall>s. \<not> p_err (snd (run_state p s)) \<longrightarrow> P (fst (run_state p s)))"

definition follows :: "(parser, 'a) state \<Rightarrow> bytes \<Rightarrow> 'a \<Rightarrow> bool" where
  "follows p bs v \<longleftrightarrow> (\<forall>rest. p_err (snd (run_state p \<lparr>p_b = bs @ rest, p_err = False\<rparr>)) \<or>
     run_state p \<lparr>p_b = bs @ rest, p_err = False\<rparr> = (v, \<lparr>p_b = rest, p_err = False\<rparr>))"

lemma ensures_bind: "yields p Q \<Longrightarrow> (\<And>x. Q x \<Longrightarrow> ensures (f x) P) \<Longrightarrow> ensures (p \<bind> f) P"
  by (simp add: yields_def ensures_def run_bind case_prod_unfold)

lemma ensures_skip: "(\<And>x. ensures (f x) P) \<Longrightarrow> ensures (p \<bind> f) P"
  by (simp add: ensures_def run_bind case_prod_unfold)

lemma ensures_fail: "ensures (p_fail x) P"
  by (simp add: ensures_def p_fail_def)

lemma ensures_return: "P x \<Longrightarrow> ensures (State_Monad.return x) P"
  by (simp add: ensures_def)

lemma ensures_if: "(c \<Longrightarrow> ensures p P) \<Longrightarrow> (\<not> c \<Longrightarrow> ensures q P) \<Longrightarrow> ensures (if c then p else q) P"
  by simp

lemma ensures_check:
  "sticky (f ()) \<Longrightarrow> (\<not> c \<Longrightarrow> ensures (f ()) P) \<Longrightarrow>
     ensures ((if c then p_fail () else State_Monad.return ()) \<bind> f) P"
  by (auto simp: ensures_def run_bind p_fail_def sticky_def)

lemma ensures_isErr: "sticky (f True) \<Longrightarrow> ensures (f False) P \<Longrightarrow> ensures (p_isErr \<bind> f) P"
  unfolding ensures_def sticky_def by (auto simp: run_bind run_isErr) (metis (full_types))

lemma yields_bytes: "yields (p_bytesBound n) (\<lambda>b. length b \<le> unat n)"
  by (auto simp: yields_def p_bytesBound_def run_bind case_prod_unfold not_less word_le_nat_alt)

lemma yields_many: "yields p Q \<Longrightarrow> yields (p_many n p) (\<lambda>xs. length xs = n \<and> list_all Q xs)"
proof (induction n)
  case (Suc n)
  then show ?case by (simp add: yields_def run_bind case_prod_unfold)
qed (simp add: yields_def)

lemma yields_span: "yields p_span (\<lambda>s. length (span_Start s) \<le> maxWireFootprintBytes \<and> length (span_End s) \<le> maxWireFootprintBytes)"
proof -
  have "unat (of_nat maxWireFootprintBytes :: u64) = maxWireFootprintBytes" by (simp add: wire_bounds)
  then show ?thesis
    using yields_bytes [of "of_nat maxWireFootprintBytes"]
    by (simp add: yields_def p_span_def run_bind case_prod_unfold)
qed

lemma sticky_span [sticky_intros]: "sticky p_span"
  unfolding p_span_def by (intro sticky_intros)

lemma sticky_isErr [sticky_intros]: "sticky p_isErr"
  by (simp add: sticky_def run_isErr)

lemma sticky_ref [sticky_intros]: "sticky p_ref" and sticky_ballot [sticky_intros]: "sticky p_ballot"
  unfolding p_ref_def p_ballot_def by (intro sticky_intros)+

lemma sticky_tail [sticky_intros]: "sticky (decodeTail m)"
  unfolding decodeTail_def by (intro sticky_intros)

text \<open>A sum of few small numbers does not wrap.\<close>

lemma sum_list_bounded: "list_all (\<lambda>x. f x \<le> k) xs \<Longrightarrow> sum_list (map f xs) \<le> length xs * (k::nat)"
  by (induction xs) auto

lemma footprint_bytes_bounded:
  assumes "length ps \<le> 128" "length ss \<le> 128" "list_all (\<lambda>b. length b \<le> maxWireFootprintBytes) ps"
    "list_all (\<lambda>s. length (span_Start s) \<le> maxWireFootprintBytes \<and> length (span_End s) \<le> maxWireFootprintBytes) ss"
    "\<not> of_nat maxWireFootprintBytes < footprintTotal ps ss"
  shows "footprint_bytes \<lparr>fp_Points = ps, fp_Spans = ss, fp_All = b\<rparr> \<le> maxWireFootprintBytes"
proof -
  let ?n = "footprint_bytes \<lparr>fp_Points = ps, fp_Spans = ss, fp_All = b\<rparr>"
  have "sum_list (map length ps) \<le> 128 * maxWireFootprintBytes"
    using sum_list_bounded [OF assms(3)] assms(1) by (meson order_trans mult_le_mono1)
  moreover have "list_all (\<lambda>s. length (span_Start s) + length (span_End s) \<le> 2 * maxWireFootprintBytes) ss"
    using assms(4) by (auto simp: list_all_iff)
  then have "sum_list (map (\<lambda>s. length (span_Start s) + length (span_End s)) ss) \<le> 128 * (2 * maxWireFootprintBytes)"
    using sum_list_bounded [of "\<lambda>s. length (span_Start s) + length (span_End s)"] assms(2)
    by (meson order_trans mult_le_mono1)
  ultimately have "?n < 2 ^ 64" by (simp add: footprint_bytes_def wire_bounds)
  then show ?thesis
    using assms(5) by (simp add: footprintTotal_sum [where b = b] not_less word_le_nat_alt unat_of_nat
        take_bit_nat_eq_self wire_bounds)
qed

definition command_ok :: "Command \<Rightarrow> bool" where
  "command_ok c \<longleftrightarrow> length (cmd_Payload c) \<le> maxWireCommandPayload \<and> length (cmd_CycleKey c) \<le> maxWireCycleKeyBytes \<and>
     wire_limits c \<and> (commandEmpty c \<or> footprintCanonical (cmd_Footprint c))"

lemma unat_of_bounds:
  "unat (of_nat maxWireFootprintBytes :: u64) = maxWireFootprintBytes" "unat (of_nat maxWireCommandPayload :: u64) = maxWireCommandPayload"
  "unat (of_nat maxWireCycleKeyBytes :: u64) = maxWireCycleKeyBytes" "unat (of_nat maxWireProtocolControl :: u64) = maxWireProtocolControl"
  "unat (of_nat maxWireDeps :: u64) = 128" "unat (of_nat maxWireAcceptEvidence :: u64) = 128"
  "unat (of_nat maxWireFootprintPoints :: u64) = 128" "unat (of_nat maxWireFootprintSpans :: u64) = 128"
  by (simp_all add: wire_bounds)

lemma ensures_command: "ensures p_command command_ok"
proof -
  have le: "unat x \<le> 128" if "\<not> of_nat maxWireFootprintPoints < x" for x :: u64
    using that by (simp add: not_less word_le_nat_alt wire_bounds)
  have le': "unat x \<le> 128" if "\<not> of_nat maxWireFootprintSpans < x" for x :: u64
    using that by (simp add: not_less word_le_nat_alt wire_bounds)
  show ?thesis
    unfolding p_command_def Let_def
    apply (rule ensures_skip, rule ensures_skip, rule ensures_bind [OF yields_bytes], rule ensures_skip, rule ensures_skip)
    apply (rule ensures_if [OF ensures_fail], rule ensures_bind [OF yields_many [OF yields_bytes]], rule ensures_skip)
    apply (rule ensures_if [OF ensures_fail], rule ensures_bind [OF yields_many [OF yields_span]])
    apply (rule ensures_check)
     apply (intro sticky_intros)
    apply (rule ensures_bind [OF yields_bytes])
    apply (rule ensures_isErr)
     apply (intro sticky_intros)
    apply (rule ensures_if [OF ensures_fail], rule ensures_return)
    using le le' footprint_bytes_bounded
    by (auto simp: command_ok_def wire_limits_def unat_of_bounds wire_bounds(4,5))
qed

section \<open>Commands beyond the limits\<close>

lemma follows_reads: "reads p bs v \<Longrightarrow> follows p bs v"
  by (simp add: follows_def reads_def)

lemma follows_bind:
  "follows p bs x \<Longrightarrow> follows (f x) cs y \<Longrightarrow> (\<And>z. sticky (f z)) \<Longrightarrow> follows (p \<bind> f) (bs @ cs) y"
  unfolding follows_def sticky_def run_bind case_prod_unfold by (metis append_assoc fst_conv snd_conv)

lemma follows_bind_Nil: "follows p [] x \<Longrightarrow> follows (f x) cs y \<Longrightarrow> (\<And>z. sticky (f z)) \<Longrightarrow> follows (p \<bind> f) cs y"
  using follows_bind [of p "[]" x f cs y] by simp

lemma follows_bind_last: "follows p bs x \<Longrightarrow> follows (f x) [] y \<Longrightarrow> (\<And>z. sticky (f z)) \<Longrightarrow> follows (p \<bind> f) bs y"
  using follows_bind [of p bs x f "[]" y] by simp

lemma follows_return: "v = w \<Longrightarrow> follows (State_Monad.return v) [] w"
  by (simp add: follows_def)

lemma follows_fail: "follows (p_fail x) bs v"
  by (simp add: follows_def p_fail_def)

lemma follows_if: "follows p bs v \<Longrightarrow> follows q bs v \<Longrightarrow> follows (if c then p else q) bs v"
  by simp

lemma follows_bytes: "length b < 2 ^ 64 \<Longrightarrow> follows (p_bytesBound n) (appendBytes b) b"
proof (cases "of_nat (length b) \<le> n")
  case False
  then show ?thesis
    by (simp add: follows_def p_bytesBound_def appendBytes_def run_rules not_le)
qed (simp add: follows_reads reads_bytes appendBytes_def)

lemma follows_many:
  "n = length xs \<Longrightarrow> (\<And>x. x \<in> set xs \<Longrightarrow> follows p (w x) x) \<Longrightarrow> sticky p \<Longrightarrow>
     follows (p_many n p) (concat (map w xs)) xs"
proof (induction xs arbitrary: n)
  case (Cons x xs)
  have "follows (p_many (length xs) p) (concat (map w xs)) xs"
    using Cons by simp
  then have "follows (p_many (length xs) p \<bind> (\<lambda>xs. State_Monad.return (x # xs))) (concat (map w xs)) (x # xs)"
    by (rule follows_bind_last) (intro follows_reads reads_return sticky_intros)+
  moreover have "follows p (w x) x" "sticky p" using Cons.prems by simp_all
  ultimately have "follows (p \<bind> (\<lambda>x. p_many (length xs) p \<bind> (\<lambda>xs. State_Monad.return (x # xs))))
      (w x @ concat (map w xs)) (x # xs)"
    by (intro follows_bind [of p "w x" x] sticky_intros)
  then show ?case using Cons.prems by simp
qed (simp add: follows_reads reads_return)

lemma follows_span:
  assumes "sized_span s"
  shows "follows p_span (appendSpan s) s"
proof -
  have "length (span_Start s) < 2 ^ 64" "length (span_End s) < 2 ^ 64"
    using assms by (simp_all add: sized_span_def sized_def)
  note b = follows_bytes [OF this(1)] follows_bytes [OF this(2)]
  have "follows (State_Monad.return (Span (span_Start s) (span_End s))) [] s"
    by (simp add: follows_reads reads_return)
  then show ?thesis
    unfolding p_span_def appendSpan_def
    by (rule follows_bind [OF b(1) follows_bind_last [OF b(2)]]) (intro sticky_intros)+
qed

lemma follows_command:
  assumes "sized_command c"
  shows "follows p_command (appendCommand c) c"
proof -
  define ps ss al where f: "ps = fp_Points (cmd_Footprint c)" "ss = fp_Spans (cmd_Footprint c)" "al = fp_All (cmd_Footprint c)"
  have n: "unat (of_nat (length ps) :: u64) = length ps" "unat (of_nat (length ss) :: u64) = length ss"
    and sz: "length (cmd_Payload c) < 2 ^ 64" "length (cmd_CycleKey c) < 2 ^ 64"
      "\<And>b. b \<in> set ps \<Longrightarrow> length b < 2 ^ 64" "\<And>s. s \<in> set ss \<Longrightarrow> sized_span s"
    using assms by (auto simp: sized_command_def sized_def f list_all_iff unat_of_nat take_bit_nat_eq_self)
  have pts: "follows (p_many (unat (of_nat (length ps) :: u64)) (p_bytesBound k)) (concat (map appendBytes ps)) ps" for k
    using n sz by (intro follows_many follows_bytes sticky_intros) simp_all
  have sps: "follows (p_many (unat (of_nat (length ss) :: u64)) p_span) (concat (map appendSpan ss)) ss"
    using n sz by (intro follows_many follows_span sticky_intros) simp_all
  note u = follows_reads [OF reads_uvarint] and b = follows_bytes [OF sz(1)] follows_bytes [OF sz(2)]
  have bool: "follows p_byte (appendBool al) (if al then 1 else 0)"
    by (rule follows_reads) (simp add: reads_def run_appendBool)
  have al: "((if al then 1 else 0 :: u8) = 1) = al" by simp
  have e: "follows p_isErr [] False" by (simp add: follows_def run_isErr)
  show ?thesis
    unfolding p_command_def appendCommand_def Let_def f [symmetric]
    apply (rule follows_bind [OF u], rule follows_bind [OF u], rule follows_bind [OF b(1)], rule follows_bind [OF bool])
        apply (rule follows_bind [OF u], rule follows_if [OF follows_fail])
         apply (rule follows_bind [OF pts], rule follows_bind [OF u], rule follows_if [OF follows_fail])
           apply (rule follows_bind [OF sps], rule follows_bind_Nil [where x = "()"])
              apply (intro follows_if follows_fail follows_reads reads_return)
             apply (rule follows_bind_last [OF b(2)], rule follows_bind_Nil [OF e], rule follows_if [OF follows_fail])
               apply (rule follows_return, simp only: al, simp add: f)
              apply (intro sticky_intros)+
    done
qed

text \<open>
  On an encoded command the parser returns the command when it is within the limits and fails
  otherwise.
\<close>

lemma command_beyond_limits:
  assumes "sized_command c" "\<not> wire_limits c"
  shows "p_err (snd (run_state p_command \<lparr>p_b = appendCommand c @ rest, p_err = False\<rparr>))"
  using follows_command [OF assms(1)] ensures_command assms(2)
  unfolding follows_def ensures_def command_ok_def by (metis fst_conv snd_conv parser.select_convs(2))

section \<open>Whole messages\<close>

definition encodable :: "Message \<Rightarrow> bool" where
  "encodable m \<longleftrightarrow> length (m_Deps m) \<le> maxWireDeps \<and> length (m_AcceptDeps m) \<le> maxWireDeps \<and>
     length (m_AcceptEvidence m) \<le> maxWireAcceptEvidence \<and>
     (\<forall>ev \<in> set (m_AcceptEvidence m). length (ev_Deps ev) \<le> maxWireDeps) \<and>
     length (cmd_Payload (m_Command m)) \<le> maxWireCommandPayload \<and>
     length (cmd_CycleKey (m_Command m)) \<le> maxWireCycleKeyBytes \<and>
     length (m_ProtocolControl m) \<le> maxWireProtocolControl \<and>
     entryValueCanonical (m_Kind m) (m_Command m) (m_ConfChange m) (m_ProtocolControl m)"

lemma EncodeMessage_eq:
  "EncodeMessage H dst m =
     (if encodable m
      then Inr (dst @ wireMagic @ encodeHead m @ appendCommand (m_Command m) @ encodeTail m @ ChecksumMessage H m)
      else Inl ErrInvalidMessage)"
  by (auto simp: EncodeMessage_def encodable_def not_less [symmetric])

lemma entryValue_command:
  "entryValueCanonical k c cc p \<Longrightarrow> commandEmpty c \<or> footprintCanonical (cmd_Footprint c)"
  by (auto simp: entryValueCanonical_def Let_def split: if_splits)

lemma run_body_encoded:
  assumes "encodable m"
  shows "wire_limits (m_Command m) \<Longrightarrow>
      run_state (decodeBody scratch) \<lparr>p_b = encodeHead m @ appendCommand (m_Command m) @ encodeTail m, p_err = False\<rparr> =
        (Some (m\<lparr>m_Checksum := zero_digest\<rparr>), \<lparr>p_b = [], p_err = False\<rparr>)"
    "sized_command (m_Command m) \<Longrightarrow> \<not> wire_limits (m_Command m) \<Longrightarrow>
      p_err (snd (run_state (decodeBody scratch)
        \<lparr>p_b = encodeHead m @ appendCommand (m_Command m) @ encodeTail m, p_err = False\<rparr>))"
proof -
  note en = assms [unfolded encodable_def]
  have "length (m_Deps m) \<le> maxWireDeps" "length (m_AcceptDeps m) \<le> maxWireDeps"
    "length (m_AcceptEvidence m) \<le> maxWireAcceptEvidence" "length (m_ProtocolControl m) \<le> maxWireProtocolControl"
    "\<forall>ev \<in> set (m_AcceptEvidence m). length (ev_Deps ev) \<le> maxWireDeps" using en by blast+
  note head = reads_run [OF reads_head [OF this]]
  have tail: "run_state (decodeTail m') \<lparr>p_b = encodeTail m, p_err = False\<rparr> =
      (m'\<lparr>m_Reject := m_Reject m, m_RejectHint := m_RejectHint m,
     m_RejectReason := m_RejectReason m, m_ConflictRef := m_ConflictRef m, m_ConflictStatus := m_ConflictStatus m,
     m_FastPathEligible := m_FastPathEligible m, m_DepsCommitted := m_DepsCommitted m,
     m_RecordStatus := m_RecordStatus m\<rparr>, \<lparr>p_b = [], p_err = False\<rparr>)" for m'
    using reads_run [OF reads_tail [of m' m], of "[]"] by simp
  show "run_state (decodeBody scratch) \<lparr>p_b = encodeHead m @ appendCommand (m_Command m) @ encodeTail m, p_err = False\<rparr> =
        (Some (m\<lparr>m_Checksum := zero_digest\<rparr>), \<lparr>p_b = [], p_err = False\<rparr>)" if "wire_limits (m_Command m)"
  proof -
    have "commandEmpty (m_Command m) \<or> footprintCanonical (cmd_Footprint (m_Command m))"
      using en entryValue_command by blast
    then have c: "reads p_command (appendCommand (m_Command m)) (m_Command m)"
      using en that by (intro reads_command) blast+
    show ?thesis
      unfolding decodeBody_def run_bind head option.case prod.case reads_run [OF c] tail run_state_return
      by (simp add: zero_message_def)
  qed
  show "p_err (snd (run_state (decodeBody scratch)
        \<lparr>p_b = encodeHead m @ appendCommand (m_Command m) @ encodeTail m, p_err = False\<rparr>))"
    if "sized_command (m_Command m)" "\<not> wire_limits (m_Command m)"
  proof -
    have "sticky (decodeTail (x\<lparr>m_Command := c\<rparr>) \<bind> (\<lambda>m'. State_Monad.return (Some m')))" for x c
      by (intro sticky_intros)
    with command_beyond_limits [OF that, of "encodeTail m"] show ?thesis
      unfolding decodeBody_def run_bind head option.case prod.case sticky_def
      by (simp add: run_bind case_prod_unfold)
  qed
qed

lemma wire_parts:
  assumes "length c = 32" "w = h @ x @ c"
  shows "drop (length h) (take (length w - 32) w) = x" "drop (length w - 32) w = c" "take (length h) w = h"
    "\<not> length w < length h + 32"
  using assms by simp_all

lemma decodeMessage_encoded:
  assumes "encodable m" "sized_command (m_Command m)" "length (ChecksumMessage H m) = 32"
  shows "decodeMessage H False (wireMagic @ encodeHead m @ appendCommand (m_Command m) @ encodeTail m @ ChecksumMessage H m) =
    (if wire_limits (m_Command m) then Inr (m\<lparr>m_Checksum := ChecksumMessage H m\<rparr>) else Inl ErrInvalidMessage)"
proof -
  let ?body = "encodeHead m @ appendCommand (m_Command m) @ encodeTail m"
  let ?w = "wireMagic @ encodeHead m @ appendCommand (m_Command m) @ encodeTail m @ ChecksumMessage H m"
  have parts: "drop (length wireMagic) (take (length ?w - 32) ?w) = ?body" "drop (length ?w - 32) ?w = ChecksumMessage H m"
    "take (length wireMagic) ?w = wireMagic" "\<not> length ?w < length wireMagic + 32"
    by (rule wire_parts [OF assms(3)], simp)+
  have ck: "ChecksumMessage H (m\<lparr>m_Checksum := x\<rparr>) = ChecksumMessage H m" for x
    by (simp add: ChecksumMessage_def)
  show ?thesis
  proof (cases "wire_limits (m_Command m)")
    case True
    then show ?thesis
      unfolding decodeMessage_def parts Let_def run_body_encoded(1) [OF assms(1) True]
      by (simp add: VerifyMessageChecksum_def ck parts(4) del: length_append)
  next
    case False
    then show ?thesis
      using run_body_encoded(2) [OF assms(1,2) False, of False]
      unfolding decodeMessage_def parts Let_def by (auto split: prod.splits option.splits)
  qed
qed

section \<open>Decoding through the scratch buffers\<close>

lemma scanEvidence_ge: "fst (run_state (scanEvidence t n) s) = Some k \<Longrightarrow> t \<le> k"
proof (induction n arbitrary: t s)
  case (Suc n)
  then show ?case by (fastforce simp: run_bind run_if run_isErr case_prod_unfold split: if_splits)
qed simp

lemma arena_suffices:
  "fst (run_state (scanEvidence off n) s) = Some k \<Longrightarrow>
     run_state (p_evidence (Some k) off n) s = run_state (p_evidence None off n) s"
proof (induction n arbitrary: off s)
  case (Suc n)
  define s1 where "s1 = snd (run_state p_uvarint (snd (run_state p_uvarint s)))"
  obtain d s2 where d: "run_state p_uvarint s1 = (d, s2)" by fastforce
  define s3 where "s3 = snd (run_state (p_many (unat d) p_uvarint) s2)"
  show ?case
  proof (cases "p_err s2 \<or> of_nat maxWireDeps < d")
    case True
    with Suc.prems d show ?thesis
      by (simp add: run_bind run_if run_isErr case_prod_unfold s1_def)
  next
    case False
    with Suc.prems d have "fst (run_state (scanEvidence (off + unat d) n) s3) = Some k"
      by (simp add: run_bind run_if run_isErr case_prod_unfold s1_def s3_def p_skip_many split: if_splits)
    with Suc.IH scanEvidence_ge
    have "run_state (p_evidence (Some k) (off + unat d) n) s3 = run_state (p_evidence None (off + unat d) n) s3"
      "off + unat d \<le> k" by blast+
    with False d show ?thesis
      by (simp add: run_bind run_if run_isErr case_prod_unfold s1_def s3_def)
  qed
qed simp

lemma evidenceSection_scratch: "p_evidenceSection scratch n = p_evidenceSection False n"
  by (rule state_ext)
    (simp add: p_evidenceSection_def run_bind scanAcceptEvidence_def arena_suffices split: option.split)

lemma decodeBody_scratch: "decodeBody scratch = decodeBody False"
  unfolding decodeBody_def decodeHead_def evidenceSection_scratch [of scratch] ..

lemma skipEvidence_mirror:
  "run_state (p_evidence None off n) s = (Some es, s') \<Longrightarrow> run_state (skipEvidence n) s = (True, s')"
proof (induction n arbitrary: off s es)
  case (Suc n)
  define s1 where "s1 = snd (run_state p_uvarint (snd (run_state p_uvarint s)))"
  obtain d s2 where d: "run_state p_uvarint s1 = (d, s2)" by fastforce
  define s3 where "s3 = snd (run_state (p_many (unat d) p_uvarint) s2)"
  have ok: "\<not> (p_err s2 \<or> of_nat maxWireDeps < d)"
    using Suc.prems d by (auto simp: run_bind run_if run_isErr case_prod_unfold s1_def split: if_splits)
  then obtain es' where "run_state (p_evidence None (off + unat d) n) s3 = (Some es', s')"
    using Suc.prems d by (auto simp: run_bind run_if run_isErr case_prod_unfold s1_def s3_def prod_eq_iff)
  from Suc.IH [OF this] ok d show ?case
    by (simp add: run_bind run_if case_prod_unfold s1_def s3_def p_skip_many)
qed simp

lemma evidenceSection_mirror:
  "run_state (p_evidenceSection False n) s = (Some es, s') \<Longrightarrow> run_state (skipEvidence n) s = (True, s')"
  by (auto simp: p_evidenceSection_def run_bind intro: skipEvidence_mirror split: option.splits)

text \<open>\<open>mirrors p q\<close>: when the decoder gets through, the scan does, and leaves the same input.\<close>

definition mirrors :: "(parser, 'a option) state \<Rightarrow> (parser, bool) state \<Rightarrow> bool" where
  "mirrors p q \<longleftrightarrow> (\<forall>s x s'. run_state p s = (Some x, s') \<longrightarrow> run_state q s = (True, s'))"

lemma mirrors_return: "mirrors (State_Monad.return None) q" "mirrors (State_Monad.return (Some x)) (State_Monad.return True)"
  by (simp_all add: mirrors_def)

lemma mirrors_bind: "(\<And>x. mirrors (f x) (g x)) \<Longrightarrow> mirrors (p \<bind> f) (p \<bind> g)"
  by (simp add: mirrors_def run_bind case_prod_unfold)

lemma mirrors_if: "(\<not> c \<Longrightarrow> mirrors p q) \<Longrightarrow>
    mirrors (if c then State_Monad.return None else p) (if c then State_Monad.return False else q)"
  by (simp add: mirrors_return)

lemma mirrors_skip:
  "(\<And>s. snd (run_state p s) = snd (run_state q s)) \<Longrightarrow> (\<And>x y. mirrors (f x) (g y)) \<Longrightarrow> mirrors (p \<bind> f) (q \<bind> g)"
  by (simp add: mirrors_def run_bind case_prod_unfold)

lemma mirrors_skip3:
  "(\<And>s. snd (run_state p3 (snd (run_state p2 (snd (run_state p1 s))))) = snd (run_state q s)) \<Longrightarrow>
     (\<And>x y z u. mirrors (f x y z) (g u)) \<Longrightarrow>
     mirrors (p1 \<bind> (\<lambda>x. p2 \<bind> (\<lambda>y. p3 \<bind> f x y))) (q \<bind> g)"
  by (simp add: mirrors_def run_bind case_prod_unfold)

lemma mirrors_evidence:
  "(\<And>es. mirrors (f es) q) \<Longrightarrow>
     mirrors (p_evidenceSection False n \<bind> (\<lambda>evs. case evs of None \<Rightarrow> State_Monad.return None | Some es \<Rightarrow> f es))
       (skipEvidence n \<bind> (\<lambda>ok. if \<not> ok then State_Monad.return False else q))"
  unfolding mirrors_def
  by (auto simp: run_bind split: prod.splits option.splits) (metis evidenceSection_mirror prod.inject)+

lemma skip_states:
  "snd (run_state (p_many n p) s) = snd (run_state (p_skip n p) s)"
  "snd (run_state p_ref s) = snd (run_state (p_skip 3 p_uvarint) s)"
  "snd (run_state p_ballot s) = snd (run_state (p_skip 3 p_uvarint) s)"
  "snd (run_state p_uvarint (snd (run_state p_ballot (snd (run_state p_ballot s))))) =
     snd (run_state (p_skip 7 p_uvarint) s)"
  by (simp_all add: p_skip_many p_ref_def p_ballot_def run_bind case_prod_unfold eval_nat_numeral)

lemma head_mirror: "mirrors (decodeHead False) scanHead"
  unfolding decodeHead_def scanHead_def
  by (rule mirrors_bind mirrors_if mirrors_evidence mirrors_return mirrors_skip3 [OF skip_states(4)]
      mirrors_skip [OF skip_states(1)] mirrors_skip [OF skip_states(2)])+

lemma tail_mirror: "snd (run_state (decodeTail m) s) = snd (run_state scanTail s)"
  by (simp add: decodeTail_def scanTail_def run_bind case_prod_unfold skip_states)

lemma sticky_run: "sticky p \<Longrightarrow> run_state p s = (x, s') \<Longrightarrow> \<not> p_err s' \<Longrightarrow> \<not> p_err s"
  by (metis sticky_def snd_conv)

lemma command_mirror:
  assumes "run_state p_command s = (c, s')" "\<not> p_err s'"
  shows "run_state scanCommand s = (True, s')"
proof -
  obtain x1 s1 where 1: "run_state p_uvarint s = (x1, s1)" by fastforce
  obtain x2 s2 where 2: "run_state p_uvarint s1 = (x2, s2)" by fastforce
  obtain x3 s3 where 3: "run_state (p_bytesBound (of_nat maxWireCommandPayload)) s2 = (x3, s3)" by fastforce
  obtain x4 s4 where 4: "run_state p_byte s3 = (x4, s4)" by fastforce
  obtain n s5 where 5: "run_state p_uvarint s4 = (n, s5)" by fastforce
  obtain ps s6 where 6: "run_state (p_many (unat n) (p_bytesBound (of_nat maxWireFootprintBytes))) s5 = (ps, s6)" by fastforce
  obtain k s7 where 7: "run_state p_uvarint s6 = (k, s7)" by fastforce
  obtain ss s8 where 8: "run_state (p_many (unat k) p_span) s7 = (ss, s8)" by fastforce
  note runs = run_bind 1 2 3 4 5 6 7 8 prod.case run_if
  note run = assms [unfolded p_command_def Let_def runs]
  have nk: "\<not> of_nat maxWireFootprintPoints < n" "\<not> of_nat maxWireFootprintSpans < k"
    using run by (auto simp: p_fail_def split: if_splits)
  have t: "\<not> of_nat maxWireFootprintBytes < footprintTotal ps ss"
  proof
    assume *: "of_nat maxWireFootprintBytes < footprintTotal ps ss"
    obtain key e where e: "run_state (p_bytesBound (of_nat maxWireCycleKeyBytes)) (s8\<lparr>p_err := True\<rparr>) = (key, e)"
      by fastforce
    then have "p_err e" using sticky_run [OF sticky_bytes e] by auto
    with run * nk e show False by (auto simp: p_fail_def run_isErr)
  qed
  obtain key s9 where 9: "run_state (p_bytesBound (of_nat maxWireCycleKeyBytes)) s8 = (key, s9)" by fastforce
  have ok: "s9 = s'" "\<not> p_err s8" "commandEmpty \<lparr>cmd_ID = \<lparr>cid_Client = x1, cid_Sequence = x2\<rparr>, cmd_Payload = x3,
         cmd_Footprint = \<lparr>fp_Points = ps, fp_Spans = ss, fp_All = (x4 = 1)\<rparr>, cmd_CycleKey = key\<rparr> \<or>
       footprintCanonical \<lparr>fp_Points = ps, fp_Spans = ss, fp_All = (x4 = 1)\<rparr>"
    using run t nk sticky_run [OF sticky_bytes 9] by (auto simp: 9 run_isErr p_fail_def split: if_splits)
  have "\<not> p_err s7" using sticky_run [OF _ 8 ok(2)] by (simp add: sticky_intros)
  moreover from sticky_run [OF sticky_uvarint 7 this] have "\<not> p_err s5"
    using sticky_run [OF _ 6] by (simp add: sticky_intros)
  ultimately show ?thesis
    using nk t ok assms(2) unfolding scanCommand_def runs
    by (auto simp: run_isErr 6 7 8 9 commandEmpty_def)
qed

lemma body_scanned:
  assumes "run_state (decodeBody False) s = (Some m, s')" "\<not> p_err s'" "p_b s' = []"
  shows "scanMessageBody s"
proof -
  obtain h s1 where h: "run_state (decodeHead False) s = (Some h, s1)"
    using assms(1) by (auto simp: decodeBody_def run_bind split: prod.splits option.splits)
  obtain c s2 where c: "run_state p_command s1 = (c, s2)" by fastforce
  have tail: "snd (run_state (decodeTail (h\<lparr>m_Command := c\<rparr>)) s2) = s'"
    using assms(1) by (auto simp: decodeBody_def run_bind h c split: prod.splits)
  then have "\<not> p_err s2" using sticky_tail assms(2) unfolding sticky_def by metis
  then have "run_state scanCommand s1 = (True, s2)" using command_mirror [OF c] by blast
  moreover have "run_state scanHead s = (True, s1)" using head_mirror h unfolding mirrors_def by blast
  ultimately show ?thesis
    using tail assms(2,3) by (simp add: scanMessageBody_def tail_mirror)
qed

definition message_ok :: "Message \<Rightarrow> bool" where
  "message_ok m \<longleftrightarrow> length (m_Deps m) \<le> maxWireDeps \<and> length (m_AcceptDeps m) \<le> maxWireDeps \<and>
     length (m_AcceptEvidence m) \<le> maxWireAcceptEvidence \<and>
     (\<forall>ev \<in> set (m_AcceptEvidence m). length (ev_Deps ev) \<le> maxWireDeps) \<and>
     length (m_ProtocolControl m) \<le> maxWireProtocolControl \<and> command_ok (m_Command m)"

lemma yields_bind: "yields p Q \<Longrightarrow> (\<And>x. Q x \<Longrightarrow> yields (f x) P) \<Longrightarrow> yields (p \<bind> f) P"
  by (simp add: yields_def run_bind case_prod_unfold)

lemma yields_skip: "(\<And>x. yields (f x) P) \<Longrightarrow> yields (p \<bind> f) P"
  by (simp add: yields_def run_bind case_prod_unfold)

lemma yields_if: "(c \<Longrightarrow> yields p P) \<Longrightarrow> (\<not> c \<Longrightarrow> yields q P) \<Longrightarrow> yields (if c then p else q) P"
  by simp

lemma yields_return: "P x \<Longrightarrow> yields (State_Monad.return x) P"
  by (simp add: yields_def)

lemma yields_option:
  "(r = None \<Longrightarrow> yields p P) \<Longrightarrow> (\<And>x. r = Some x \<Longrightarrow> yields (f x) P) \<Longrightarrow>
     yields (case r of None \<Rightarrow> p | Some x \<Rightarrow> f x) P"
  by (cases r) simp_all

lemma yields_many_length: "yields (p_many n p) (\<lambda>xs. length xs = n)"
  by (simp add: yields_def p_many_length)

lemma count_le: "\<not> of_nat maxWireDeps < d \<Longrightarrow> unat d \<le> maxWireDeps"
  "\<not> of_nat maxWireAcceptEvidence < d \<Longrightarrow> unat d \<le> maxWireAcceptEvidence" for d :: u64
  by (simp_all add: not_less word_le_nat_alt wire_bounds)

lemma yields_evidence:
  "yields (p_evidence None off n) (\<lambda>r. \<forall>es. r = Some es \<longrightarrow>
     length es = n \<and> (\<forall>ev \<in> set es. length (ev_Deps ev) \<le> maxWireDeps))"
proof (induction n arbitrary: off)
  case (Suc n)
  show ?case
    unfolding p_evidence.simps
    by (rule yields_bind [OF yields_many_length] yields_bind [OF Suc.IH] yields_skip yields_if yields_return
        | simp; fail)+ (auto simp: count_le)
qed (simp add: yields_def)

lemma yields_evidenceSection:
  "yields (p_evidenceSection False n) (\<lambda>r. \<forall>es. r = Some es \<longrightarrow>
     length es = n \<and> (\<forall>ev \<in> set es. length (ev_Deps ev) \<le> maxWireDeps))"
  using yields_evidence [of 0 n] by (auto simp: yields_def p_evidenceSection_def run_bind split: option.splits)

lemma yields_head:
  "yields (decodeHead False) (\<lambda>r. \<forall>m. r = Some m \<longrightarrow>
     length (m_Deps m) \<le> maxWireDeps \<and> length (m_AcceptDeps m) \<le> maxWireDeps \<and>
     length (m_AcceptEvidence m) \<le> maxWireAcceptEvidence \<and>
     (\<forall>ev \<in> set (m_AcceptEvidence m). length (ev_Deps ev) \<le> maxWireDeps) \<and>
     length (m_ProtocolControl m) \<le> maxWireProtocolControl)"
  unfolding decodeHead_def
  by (rule yields_bind [OF yields_many_length] yields_bind [OF yields_evidenceSection] yields_bind [OF yields_bytes]
      yields_skip yields_if yields_option yields_return | simp; fail)+
    (auto simp: count_le unat_of_bounds)

lemma decoded_ok:
  assumes "decodeMessage H scratch src = Inr m"
  shows "message_ok m" "VerifyMessageChecksum H m"
proof -
  let ?p = "\<lparr>p_b = drop (length wireMagic) (take (length src - 32) src), p_err = False\<rparr>"
  obtain m0 s' where body: "run_state (decodeBody False) ?p = (Some m0, s')" "\<not> p_err s'"
    and m: "m = m0\<lparr>m_Checksum := drop (length src - 32) src\<rparr>"
    and "VerifyMessageChecksum H m"
    using assms by (auto simp: decodeMessage_def Let_def decodeBody_scratch [of scratch] split: if_splits prod.splits option.splits)
  then show "VerifyMessageChecksum H m" by simp
  obtain h s1 where h: "run_state (decodeHead False) ?p = (Some h, s1)"
    using body(1) by (auto simp: decodeBody_def run_bind split: prod.splits option.splits)
  obtain c s2 where c: "run_state p_command s1 = (c, s2)" by fastforce
  have tail: "run_state (decodeTail (h\<lparr>m_Command := c\<rparr>)) s2 = (m0, s')"
    using body(1) by (auto simp: decodeBody_def run_bind h c split: prod.splits)
  have "\<not> p_err s2" using sticky_run [OF sticky_tail tail body(2)] .
  with ensures_command c have "command_ok c" unfolding ensures_def by (metis fst_conv snd_conv)
  moreover have "m_Command m0 = c" "m_Deps m0 = m_Deps h" "m_AcceptDeps m0 = m_AcceptDeps h"
      "m_AcceptEvidence m0 = m_AcceptEvidence h" "m_ProtocolControl m0 = m_ProtocolControl h"
    using tail by (auto simp: decodeTail_def run_bind case_prod_unfold)
  moreover have "\<forall>m. Some h = Some m \<longrightarrow>
     length (m_Deps m) \<le> maxWireDeps \<and> length (m_AcceptDeps m) \<le> maxWireDeps \<and>
     length (m_AcceptEvidence m) \<le> maxWireAcceptEvidence \<and>
     (\<forall>ev \<in> set (m_AcceptEvidence m). length (ev_Deps ev) \<le> maxWireDeps) \<and>
     length (m_ProtocolControl m) \<le> maxWireProtocolControl"
    using yields_head [unfolded yields_def, rule_format, of ?p] unfolding h fst_conv by blast
  ultimately show "message_ok m" unfolding message_ok_def m by simp
qed

lemma wire_limits_sized:
  assumes "command_ok c"
  shows "sized_command c"
proof -
  have le: "n < 2 ^ 64" if "n \<le> maxWireFootprintBytes \<or> n \<le> maxWireCommandPayload \<or> n \<le> maxWireCycleKeyBytes \<or>
      n \<le> maxWireFootprintPoints \<or> n \<le> maxWireFootprintSpans" for n
    using that by (auto simp: wire_bounds)
  have w: "footprint_bytes (cmd_Footprint c) \<le> maxWireFootprintBytes"
    using assms by (simp add: command_ok_def wire_limits_def)
  have "sized (\<lambda>_. True) p" if "p \<in> set (fp_Points (cmd_Footprint c))" for p
    using footprint_bytes_member(1) [OF that] w by (simp add: sized_def wire_bounds list_all_iff)
  moreover have "sized_span x" if "x \<in> set (fp_Spans (cmd_Footprint c))" for x
    using footprint_bytes_member(2,3) [OF that] w by (simp add: sized_def sized_span_def wire_bounds list_all_iff)
  ultimately show ?thesis
    using assms le unfolding command_ok_def wire_limits_def sized_command_def
    by (simp add: sized_def [of _ "cmd_Payload c"] sized_def [of _ "cmd_CycleKey c"] sized_def [of _ "fp_Points (cmd_Footprint c)"]
        sized_def [of _ "fp_Spans (cmd_Footprint c)"] list_all_iff)
qed

section \<open>Properties\<close>



text \<open>
  C26. Decoding through scratch buffers is equivalent to decoding without them, on every input
  and for every hash: the scan of the whole body that comes first rejects nothing the decoder
  accepts, the arena it sizes is never too small, and the errors are the same.
\<close>

theorem decode_scratch_equivalent:
  "DecodeMessageWithScratch H scratch src = DecodeMessage H src"
proof -
  have "scanMessageBody p" if "run_state (decodeBody False) p = (Some m, p')" "\<not> p_err p'" "length (p_b p') = 0" for p m p'
    using body_scanned [OF that(1,2)] that(3) by simp
  then show ?thesis
    unfolding DecodeMessageWithScratch_def DecodeMessage_def decodeMessage_def decodeBody_scratch [of scratch] Let_def
    by (auto split: prod.splits option.splits)
qed

text \<open>
  C25. A message that decodes has a valid checksum and respects every bound of the format, its
  footprint is canonical or its command empty; so if its entry value is canonical it can be
  encoded again, and that encoding decodes to the same message.
\<close>

theorem decoded_messages_valid:
  assumes "DecodeMessage H src = Inr m"
  shows "VerifyMessageChecksum H m \<and> message_ok m \<and>
    (entryValueCanonical (m_Kind m) (m_Command m) (m_ConfChange m) (m_ProtocolControl m) \<and> length (m_Checksum m) = 32 \<longrightarrow>
      (\<exists>bs. EncodeMessage H [] m = Inr bs \<and> DecodeMessage H bs = Inr m))"
proof -
  have ok: "VerifyMessageChecksum H m" "message_ok m"
    using decoded_ok [of H False src m] assms by (simp_all add: DecodeMessage_def)
  moreover have "\<exists>bs. EncodeMessage H [] m = Inr bs \<and> DecodeMessage H bs = Inr m"
    if "entryValueCanonical (m_Kind m) (m_Command m) (m_ConfChange m) (m_ProtocolControl m)" "length (m_Checksum m) = 32"
  proof -
    have en: "encodable m" and "wire_limits (m_Command m)"
      using ok(2) that by (auto simp: message_ok_def command_ok_def encodable_def)
    moreover have "sized_command (m_Command m)" using ok(2) wire_limits_sized by (simp add: message_ok_def)
    moreover have "ChecksumMessage H m = m_Checksum m" using ok(1) by (simp add: VerifyMessageChecksum_def)
    moreover from this have "m\<lparr>m_Checksum := ChecksumMessage H m\<rparr> = m" by simp
    ultimately show ?thesis
      using decodeMessage_encoded [of m H] that(2) by (simp add: EncodeMessage_eq DecodeMessage_def)
  qed
  ultimately show ?thesis by blast
qed

theorem decoded_messages_valid_witness:
  "\<exists>bs. DecodeMessage (\<lambda>_. zero_digest) bs = Inr zero_message \<and>
     VerifyMessageChecksum (\<lambda>_. zero_digest) zero_message \<and>
     (\<exists>bs'. EncodeMessage (\<lambda>_. zero_digest) [] zero_message = Inr bs' \<and> DecodeMessage (\<lambda>_. zero_digest) bs' = Inr zero_message)"
proof -
  let ?H = "\<lambda>_. zero_digest"
  let ?m = zero_message
  let ?bs = "wireMagic @ encodeHead ?m @ appendCommand (m_Command ?m) @ encodeTail ?m @ ChecksumMessage ?H ?m"
  have "encodable ?m" "length (ChecksumMessage ?H ?m) = 32" "sized_command (m_Command ?m)" "wire_limits (m_Command ?m)"
    by (simp_all add: ChecksumMessage_def zero_digest_def sized_command_def sized_def zero_message_def zero_command_def
        wire_limits_def footprint_bytes_def encodable_def wire_bounds entryValueCanonical_def commandEmpty_def)
  moreover have "?m\<lparr>m_Checksum := ChecksumMessage ?H ?m\<rparr> = ?m" by (simp add: zero_message_def ChecksumMessage_def)
  ultimately have "DecodeMessage ?H ?bs = Inr ?m"
    using decodeMessage_encoded [of ?m ?H] by (simp add: DecodeMessage_def)
  from this decoded_messages_valid [OF this] show ?thesis
    by (auto simp: zero_message_def zero_command_def entryValueCanonical_def commandEmpty_def zero_digest_def)
qed

end
