(* ===== verification/Quorum.thy ===== *)
theory Quorum
  imports Ids
begin

text \<open>
  \<^verbatim>\<open>epaxos/quorum.go\<close>: construction of the voter set and the slow, fast and TryPreAccept-witness
  quorum sizes. The interface the protocol relies on, that quorums of given sizes overlap, is the
  locale \<open>quorum_overlap\<close>; it is interpreted on the sizes the code computes.
\<close>

section \<open>The code\<close>

definition slowQuorumSize :: "nat \<Rightarrow> nat" where
  "slowQuorumSize n = n div 2 + 1"

definition fastQuorumSize :: "nat \<Rightarrow> nat" where
  "fastQuorumSize n =
     (let fast = n - (n - 1) div 4 in
      if n mod 2 = 1 then
        (let f = n div 2; fast = f + (f + 1) div 2 in if fast = 0 then 1 else fast)
      else fast)"

text \<open>The subtraction is the one of Go's \<^verbatim>\<open>int\<close>.\<close>

definition tryWitnessQuorumSize :: "nat \<Rightarrow> int" where
  "tryWitnessQuorumSize n = int (fastQuorumSize n) + int (slowQuorumSize n) - int n"

record quorum =
  q_conf :: ConfState
  q_slow :: nat
  q_fast :: nat

text \<open>
  The validation loop over the sorted voters: \<open>prev\<close> is \<^verbatim>\<open>vv[i-1]\<close>, absent at \<^verbatim>\<open>i == 0\<close>.
\<close>

fun checkVoters :: "ReplicaID option \<Rightarrow> ReplicaID list \<Rightarrow> bool" where
  "checkVoters prev [] = True"
| "checkVoters prev (i # vs) =
     (if i = 0 then False
      else if prev = Some i then False
      else checkVoters (Some i) vs)"

definition newQuorum :: "ReplicaID list \<Rightarrow> error + quorum" where
  "newQuorum voters =
     (if length voters = 0 \<or> length voters > 7 then Inl ErrInvalidConfig
      else
        let vv = sort voters; n = length vv in
        if \<not> checkVoters None vv then Inl ErrInvalidConfig
        else Inr \<lparr>q_conf = \<lparr>conf_ID = 1, conf_Voters = vv\<rparr>,
                   q_slow = slowQuorumSize n, q_fast = fastQuorumSize n\<rparr>)"

definition quorum_contains :: "quorum \<Rightarrow> ReplicaID \<Rightarrow> bool" where
  "quorum_contains q i = conf_Contains (q_conf q) i"

definition quorum_deps :: "quorum \<Rightarrow> InstanceNum list" where
  "quorum_deps q = replicate (length (conf_Voters (q_conf q))) 0"

definition makeIDs :: "nat \<Rightarrow> ReplicaID list" where
  "makeIDs n = map (\<lambda>i. of_nat (i + 1)) [0..<n]"

definition SlowQuorum :: "nat \<Rightarrow> error + nat" where
  "SlowQuorum n = (case newQuorum (makeIDs n) of Inl e \<Rightarrow> Inl e | Inr _ \<Rightarrow> Inr (slowQuorumSize n))"

definition FastQuorum :: "nat \<Rightarrow> error + nat" where
  "FastQuorum n = (case newQuorum (makeIDs n) of Inl e \<Rightarrow> Inl e | Inr _ \<Rightarrow> Inr (fastQuorumSize n))"

definition TryWitnessQuorum :: "nat \<Rightarrow> error + int" where
  "TryWitnessQuorum n =
     (case newQuorum (makeIDs n) of Inl e \<Rightarrow> Inl e | Inr _ \<Rightarrow> Inr (tryWitnessQuorumSize n))"

section \<open>The voter set\<close>

lemma checkVoters_iff:
  assumes "sorted vs" and "\<forall>x \<in> set vs. case p of None \<Rightarrow> True | Some q \<Rightarrow> q \<le> x"
  shows "checkVoters p vs \<longleftrightarrow> 0 \<notin> set vs \<and> distinct vs \<and> (\<forall>q. p = Some q \<longrightarrow> q \<notin> set vs)"
  using assms
proof (induction p vs rule: checkVoters.induct)
  case (2 p i vs)
  show ?case
  proof (cases "i = 0 \<or> p = Some i")
    case True
    then show ?thesis by auto
  next
    case False
    have "checkVoters (Some i) vs \<longleftrightarrow> 0 \<notin> set vs \<and> distinct vs \<and> i \<notin> set vs"
      using "2.IH" False "2.prems" by auto
    moreover have "\<forall>q. p = Some q \<longrightarrow> q \<notin> set vs"
      using False "2.prems" by (auto split: option.splits)
    ultimately show ?thesis using False by auto
  qed
qed simp

lemma newQuorum_Inr_iff:
  "newQuorum vs = Inr q \<longleftrightarrow>
     1 \<le> length vs \<and> length vs \<le> 7 \<and> 0 \<notin> set vs \<and> distinct vs \<and>
     q = \<lparr>q_conf = \<lparr>conf_ID = 1, conf_Voters = sort vs\<rparr>,
          q_slow = slowQuorumSize (length vs), q_fast = fastQuorumSize (length vs)\<rparr>"
  using checkVoters_iff [of "sort vs" None]
  by (auto simp: newQuorum_def Let_def Suc_le_eq)

lemma newQuorum_cases: "newQuorum vs = Inl ErrInvalidConfig \<or> (\<exists>q. newQuorum vs = Inr q)"
  by (simp add: newQuorum_def Let_def)

lemma newQuorum_wf [wf_intros]: "newQuorum vs = Inr q \<Longrightarrow> conf_wf (q_conf q)"
  by (auto simp: newQuorum_Inr_iff conf_wf_def sorted_distinct_strict)

lemma newQuorum_sizes:
  assumes "newQuorum vs = Inr q"
  shows "q_slow q = slowQuorumSize (card (set (conf_Voters (q_conf q))))"
    and "q_fast q = fastQuorumSize (card (set (conf_Voters (q_conf q))))"
    and "1 \<le> card (set (conf_Voters (q_conf q)))"
  using assms by (auto simp: newQuorum_Inr_iff distinct_card Suc_le_eq)

lemma makeIDs_valid:
  assumes "n \<le> 7"
  shows "length (makeIDs n) = n" and "0 \<notin> set (makeIDs n)" and "distinct (makeIDs n)"
proof -
  have inj: "(of_nat x :: u64) = of_nat y \<longleftrightarrow> x = y" if "x \<le> 7" "y \<le> 7" for x y
    using that by (auto simp: word_of_nat_eq_iff take_bit_nat_eq_self)
  show "length (makeIDs n) = n" by (simp add: makeIDs_def)
  show "0 \<notin> set (makeIDs n)"
    using inj [of 0] assms by (force simp: makeIDs_def simp del: of_nat_Suc of_nat_add)
  show "distinct (makeIDs n)"
    using inj assms by (auto simp: makeIDs_def distinct_map inj_on_def simp del: of_nat_Suc of_nat_add)
qed

section \<open>Overlap of quorums\<close>

text \<open>
  What the protocol uses of two families of quorums given by their sizes: the sizes add up to
  more than the number of voters.
\<close>

locale quorum_overlap =
  fixes a b :: "nat \<Rightarrow> nat"
  assumes overlap: "1 \<le> n \<Longrightarrow> n < a n + b n"
begin

lemma card_inter:
  assumes "finite V" "A \<subseteq> V" "B \<subseteq> V" "a (card V) \<le> card A" "b (card V) \<le> card B"
  shows "a (card V) + b (card V) \<le> card V + card (A \<inter> B)"
proof -
  have "card A + card B = card (A \<union> B) + card (A \<inter> B)"
    using assms by (meson card_Un_Int finite_subset)
  moreover have "card (A \<union> B) \<le> card V" using assms by (simp add: card_mono)
  ultimately show ?thesis using assms by linarith
qed

lemma inter_nonempty:
  assumes "finite V" "1 \<le> card V" "A \<subseteq> V" "B \<subseteq> V" "a (card V) \<le> card A" "b (card V) \<le> card B"
  shows "A \<inter> B \<noteq> {}"
  using card_inter [of V A B] overlap [of "card V"] assms by fastforce

end

lemma slowQuorumSize_overlap: "n < slowQuorumSize n + slowQuorumSize n"
  by (simp add: slowQuorumSize_def)

lemma fastQuorumSize_odd: "fastQuorumSize (Suc (2 * f)) = (if f = 0 then 1 else f + (f + 1) div 2)"
  by (auto simp: fastQuorumSize_def Let_def)

lemma fastQuorumSize_even: "fastQuorumSize (2 * m) = 2 * m - (2 * m - 1) div 4"
  by (simp add: fastQuorumSize_def Let_def)

lemma fastQuorumSize_slow_overlap: "1 \<le> n \<Longrightarrow> n < fastQuorumSize n + slowQuorumSize n"
  by (cases "even n") (auto elim!: evenE oddE simp: fastQuorumSize_even fastQuorumSize_odd slowQuorumSize_def)

lemma fastQuorumSize_fast_overlap: "1 \<le> n \<Longrightarrow> n < fastQuorumSize n + fastQuorumSize n"
  by (cases "even n") (auto elim!: evenE oddE simp: fastQuorumSize_even fastQuorumSize_odd, presburger)

interpretation slow_slow: quorum_overlap slowQuorumSize slowQuorumSize
  by unfold_locales (rule slowQuorumSize_overlap)

interpretation fast_slow: quorum_overlap fastQuorumSize slowQuorumSize
  by unfold_locales (rule fastQuorumSize_slow_overlap)

interpretation fast_fast: quorum_overlap fastQuorumSize fastQuorumSize
  by unfold_locales (rule fastQuorumSize_fast_overlap)

section \<open>Properties\<close>

text \<open>
  C27. \<^verbatim>\<open>newQuorum\<close> accepts exactly the duplicate-free sets of one to seven nonzero voters, in any
  order, and returns them sorted under configuration id 1 with the quorum sizes of their number;
  everything else is \<^verbatim>\<open>ErrInvalidConfig\<close>.
\<close>

theorem newQuorum_correct:
  "newQuorum vs =
     (if 1 \<le> length vs \<and> length vs \<le> 7 \<and> 0 \<notin> set vs \<and> distinct vs
      then Inr \<lparr>q_conf = \<lparr>conf_ID = 1, conf_Voters = sorted_list_of_set (set vs)\<rparr>,
                q_slow = slowQuorumSize (card (set vs)), q_fast = fastQuorumSize (card (set vs))\<rparr>
      else Inl ErrInvalidConfig)"
  using newQuorum_Inr_iff [of vs] newQuorum_cases [of vs]
  by (auto simp: distinct_card sorted_list_of_set_sort_remdups distinct_remdups_id)

text \<open>
  C4. The quorums of a configuration overlap: any two majority quorums share a voter, a fast and
  a majority quorum share at least \<^verbatim>\<open>tryWitnessQuorumSize\<close> voters, which is positive, and any two
  fast quorums share a voter.
\<close>

theorem quorums_overlap:
  assumes "newQuorum vs = Inr q" and "V = set (conf_Voters (q_conf q))"
    and "S1 \<subseteq> V" "S2 \<subseteq> V" "F1 \<subseteq> V" "F2 \<subseteq> V"
    and "q_slow q \<le> card S1" "q_slow q \<le> card S2" "q_fast q \<le> card F1" "q_fast q \<le> card F2"
  shows "S1 \<inter> S2 \<noteq> {} \<and> F1 \<inter> F2 \<noteq> {} \<and> 0 < tryWitnessQuorumSize (card V) \<and>
    tryWitnessQuorumSize (card V) \<le> int (card (F1 \<inter> S1))"
proof -
  have fin: "finite V" using assms(2) by simp
  note sizes = newQuorum_sizes [OF assms(1), folded assms(2)]
  have "S1 \<inter> S2 \<noteq> {}" using slow_slow.inter_nonempty [of V S1 S2] fin sizes assms by simp
  moreover have "F1 \<inter> F2 \<noteq> {}" using fast_fast.inter_nonempty [of V F1 F2] fin sizes assms by simp
  moreover have "0 < tryWitnessQuorumSize (card V)"
    using fastQuorumSize_slow_overlap [OF sizes(3)] by (simp add: tryWitnessQuorumSize_def)
  moreover have "tryWitnessQuorumSize (card V) \<le> int (card (F1 \<inter> S1))"
    using fast_slow.card_inter [of V F1 S1] fin sizes assms by (simp add: tryWitnessQuorumSize_def)
  ultimately show ?thesis by blast
qed

theorem quorums_overlap_witness:
  "{1::u64, 2} \<inter> {2, 3} \<noteq> {} \<and> 0 < tryWitnessQuorumSize (card {1::u64, 2, 3}) \<and>
   tryWitnessQuorumSize (card {1::u64, 2, 3}) \<le> int (card ({1, 3} \<inter> {1::u64, 2}))"
proof -
  let ?q = "\<lparr>q_conf = \<lparr>conf_ID = 1, conf_Voters = [1, 2, 3]\<rparr>, q_slow = 2, q_fast = 2\<rparr>"
  have q: "newQuorum [3, 1, 2] = Inr ?q"
    by (simp add: newQuorum_def slowQuorumSize_def fastQuorumSize_def word_le_nat_alt)
  show ?thesis
    using quorums_overlap [OF q, of "{1, 2, 3}" "{1, 2}" "{2, 3}" "{1, 3}" "{1, 2}"] by simp
qed

lemma tight_overlap:
  fixes n a b :: nat
  assumes "a \<le> n" "b \<le> n" "n \<le> a + b"
  shows "\<exists>A B. A \<subseteq> {..<n} \<and> B \<subseteq> {..<n} \<and> card A = a \<and> card B = b \<and> card (A \<inter> B) = a + b - n"
proof (intro exI conjI)
  show "{..<a} \<subseteq> {..<n}" "{n - b..<n} \<subseteq> {..<n}" using assms by auto
  show "card {..<a} = a" "card {n - b..<n} = b" using assms by auto
  have "{..<a} \<inter> {n - b..<n} = {n - b..<a}" using assms by auto
  then show "card ({..<a} \<inter> {n - b..<n}) = a + b - n" using assms by simp
qed

lemma quorumSize_le: "1 \<le> n \<Longrightarrow> n \<le> 7 \<Longrightarrow> slowQuorumSize n \<le> n \<and> fastQuorumSize n \<le> n"
  by (cases "even n") (auto elim!: evenE oddE simp: fastQuorumSize_even fastQuorumSize_odd slowQuorumSize_def)

text \<open>
  C28. The TryPreAccept witness threshold is exact: for every legal cluster size there are a fast
  and a majority quorum that share no more voters than \<^verbatim>\<open>TryWitnessQuorum\<close> says.
\<close>

theorem tryWitness_exact:
  assumes "TryWitnessQuorum n = Inr w"
  shows "\<exists>F S. F \<subseteq> {..<n} \<and> S \<subseteq> {..<n} \<and> FastQuorum n = Inr (card F) \<and>
           SlowQuorum n = Inr (card S) \<and> w = int (card (F \<inter> S))"
proof -
  obtain q where q: "newQuorum (makeIDs n) = Inr q" and w: "w = tryWitnessQuorumSize n"
    using assms by (auto simp: TryWitnessQuorum_def split: sum.splits)
  then have n: "1 \<le> n" "n \<le> 7"
    by (auto simp: newQuorum_Inr_iff makeIDs_def Suc_le_eq)
  note bounds = quorumSize_le [OF n] fastQuorumSize_slow_overlap [OF n(1)]
  obtain F S where "F \<subseteq> {..<n}" "S \<subseteq> {..<n}" "card F = fastQuorumSize n" "card S = slowQuorumSize n"
      "card (F \<inter> S) = fastQuorumSize n + slowQuorumSize n - n"
    using tight_overlap [of "fastQuorumSize n" n "slowQuorumSize n"] bounds by auto
  then show ?thesis
    using bounds by (intro exI [of _ F] exI [of _ S])
      (auto simp: FastQuorum_def SlowQuorum_def q w tryWitnessQuorumSize_def)
qed

theorem tryWitness_exact_witness:
  "\<exists>F S. F \<subseteq> {..<5::nat} \<and> S \<subseteq> {..<5} \<and> FastQuorum 5 = Inr (card F) \<and>
     SlowQuorum 5 = Inr (card S) \<and> (1::int) = int (card (F \<inter> S))"
proof -
  have "newQuorum (makeIDs 5) = Inr \<lparr>q_conf = \<lparr>conf_ID = 1, conf_Voters = sort (makeIDs 5)\<rparr>,
          q_slow = slowQuorumSize 5, q_fast = fastQuorumSize 5\<rparr>"
    using makeIDs_valid [of 5] by (simp add: newQuorum_Inr_iff)
  then have "TryWitnessQuorum 5 = Inr 1"
    by (simp add: TryWitnessQuorum_def tryWitnessQuorumSize_def fastQuorumSize_def slowQuorumSize_def)
  then show ?thesis by (rule tryWitness_exact)
qed

end
