(* ===== verification/Checkpoints.thy ===== *)
theory Checkpoints
  imports Checksum Quorum
begin

text \<open>
  Certified checkpoints: \<^verbatim>\<open>epaxos/checkpoint.go\<close>. A checkpoint names a committed barrier, the
  executed prefix of every lane of every configuration (the frontier), the first instance each
  lane may still allocate (the fences) and digests of the application and protocol state; a
  certificate is a slow quorum of voters that attested the digest of this description.

  The digests are BLAKE3 over canonical bytes; the hash is the parameter \<open>H\<close>, as in
  \<^verbatim>\<open>Checksum\<close>. A \<^verbatim>\<open>map[ConfID]ConfState\<close> is a partial function. The control messages carry
  JSON; \<^verbatim>\<open>json.Marshal\<close> and \<^verbatim>\<open>json.Unmarshal\<close> at the type \<^verbatim>\<open>checkpointControlWire\<close> are the
  parameters \<open>marshal\<close> and \<open>unmarshal\<close>, where \<open>None\<close> is a failed call.
\<close>

section \<open>Frontiers\<close>

record ExecutionLaneFrontier =
  lf_Replica :: ReplicaID
  lf_Through :: InstanceNum

record ExecutionConfigFrontier =
  cf_Conf :: ConfID
  cf_Lanes :: "ExecutionLaneFrontier list"

type_synonym ExecutionFrontier = "ExecutionConfigFrontier list"
type_synonym confHistory = "ConfID \<Rightarrow> ConfState option"

fun lanesEqual :: "ExecutionLaneFrontier list \<Rightarrow> ExecutionLaneFrontier list \<Rightarrow> bool" where
  "lanesEqual (x # xs) (y # ys) = (if x \<noteq> y then False else lanesEqual xs ys)"
| "lanesEqual _ _ = True"

fun configsEqual :: "ExecutionFrontier \<Rightarrow> ExecutionFrontier \<Rightarrow> bool" where
  "configsEqual (x # xs) (y # ys) =
     (if cf_Conf x \<noteq> cf_Conf y \<or> length (cf_Lanes x) \<noteq> length (cf_Lanes y) then False
      else if \<not> lanesEqual (cf_Lanes x) (cf_Lanes y) then False
      else configsEqual xs ys)"
| "configsEqual _ _ = True"

definition executionFrontierEqual :: "ExecutionFrontier \<Rightarrow> ExecutionFrontier \<Rightarrow> bool" where
  "executionFrontierEqual a b = (if length a \<noteq> length b then False else configsEqual a b)"

fun lanesOfVoters :: "ExecutionLaneFrontier list \<Rightarrow> ReplicaID list \<Rightarrow> bool" where
  "lanesOfVoters (l # ls) (v # vs) = (if lf_Replica l \<noteq> v then False else lanesOfVoters ls vs)"
| "lanesOfVoters _ _ = True"

text \<open>The loop over the configurations; the first argument is the previous identifier.\<close>

fun validateConfigs :: "ConfID option \<Rightarrow> confHistory \<Rightarrow> ExecutionFrontier \<Rightarrow> error option" where
  "validateConfigs prev history [] = None"
| "validateConfigs prev history (c # cs) =
     (if cf_Conf c = 0 \<or> (case prev of None \<Rightarrow> False | Some p \<Rightarrow> p \<ge> cf_Conf c) then Some ErrInvalidCheckpoint
      else case history (cf_Conf c) of
        None \<Rightarrow> Some ErrInvalidCheckpoint
      | Some conf \<Rightarrow>
          if length (conf_Voters conf) \<noteq> length (cf_Lanes c) then Some ErrInvalidCheckpoint
          else if \<not> lanesOfVoters (cf_Lanes c) (conf_Voters conf) then Some ErrInvalidCheckpoint
          else validateConfigs (Some (cf_Conf c)) history cs)"

definition validateExecutionFrontier :: "ExecutionFrontier \<Rightarrow> confHistory \<Rightarrow> error option" where
  "validateExecutionFrontier f history = validateConfigs None history f"

text \<open>The lane loop of \<^verbatim>\<open>frontierCovers\<close> returns from the function at the first lane of the replica.\<close>

fun lanesCover :: "ExecutionLaneFrontier list \<Rightarrow> InstanceRef \<Rightarrow> bool option" where
  "lanesCover [] ref = None"
| "lanesCover (l # ls) ref =
     (if lf_Replica l = ref_Replica ref then Some (ref_Instance ref \<le> lf_Through l) else lanesCover ls ref)"

fun frontierCovers :: "ExecutionFrontier \<Rightarrow> InstanceRef \<Rightarrow> bool" where
  "frontierCovers [] ref = False"
| "frontierCovers (c # cs) ref =
     (if cf_Conf c \<noteq> ref_Conf ref then frontierCovers cs ref
      else case lanesCover (cf_Lanes c) ref of Some b \<Rightarrow> b | None \<Rightarrow> frontierCovers cs ref)"

text \<open>The flag \<^verbatim>\<open>found\<close> of \<^verbatim>\<open>frontierRegressesExecution\<close> is overwritten by every lane of the replica.\<close>

definition laneKept :: "ExecutionFrontier \<Rightarrow> ConfID \<Rightarrow> ExecutionLaneFrontier \<Rightarrow> bool" where
  "laneKept next conf lane =
     fold (\<lambda>nextConfig found.
       if cf_Conf nextConfig \<noteq> conf then found
       else fold (\<lambda>nextLane found.
              if lf_Replica nextLane = lf_Replica lane then lf_Through nextLane \<ge> lf_Through lane else found)
            (cf_Lanes nextConfig) found)
     next False"

definition frontierRegressesExecution :: "ExecutionFrontier \<Rightarrow> ExecutionFrontier \<Rightarrow> bool" where
  "frontierRegressesExecution current next =
     list_ex (\<lambda>config. list_ex (\<lambda>lane. \<not> laneKept next (cf_Conf config) lane \<and> lf_Through lane \<noteq> 0) (cf_Lanes config))
       current"

section \<open>Descriptors, certificates and checkpoints\<close>

record VoterIdentity =
  vi_Replica :: ReplicaID
  vi_Incarnation :: u64

definition identity_valid :: "VoterIdentity \<Rightarrow> bool" where
  "identity_valid v \<longleftrightarrow> vi_Replica v \<noteq> 0 \<and> vi_Incarnation v \<noteq> 0"

definition voterIdentityEqual :: "VoterIdentity \<Rightarrow> VoterIdentity \<Rightarrow> bool" where
  "voterIdentityEqual a b \<longleftrightarrow> vi_Replica a = vi_Replica b \<and> vi_Incarnation a = vi_Incarnation b"

record VoterAcknowledgement =
  ack_Voter :: VoterIdentity
  ack_AttestedDigest :: bytes

fun sameReplicaIDs :: "ReplicaID list \<Rightarrow> ReplicaID list \<Rightarrow> bool" where
  "sameReplicaIDs (a # as) (b # bs) = (if a \<noteq> b then False else sameReplicaIDs as bs)"
| "sameReplicaIDs [] [] = True"
| "sameReplicaIDs _ _ = False"

definition confStateEqual :: "ConfState \<Rightarrow> ConfState \<Rightarrow> bool" where
  "confStateEqual a b \<longleftrightarrow> conf_ID a = conf_ID b \<and> sameReplicaIDs (conf_Voters a) (conf_Voters b)"

record AllocatorFence =
  fence_Conf :: ConfID
  fence_Replica :: ReplicaID
  fence_Next :: InstanceNum

record CheckpointDescriptor =
  d_ID :: bytes
  d_Cluster :: bytes
  d_Conf :: ConfState
  d_Voters :: "VoterIdentity list"
  d_Barrier :: InstanceRef
  d_BarrierTupleDigest :: bytes
  d_Through :: ExecutionFrontier
  d_AllocatorFences :: "AllocatorFence list"
  d_ApplicationDigest :: bytes
  d_ProtocolStateDigest :: bytes

record CheckpointCertificate =
  crt_DescriptorDigest :: bytes
  crt_Acknowledgements :: "VoterAcknowledgement list"
  crt_Checksum :: bytes

definition zero_certificate :: CheckpointCertificate where
  "zero_certificate = \<lparr>crt_DescriptorDigest = zero_digest, crt_Acknowledgements = [], crt_Checksum = zero_digest\<rparr>"

definition certificate_Empty :: "CheckpointCertificate \<Rightarrow> bool" where
  "certificate_Empty c \<longleftrightarrow> crt_DescriptorDigest c = zero_digest \<and> length (crt_Acknowledgements c) = 0 \<and>
     crt_Checksum c = zero_digest"

record Checkpoint =
  cp_Descriptor :: CheckpointDescriptor
  cp_Certificate :: CheckpointCertificate
  cp_ApplicationSnapshot :: bytes
  cp_CompactedThrough :: ExecutionFrontier
  cp_Checksum :: bytes

definition checkpoint_Empty :: "Checkpoint \<Rightarrow> bool" where
  "checkpoint_Empty c \<longleftrightarrow> d_ID (cp_Descriptor c) = zero_digest"

definition checkpointCertified :: "Checkpoint \<Rightarrow> bool" where
  "checkpointCertified c \<longleftrightarrow> \<not> checkpoint_Empty c \<and> \<not> certificate_Empty (cp_Certificate c)"

fun identitiesEqual :: "VoterIdentity list \<Rightarrow> VoterIdentity list \<Rightarrow> bool" where
  "identitiesEqual (a # as) (b # bs) = (if \<not> voterIdentityEqual a b then False else identitiesEqual as bs)"
| "identitiesEqual _ _ = True"

definition checkpointDescriptorEqual :: "CheckpointDescriptor \<Rightarrow> CheckpointDescriptor \<Rightarrow> bool" where
  "checkpointDescriptorEqual a b =
     (if d_ID a \<noteq> d_ID b \<or> d_Cluster a \<noteq> d_Cluster b \<or> \<not> confStateEqual (d_Conf a) (d_Conf b) \<or>
         d_Barrier a \<noteq> d_Barrier b \<or> d_BarrierTupleDigest a \<noteq> d_BarrierTupleDigest b \<or>
         d_ApplicationDigest a \<noteq> d_ApplicationDigest b \<or> d_ProtocolStateDigest a \<noteq> d_ProtocolStateDigest b \<or>
         \<not> executionFrontierEqual (d_Through a) (d_Through b) \<or>
         length (d_Voters a) \<noteq> length (d_Voters b) \<or> length (d_AllocatorFences a) \<noteq> length (d_AllocatorFences b)
      then False
      else if \<not> identitiesEqual (d_Voters a) (d_Voters b) then False
      else list_all (\<lambda>(x, y). x = y) (zip (d_AllocatorFences a) (d_AllocatorFences b)))"

fun acknowledgementsEqual :: "VoterAcknowledgement list \<Rightarrow> VoterAcknowledgement list \<Rightarrow> bool" where
  "acknowledgementsEqual (a # as) (b # bs) =
     (if ack_AttestedDigest a \<noteq> ack_AttestedDigest b \<or> \<not> voterIdentityEqual (ack_Voter a) (ack_Voter b) then False
      else acknowledgementsEqual as bs)"
| "acknowledgementsEqual _ _ = True"

definition checkpointCertificateEqual :: "CheckpointCertificate \<Rightarrow> CheckpointCertificate \<Rightarrow> bool" where
  "checkpointCertificateEqual a b =
     (if crt_DescriptorDigest a \<noteq> crt_DescriptorDigest b \<or> crt_Checksum a \<noteq> crt_Checksum b \<or>
         length (crt_Acknowledgements a) \<noteq> length (crt_Acknowledgements b)
      then False
      else acknowledgementsEqual (crt_Acknowledgements a) (crt_Acknowledgements b))"

definition checkpointEqual :: "Checkpoint \<Rightarrow> Checkpoint \<Rightarrow> bool" where
  "checkpointEqual a b \<longleftrightarrow> cp_Checksum a = cp_Checksum b \<and>
     cp_ApplicationSnapshot a = cp_ApplicationSnapshot b \<and>
     executionFrontierEqual (cp_CompactedThrough a) (cp_CompactedThrough b) \<and>
     checkpointDescriptorEqual (cp_Descriptor a) (cp_Descriptor b) \<and>
     checkpointCertificateEqual (cp_Certificate a) (cp_Certificate b)"

type_synonym SnapshotMode = u8
abbreviation (input) SnapshotPersistLocal :: SnapshotMode where "SnapshotPersistLocal \<equiv> 1"
abbreviation (input) SnapshotInstall :: SnapshotMode where "SnapshotInstall \<equiv> 2"

record Snapshot =
  snap_Mode :: SnapshotMode
  snap_Checkpoint :: Checkpoint

definition snapshotEqual :: "Snapshot \<Rightarrow> Snapshot \<Rightarrow> bool" where
  "snapshotEqual a b \<longleftrightarrow> snap_Mode a = snap_Mode b \<and> checkpointEqual (snap_Checkpoint a) (snap_Checkpoint b)"

record CompactionRange =
  cr_Checkpoint :: bytes
  cr_Conf :: ConfID
  cr_Replica :: ReplicaID
  cr_Through :: InstanceNum

record CheckpointRequest =
  cq_ID :: bytes
  cq_Through :: ExecutionFrontier

definition checkpointRequestEqual :: "CheckpointRequest \<Rightarrow> CheckpointRequest \<Rightarrow> bool" where
  "checkpointRequestEqual a b \<longleftrightarrow> cq_ID a = cq_ID b \<and> executionFrontierEqual (cq_Through a) (cq_Through b)"

definition canonicalCompactionRanges :: "Checkpoint \<Rightarrow> CompactionRange list" where
  "canonicalCompactionRanges c =
     (if \<not> checkpointCertified c then []
      else concat (map (\<lambda>config.
        concat (map (\<lambda>lane.
          if lf_Through lane = 0 then []
          else [\<lparr>cr_Checkpoint = d_ID (cp_Descriptor c), cr_Conf = cf_Conf config,
                 cr_Replica = lf_Replica lane, cr_Through = lf_Through lane\<rparr>])
        (cf_Lanes config))) (d_Through (cp_Descriptor c))))"

section \<open>Digests\<close>

text \<open>A Go string constant as bytes.\<close>

definition domain :: "string \<Rightarrow> bytes" where
  "domain s = map of_char s"

definition writeConf :: "ConfState \<Rightarrow> bytes" where
  "writeConf c = writeUint64 (conf_ID c) @ writeAll writeUint64 (conf_Voters c)"

definition writeLane :: "ExecutionLaneFrontier \<Rightarrow> bytes" where
  "writeLane l = writeUint64 (lf_Replica l) @ writeUint64 (lf_Through l)"

definition writeConfigFrontier :: "ExecutionConfigFrontier \<Rightarrow> bytes" where
  "writeConfigFrontier c = writeUint64 (cf_Conf c) @ writeAll writeLane (cf_Lanes c)"

definition writeFence :: "AllocatorFence \<Rightarrow> bytes" where
  "writeFence f = writeUint64 (fence_Conf f) @ writeUint64 (fence_Replica f) @ writeUint64 (fence_Next f)"

definition writeIdentity :: "VoterIdentity \<Rightarrow> bytes" where
  "writeIdentity v = writeUint64 (vi_Replica v) @ writeUint64 (vi_Incarnation v)"

definition writeAcknowledgement :: "VoterAcknowledgement \<Rightarrow> bytes" where
  "writeAcknowledgement a = writeIdentity (ack_Voter a) @ writeBytes (ack_AttestedDigest a)"

definition checkpointBarrierTupleDigest :: "(bytes \<Rightarrow> bytes) \<Rightarrow> InstanceRecord \<Rightarrow> bytes" where
  "checkpointBarrierTupleDigest H r = H (
     writeBytes (domain ''epaxos/checkpoint-barrier-tuple/v1'') @
     writeRef (r_Ref r) @
     writeBallot (r_RecordBallot r) @
     writeUint64 (r_Seq r) @
     writeAll writeUint64 (r_Deps r) @
     writeEntryValue (r_Kind r) (r_Command r) (r_ConfChange r) (r_ProtocolControl r))"

definition frontierBytes :: "string \<Rightarrow> ExecutionFrontier \<Rightarrow> bytes" where
  "frontierBytes hashDomain frontier =
     writeBytes (domain hashDomain) @
     writeAll writeConfigFrontier frontier"

definition digestExecutionFrontier :: "(bytes \<Rightarrow> bytes) \<Rightarrow> string \<Rightarrow> ExecutionFrontier \<Rightarrow> bytes" where
  "digestExecutionFrontier H hashDomain frontier = H (frontierBytes hashDomain frontier)"

text \<open>
  The configurations are those of the history that the frontier names, in ascending order:
  the order in which Go iterates over the map is not visible after the sort.
\<close>

definition checkpointProtocolStateDigest ::
    "(bytes \<Rightarrow> bytes) \<Rightarrow> confHistory \<Rightarrow> ExecutionFrontier \<Rightarrow> bytes \<Rightarrow> AllocatorFence list \<Rightarrow> bytes" where
  "checkpointProtocolStateDigest H history through barrier fences =
     (let configs = sorted_list_of_set (Set.filter (\<lambda>id. history id \<noteq> None) (cf_Conf ` set through)) in
      H (writeBytes (domain ''epaxos/checkpoint-protocol-state/v1'') @
         writeAll (\<lambda>id. case history id of Some conf \<Rightarrow> writeConf conf | None \<Rightarrow> []) configs @
         writeBytes barrier @
         writeBytes (digestExecutionFrontier H ''epaxos/checkpoint-frontier/v1'' through) @
         writeAll writeFence fences))"

definition deriveCheckpointID :: "(bytes \<Rightarrow> bytes) \<Rightarrow> bytes \<Rightarrow> ExecutionFrontier \<Rightarrow> bytes" where
  "deriveCheckpointID H barrier frontier = H (
     writeBytes (domain ''epaxos/checkpoint-id/v1'') @
     writeBytes barrier @
     writeBytes (digestExecutionFrontier H ''epaxos/checkpoint-frontier/v1'' frontier))"

definition descriptorBytes :: "(bytes \<Rightarrow> bytes) \<Rightarrow> CheckpointDescriptor \<Rightarrow> bytes" where
  "descriptorBytes H d =
     writeBytes (domain ''epaxos/checkpoint-descriptor/v1'') @
     writeBytes (d_ID d) @
     writeBytes (d_Cluster d) @
     writeConf (d_Conf d) @
     writeAll writeIdentity (d_Voters d) @
     writeRef (d_Barrier d) @
     writeBytes (d_BarrierTupleDigest d) @
     writeBytes (digestExecutionFrontier H ''epaxos/checkpoint-frontier/v1'' (d_Through d)) @
     writeAll writeFence (d_AllocatorFences d) @
     writeBytes (d_ApplicationDigest d) @
     writeBytes (d_ProtocolStateDigest d)"

definition DigestCheckpointDescriptor :: "(bytes \<Rightarrow> bytes) \<Rightarrow> CheckpointDescriptor \<Rightarrow> bytes" where
  "DigestCheckpointDescriptor H d = H (descriptorBytes H d)"

definition certificateBytes :: "CheckpointCertificate \<Rightarrow> bytes" where
  "certificateBytes c =
     writeBytes (domain ''epaxos/checkpoint-certificate/v1'') @
     writeBytes (crt_DescriptorDigest c) @
     writeAll writeAcknowledgement (crt_Acknowledgements c)"

definition DigestCheckpointCertificate :: "(bytes \<Rightarrow> bytes) \<Rightarrow> CheckpointCertificate \<Rightarrow> bytes" where
  "DigestCheckpointCertificate H c = H (certificateBytes c)"

definition checkpointBytes :: "(bytes \<Rightarrow> bytes) \<Rightarrow> Checkpoint \<Rightarrow> bytes" where
  "checkpointBytes H c =
     writeBytes (domain ''epaxos/checkpoint-state/v1'') @
     writeBytes (DigestCheckpointDescriptor H (cp_Descriptor c)) @
     writeBytes (DigestCheckpointCertificate H (cp_Certificate c)) @
     writeBytes (cp_ApplicationSnapshot c) @
     writeBytes (digestExecutionFrontier H ''epaxos/checkpoint-compacted/v1'' (cp_CompactedThrough c))"

definition DigestCheckpoint :: "(bytes \<Rightarrow> bytes) \<Rightarrow> Checkpoint \<Rightarrow> bytes" where
  "DigestCheckpoint H c = H (checkpointBytes H c)"

section \<open>Certification\<close>

text \<open>
  The loop over the sorted acknowledgements. \<^verbatim>\<open>sort.Slice\<close> leaves the order of equal replicas
  open, but two acknowledgements of one replica are refused in either order.
\<close>

fun checkAcknowledgements ::
    "bytes \<Rightarrow> VoterIdentity list \<Rightarrow> ReplicaID option \<Rightarrow> VoterAcknowledgement list \<Rightarrow> bool" where
  "checkAcknowledgements digest voters prev [] = True"
| "checkAcknowledgements digest voters prev (a # as) =
     (if (case prev of None \<Rightarrow> False | Some p \<Rightarrow> p \<ge> vi_Replica (ack_Voter a)) \<or> ack_AttestedDigest a \<noteq> digest
      then False
      else if \<not> list_ex (\<lambda>identity. voterIdentityEqual identity (ack_Voter a)) voters then False
      else checkAcknowledgements digest voters (Some (vi_Replica (ack_Voter a))) as)"

definition BuildCheckpointCertificate ::
    "(bytes \<Rightarrow> bytes) \<Rightarrow> CheckpointDescriptor \<Rightarrow> VoterAcknowledgement list \<Rightarrow> error + CheckpointCertificate" where
  "BuildCheckpointCertificate H d acknowledgements =
     (let digest = DigestCheckpointDescriptor H d;
          acks = sort_key (\<lambda>a. vi_Replica (ack_Voter a)) acknowledgements
      in if length acks \<noteq> slowQuorumSize (length (conf_Voters (d_Conf d))) then Inl ErrInvalidCheckpoint
         else if \<not> checkAcknowledgements digest (d_Voters d) None acks then Inl ErrInvalidCheckpoint
         else
           let certificate = \<lparr>crt_DescriptorDigest = digest, crt_Acknowledgements = acks, crt_Checksum = zero_digest\<rparr>
           in Inr (certificate\<lparr>crt_Checksum := DigestCheckpointCertificate H certificate\<rparr>))"

definition maxApplicationSnapshotHandle :: nat where
  "maxApplicationSnapshotHandle = 64 * 2 ^ 10"

fun votersValid :: "ReplicaID option \<Rightarrow> ReplicaID list \<Rightarrow> VoterIdentity list \<Rightarrow> bool" where
  "votersValid prev (v # vs) (i # is) =
     (if vi_Replica i \<noteq> v \<or> \<not> identity_valid i \<or> (case prev of None \<Rightarrow> False | Some p \<Rightarrow> p \<ge> vi_Replica i) then False
      else votersValid (Some (vi_Replica i)) vs is)"
| "votersValid prev _ _ = True"

text \<open>
  The fence loop: it consumes one fence per lane and returns those left over, or \<open>None\<close> at the
  first lane whose fence is missing, names another lane or does not lie beyond the frontier.
\<close>

fun laneFences :: "ConfID \<Rightarrow> ExecutionLaneFrontier list \<Rightarrow> AllocatorFence list \<Rightarrow> AllocatorFence list option" where
  "laneFences conf [] fences = Some fences"
| "laneFences conf (l # ls) [] = None"
| "laneFences conf (l # ls) (fence # fences) =
     (case instanceSuccessor (lf_Through l) of
        None \<Rightarrow> None
      | Some minimum \<Rightarrow>
          if fence_Conf fence \<noteq> conf \<or> fence_Replica fence \<noteq> lf_Replica l \<or> fence_Next fence < minimum then None
          else laneFences conf ls fences)"

fun configFences :: "ExecutionFrontier \<Rightarrow> AllocatorFence list \<Rightarrow> AllocatorFence list option" where
  "configFences [] fences = Some fences"
| "configFences (c # cs) fences =
     (case laneFences (cf_Conf c) (cf_Lanes c) fences of None \<Rightarrow> None | Some rest \<Rightarrow> configFences cs rest)"

definition validateCheckpoint :: "(bytes \<Rightarrow> bytes) \<Rightarrow> Checkpoint \<Rightarrow> confHistory \<Rightarrow> error option" where
  "validateCheckpoint H c history =
     (if checkpoint_Empty c then None
      else let d = cp_Descriptor c in
        if d_ApplicationDigest d = zero_digest \<or> ref_IsZero (d_Barrier d) \<or> d_BarrierTupleDigest d = zero_digest \<or>
           d_ProtocolStateDigest d = zero_digest \<or>
           deriveCheckpointID H (d_BarrierTupleDigest d) (d_Through d) \<noteq> d_ID d \<or>
           length (cp_ApplicationSnapshot c) = 0 \<or> length (cp_ApplicationSnapshot c) > maxApplicationSnapshotHandle \<or>
           cp_Checksum c \<noteq> DigestCheckpoint H c
        then Some ErrInvalidCheckpoint
        else case validateExecutionFrontier (d_Through d) history of
          Some e \<Rightarrow> Some e
        | None \<Rightarrow>
          if (case history (conf_ID (d_Conf d)) of None \<Rightarrow> True | Some conf \<Rightarrow> \<not> confStateEqual conf (d_Conf d)) \<or>
             ref_Conf (d_Barrier d) \<noteq> conf_ID (d_Conf d) \<or>
             length (d_Voters d) \<noteq> length (conf_Voters (d_Conf d))
          then Some ErrInvalidCheckpoint
          else if \<not> votersValid None (conf_Voters (d_Conf d)) (d_Voters d) then Some ErrInvalidCheckpoint
          else case configFences (d_Through d) (d_AllocatorFences d) of
            None \<Rightarrow> Some ErrInvalidCheckpoint
          | Some rest \<Rightarrow>
            if length rest \<noteq> 0 \<or>
               d_ProtocolStateDigest d \<noteq>
                 checkpointProtocolStateDigest H history (d_Through d) (d_BarrierTupleDigest d) (d_AllocatorFences d)
            then Some ErrInvalidCheckpoint
            else if length (cp_CompactedThrough c) \<noteq> 0 \<and> frontierRegressesExecution (cp_CompactedThrough c) (d_Through d)
            then Some ErrInvalidCheckpoint
            else if \<not> certificate_Empty (cp_Certificate c) then
              (case BuildCheckpointCertificate H d (crt_Acknowledgements (cp_Certificate c)) of
                 Inl _ \<Rightarrow> Some ErrInvalidCheckpoint
               | Inr built \<Rightarrow>
                   if crt_Checksum built \<noteq> crt_Checksum (cp_Certificate c) then Some ErrInvalidCheckpoint else None)
            else None)"

section \<open>Control messages\<close>

type_synonym checkpointControlType = u8
abbreviation (input) checkpointControlVote :: checkpointControlType where "checkpointControlVote \<equiv> 1"
abbreviation (input) checkpointControlCertificate :: checkpointControlType where "checkpointControlCertificate \<equiv> 2"
abbreviation (input) checkpointControlOffer :: checkpointControlType where "checkpointControlOffer \<equiv> 3"

record checkpointControlWire =
  w_Version :: u8
  w_Type :: checkpointControlType
  w_Descriptor :: CheckpointDescriptor
  w_Vote :: VoterAcknowledgement
  w_Checkpoint :: Checkpoint

definition checkpointWireVersion :: u8 where
  "checkpointWireVersion = 1"

definition encodeCheckpointControl ::
    "(checkpointControlWire \<Rightarrow> bytes option) \<Rightarrow> checkpointControlWire \<Rightarrow> bytes option" where
  "encodeCheckpointControl marshal wire = marshal (wire\<lparr>w_Version := checkpointWireVersion\<rparr>)"

definition decodeCheckpointControl ::
    "(checkpointControlWire \<Rightarrow> bytes option) \<Rightarrow> (bytes \<Rightarrow> checkpointControlWire option) \<Rightarrow> bytes \<Rightarrow>
       error + checkpointControlWire" where
  "decodeCheckpointControl marshal unmarshal payload =
     (if length payload = 0 \<or> length payload > maxWireProtocolControl then Inl ErrInvalidCheckpoint
      else case unmarshal payload of
        None \<Rightarrow> Inl ErrInvalidCheckpoint
      | Some wire \<Rightarrow>
          if w_Version wire \<noteq> checkpointWireVersion then Inl ErrInvalidCheckpoint
          else case marshal wire of
            None \<Rightarrow> Inl ErrInvalidCheckpoint
          | Some canonical \<Rightarrow> if canonical \<noteq> payload then Inl ErrInvalidCheckpoint else Inr wire)"

definition validateCheckpointControlMessage ::
    "(bytes \<Rightarrow> bytes) \<Rightarrow> (checkpointControlWire \<Rightarrow> bytes option) \<Rightarrow> (bytes \<Rightarrow> checkpointControlWire option) \<Rightarrow>
       Message \<Rightarrow> error option" where
  "validateCheckpointControlMessage H marshal unmarshal m =
     (if m_Kind m \<noteq> EntryCheckpoint \<or> \<not> commandEmpty (m_Command m) \<or>
         m_ConfChange m \<noteq> zero_confChange \<or> m_RecordBallot m \<noteq> zero_ballot \<or>
         m_Seq m \<noteq> 0 \<or> length (m_Deps m) \<noteq> 0 \<or> m_AcceptSeq m \<noteq> 0 \<or>
         length (m_AcceptDeps m) \<noteq> 0 \<or> length (m_AcceptEvidence m) \<noteq> 0 \<or>
         m_ProcessAt m \<noteq> 0 \<or> m_TOQ m \<or> m_Reject m \<or>
         m_RejectHint m \<noteq> zero_ballot \<or> m_RejectReason m \<noteq> RejectNone \<or>
         m_ConflictRef m \<noteq> zero_ref \<or> m_ConflictStatus m \<noteq> StatusNone \<or>
         m_RecordStatus m \<noteq> StatusNone \<or> m_FastPathEligible m \<or>
         m_DepsCommitted m \<noteq> 0 \<or> m_IgnoreDependency m \<noteq> zero_ref
      then Some ErrInvalidMessage
      else case decodeCheckpointControl marshal unmarshal (m_ProtocolControl m) of
        Inl _ \<Rightarrow> Some ErrInvalidMessage
      | Inr wire \<Rightarrow>
          if m_Type m = MsgCheckpointVote then
            (if w_Type wire \<noteq> checkpointControlVote \<or> d_ID (w_Descriptor wire) = zero_digest \<or>
                vi_Replica (ack_Voter (w_Vote wire)) \<noteq> m_From m \<or>
                ack_AttestedDigest (w_Vote wire) \<noteq> DigestCheckpointDescriptor H (w_Descriptor wire) \<or>
                \<not> checkpoint_Empty (w_Checkpoint wire)
             then Some ErrInvalidMessage else None)
          else if m_Type m = MsgCheckpointCertificate then
            (if w_Type wire \<noteq> checkpointControlCertificate \<or> \<not> checkpointCertified (w_Checkpoint wire) \<or>
                d_ID (cp_Descriptor (w_Checkpoint wire)) = zero_digest
             then Some ErrInvalidMessage else None)
          else if m_Type m = MsgCheckpointOffer then
            (if w_Type wire \<noteq> checkpointControlOffer \<or> \<not> checkpointCertified (w_Checkpoint wire) \<or>
                d_ID (cp_Descriptor (w_Checkpoint wire)) = zero_digest \<or>
                length (cp_ApplicationSnapshot (w_Checkpoint wire)) = 0
             then Some ErrInvalidMessage else None)
          else Some ErrInvalidMessage)"

definition CheckpointOffer ::
    "(bytes \<Rightarrow> bytes) \<Rightarrow> (checkpointControlWire \<Rightarrow> bytes option) \<Rightarrow> (bytes \<Rightarrow> checkpointControlWire option) \<Rightarrow>
       Message \<Rightarrow> error + Checkpoint option" where
  "CheckpointOffer H marshal unmarshal m =
     (if m_Type m \<noteq> MsgCheckpointOffer then Inr None
      else case validateCheckpointControlMessage H marshal unmarshal m of
        Some e \<Rightarrow> Inl e
      | None \<Rightarrow>
          case decodeCheckpointControl marshal unmarshal (m_ProtocolControl m) of
            Inl _ \<Rightarrow> Inl ErrInvalidMessage
          | Inr wire \<Rightarrow>
              if w_Type wire \<noteq> checkpointControlOffer then Inl ErrInvalidMessage else Inr (Some (w_Checkpoint wire)))"

section \<open>The comparison functions\<close>

lemma lanesEqual_iff: "length a = length b \<Longrightarrow> lanesEqual a b \<longleftrightarrow> a = b"
  by (induction a b rule: lanesEqual.induct) auto

lemma configsEqual_iff: "length a = length b \<Longrightarrow> configsEqual a b \<longleftrightarrow> a = b"
  by (induction a b rule: configsEqual.induct) (auto simp: lanesEqual_iff intro!: ExecutionConfigFrontier.equality)

lemma executionFrontierEqual_iff [simp]: "executionFrontierEqual a b \<longleftrightarrow> a = b"
  by (auto simp: executionFrontierEqual_def configsEqual_iff)

lemma voterIdentityEqual_iff [simp]: "voterIdentityEqual a b \<longleftrightarrow> a = b"
  by (auto simp: voterIdentityEqual_def intro: VoterIdentity.equality)

lemma sameReplicaIDs_iff [simp]: "sameReplicaIDs a b \<longleftrightarrow> a = b"
  by (induction a b rule: sameReplicaIDs.induct) auto

lemma confStateEqual_iff [simp]: "confStateEqual a b \<longleftrightarrow> a = b"
  by (auto simp: confStateEqual_def intro: ConfState.equality)

lemma identitiesEqual_iff: "length a = length b \<Longrightarrow> identitiesEqual a b \<longleftrightarrow> a = b"
  by (induction a b rule: identitiesEqual.induct) auto

lemma acknowledgementsEqual_iff: "length a = length b \<Longrightarrow> acknowledgementsEqual a b \<longleftrightarrow> a = b"
  by (induction a b rule: acknowledgementsEqual.induct) (auto intro!: VoterAcknowledgement.equality)

lemma list_all_zip_eq: "length a = length b \<Longrightarrow> list_all (\<lambda>(x, y). x = y) (zip a b) \<longleftrightarrow> a = b"
  by (induction a b rule: list_induct2) auto

lemma checkpointDescriptorEqual_iff [simp]: "checkpointDescriptorEqual a b \<longleftrightarrow> a = b"
  by (cases a; cases b) (auto simp: checkpointDescriptorEqual_def identitiesEqual_iff list_all_zip_eq)

lemma checkpointCertificateEqual_iff [simp]: "checkpointCertificateEqual a b \<longleftrightarrow> a = b"
  by (cases a; cases b) (auto simp: checkpointCertificateEqual_def acknowledgementsEqual_iff)

lemma checkpointEqual_iff [simp]: "checkpointEqual a b \<longleftrightarrow> a = b"
  by (cases a; cases b) (auto simp: checkpointEqual_def)

section \<open>Frontiers of the configurations\<close>

definition lanes_for :: "confHistory \<Rightarrow> ExecutionConfigFrontier \<Rightarrow> bool" where
  "lanes_for history c \<longleftrightarrow> cf_Conf c \<noteq> 0 \<and>
     (\<exists>conf. history (cf_Conf c) = Some conf \<and> map lf_Replica (cf_Lanes c) = conf_Voters conf)"

lemma lanesOfVoters_iff: "length ls = length vs \<Longrightarrow> lanesOfVoters ls vs \<longleftrightarrow> map lf_Replica ls = vs"
  by (induction ls vs rule: lanesOfVoters.induct) auto

abbreviation ascending_from :: "u64 option \<Rightarrow> u64 list \<Rightarrow> bool" where
  "ascending_from prev xs \<equiv> sorted_wrt (<) (case prev of None \<Rightarrow> xs | Some p \<Rightarrow> p # xs)"

lemma ascending_from_Cons:
  "ascending_from prev (x # xs) \<longleftrightarrow>
     \<not> (case prev of None \<Rightarrow> False | Some p \<Rightarrow> p \<ge> x) \<and> ascending_from (Some x) xs"
  by (cases prev) (simp_all add: sorted_wrt2 not_le del: sorted_wrt.simps)

lemma validateConfigs_iff:
  "validateConfigs prev history f = None \<longleftrightarrow> ascending_from prev (map cf_Conf f) \<and> (\<forall>c \<in> set f. lanes_for history c)"
proof (induction f arbitrary: prev)
  case (Cons c cs)
  have "lanes_for history c \<longleftrightarrow> cf_Conf c \<noteq> 0 \<and> (case history (cf_Conf c) of None \<Rightarrow> False
      | Some conf \<Rightarrow> length (conf_Voters conf) = length (cf_Lanes c) \<and> lanesOfVoters (cf_Lanes c) (conf_Voters conf))"
    using lanesOfVoters_iff by (auto simp: lanes_for_def split: option.splits dest: arg_cong [where f = length])
      (metis length_map)
  then show ?case
    unfolding list.map ascending_from_Cons by (auto simp: Cons split: option.splits)
qed (simp split: option.split)

lemma validateExecutionFrontier_iff:
  "validateExecutionFrontier f history = None \<longleftrightarrow>
     sorted_wrt (<) (map cf_Conf f) \<and> (\<forall>c \<in> set f. lanes_for history c)"
  by (simp add: validateExecutionFrontier_def validateConfigs_iff)

text \<open>The lanes of a frontier: configuration, replica and executed prefix.\<close>

definition lanes :: "ExecutionFrontier \<Rightarrow> (ConfID \<times> ReplicaID \<times> InstanceNum) list" where
  "lanes f = concat (map (\<lambda>c. map (\<lambda>l. (cf_Conf c, lf_Replica l, lf_Through l)) (cf_Lanes c)) f)"

lemma lanes_simps [simp]:
  "lanes [] = []"
  "lanes (c # f) = map (\<lambda>l. (cf_Conf c, lf_Replica l, lf_Through l)) (cf_Lanes c) @ lanes f"
  by (simp_all add: lanes_def)

lemma lanes_member:
  "(i, r, t) \<in> set (lanes f) \<longleftrightarrow> (\<exists>c \<in> set f. \<exists>l \<in> set (cf_Lanes c). cf_Conf c = i \<and> lf_Replica l = r \<and> lf_Through l = t)"
  by (auto simp: lanes_def)

text \<open>Histories as the node keeps them: each configuration under its own identifier and well formed.\<close>

definition history_wf :: "confHistory \<Rightarrow> bool" where
  "history_wf history \<longleftrightarrow> (\<forall>id conf. history id = Some conf \<longrightarrow> conf_ID conf = id \<and> conf_wf conf)"

lemma lanesCover_Some: "lanesCover ls ref = Some b \<Longrightarrow> \<exists>l \<in> set ls. lf_Replica l = ref_Replica ref \<and> b = (ref_Instance ref \<le> lf_Through l)"
  by (induction ls) (auto split: if_splits)

lemma lanesCover_distinct:
  "distinct (map lf_Replica ls) \<Longrightarrow> l \<in> set ls \<Longrightarrow> lf_Replica l = ref_Replica ref \<Longrightarrow>
     lanesCover ls ref = Some (ref_Instance ref \<le> lf_Through l)"
  by (induction ls) (auto simp: image_iff)

lemma frontierCovers_sound:
  "frontierCovers f ref \<Longrightarrow> \<exists>t. (ref_Conf ref, ref_Replica ref, t) \<in> set (lanes f) \<and> ref_Instance ref \<le> t"
  by (induction f) (auto split: if_splits option.splits dest!: lanesCover_Some simp: image_iff, metis)

lemma frontierCovers_complete:
  assumes "sorted_wrt (<) (map cf_Conf f)" "\<forall>c \<in> set f. distinct (map lf_Replica (cf_Lanes c))"
    and "(ref_Conf ref, ref_Replica ref, t) \<in> set (lanes f)"
  shows "frontierCovers f ref \<longleftrightarrow> ref_Instance ref \<le> t"
  using assms
proof (induction f)
  case (Cons c f)
  show ?case
  proof (cases "cf_Conf c = ref_Conf ref")
    case True
    then have "(ref_Conf ref, ref_Replica ref, t) \<notin> set (lanes f)"
      using Cons.prems(1) by (auto simp: lanes_member)
    with Cons.prems(3) obtain l where "l \<in> set (cf_Lanes c)" "lf_Replica l = ref_Replica ref" "lf_Through l = t" by auto
    with True Cons.prems(2) show ?thesis by (simp add: lanesCover_distinct)
  qed (use Cons in auto)
qed simp

lemma valid_frontier_distinct:
  assumes "history_wf history" "validateExecutionFrontier f history = None"
  shows "\<forall>c \<in> set f. distinct (map lf_Replica (cf_Lanes c))"
  using assms by (auto simp: validateExecutionFrontier_iff lanes_for_def history_wf_def dest!: bspec)
    (metis conf_wf_distinct)

lemma frontierCovers_iff:
  assumes "history_wf history" "validateExecutionFrontier f history = None"
  shows "frontierCovers f ref \<longleftrightarrow> (\<exists>t. (ref_Conf ref, ref_Replica ref, t) \<in> set (lanes f) \<and> ref_Instance ref \<le> t)"
  using frontierCovers_sound frontierCovers_complete [OF _ valid_frontier_distinct [OF assms]] assms(2)
  unfolding validateExecutionFrontier_iff by blast

section \<open>Fences\<close>

lemma laneFences_Some:
  "laneFences conf ls fences = Some rest \<Longrightarrow>
     \<exists>used. fences = used @ rest \<and>
       list_all2 (\<lambda>l f. fence_Conf f = conf \<and> fence_Replica f = lf_Replica l \<and> lf_Through l < fence_Next f) ls used"
proof (induction conf ls fences rule: laneFences.induct)
  case (3 conf l ls fence fences)
  then obtain m where m: "instanceSuccessor (lf_Through l) = Some m" "m \<le> fence_Next fence"
    and f: "fence_Conf fence = conf" "fence_Replica fence = lf_Replica l" and r: "laneFences conf ls fences = Some rest"
    by (auto split: option.splits if_splits)
  from m have "lf_Through l < fence_Next fence"
    using instanceSuccessor_Some [OF m(1)] by (simp add: word_less_nat_alt word_le_nat_alt)
  with 3(1) [OF m(1) _ r] f m show ?case by (fastforce intro: exI [of _ "fence # _"])
qed auto

lemma configFences_Some:
  "configFences f fences = Some [] \<Longrightarrow>
     list_all2 (\<lambda>(conf, replica, through) fence. fence_Conf fence = conf \<and> fence_Replica fence = replica \<and> through < fence_Next fence)
       (lanes f) fences"
proof (induction f arbitrary: fences)
  case (Cons c f)
  then obtain rest where r: "laneFences (cf_Conf c) (cf_Lanes c) fences = Some rest" "configFences f rest = Some []"
    by (auto split: option.splits)
  from laneFences_Some [OF r(1)] Cons.IH [OF r(2)] show ?case
    by (auto simp: list_all2_map1 intro!: list_all2_appendI)
qed simp

section \<open>Certificates\<close>

lemma checkAcknowledgements_iff:
  "checkAcknowledgements digest voters prev acks \<longleftrightarrow>
     ascending_from prev (map (\<lambda>a. vi_Replica (ack_Voter a)) acks) \<and>
     (\<forall>a \<in> set acks. ack_AttestedDigest a = digest \<and> ack_Voter a \<in> set voters)"
proof (induction acks arbitrary: prev)
  case (Cons a acks)
  show ?case
    unfolding list.map ascending_from_Cons checkAcknowledgements.simps Cons by (auto simp: list_ex_iff)
qed (simp split: option.split)

lemma sorted_sort_key_strict: "sorted_wrt (<) (map f (sort_key f xs)) \<longleftrightarrow> distinct (map f xs)"
  for f :: "'a \<Rightarrow> 'b::linorder"
  by (simp add: strict_sorted_iff) (rule mset_eq_imp_distinct_iff, simp)

lemma BuildCheckpointCertificate_eq:
  "BuildCheckpointCertificate H d acks =
     (if length acks = slowQuorumSize (length (conf_Voters (d_Conf d))) \<and>
         distinct (map (\<lambda>a. vi_Replica (ack_Voter a)) acks) \<and>
         (\<forall>a \<in> set acks. ack_AttestedDigest a = DigestCheckpointDescriptor H d \<and> ack_Voter a \<in> set (d_Voters d))
      then let c = \<lparr>crt_DescriptorDigest = DigestCheckpointDescriptor H d,
             crt_Acknowledgements = sort_key (\<lambda>a. vi_Replica (ack_Voter a)) acks, crt_Checksum = zero_digest\<rparr>
        in Inr (c\<lparr>crt_Checksum := DigestCheckpointCertificate H c\<rparr>)
      else Inl ErrInvalidCheckpoint)"
  by (auto simp: BuildCheckpointCertificate_def checkAcknowledgements_iff sorted_sort_key_strict Let_def)

lemma votersValid_iff:
  "length vs = length is \<Longrightarrow> votersValid prev vs is \<longleftrightarrow>
     map vi_Replica is = vs \<and> ascending_from prev vs \<and> list_all identity_valid is"
proof (induction prev vs "is" rule: votersValid.induct)
  case (1 prev v vs i "is")
  then show ?case unfolding list.map ascending_from_Cons by auto
qed (auto split: option.split)

text \<open>What an accepted, nonempty checkpoint guarantees.\<close>

definition checkpoint_accepted :: "(bytes \<Rightarrow> bytes) \<Rightarrow> Checkpoint \<Rightarrow> confHistory \<Rightarrow> bool" where
  "checkpoint_accepted H c history \<longleftrightarrow> (let d = cp_Descriptor c in
     d_ApplicationDigest d \<noteq> zero_digest \<and> \<not> ref_IsZero (d_Barrier d) \<and> d_BarrierTupleDigest d \<noteq> zero_digest \<and>
     d_ProtocolStateDigest d \<noteq> zero_digest \<and> deriveCheckpointID H (d_BarrierTupleDigest d) (d_Through d) = d_ID d \<and>
     cp_ApplicationSnapshot c \<noteq> [] \<and> length (cp_ApplicationSnapshot c) \<le> maxApplicationSnapshotHandle \<and>
     cp_Checksum c = DigestCheckpoint H c \<and>
     validateExecutionFrontier (d_Through d) history = None \<and>
     history (conf_ID (d_Conf d)) = Some (d_Conf d) \<and> ref_Conf (d_Barrier d) = conf_ID (d_Conf d) \<and>
     map vi_Replica (d_Voters d) = conf_Voters (d_Conf d) \<and> sorted_wrt (<) (conf_Voters (d_Conf d)) \<and>
     list_all identity_valid (d_Voters d) \<and>
     configFences (d_Through d) (d_AllocatorFences d) = Some [] \<and>
     d_ProtocolStateDigest d =
       checkpointProtocolStateDigest H history (d_Through d) (d_BarrierTupleDigest d) (d_AllocatorFences d) \<and>
     (cp_CompactedThrough c = [] \<or> \<not> frontierRegressesExecution (cp_CompactedThrough c) (d_Through d)) \<and>
     (certificate_Empty (cp_Certificate c) \<or>
      (\<exists>built. BuildCheckpointCertificate H d (crt_Acknowledgements (cp_Certificate c)) = Inr built \<and>
         crt_Checksum built = crt_Checksum (cp_Certificate c))))"

lemma votersValid_None:
  "length (d_Voters d) = length vs \<Longrightarrow> votersValid None vs (d_Voters d) \<longleftrightarrow>
     map vi_Replica (d_Voters d) = vs \<and> sorted_wrt (<) vs \<and> list_all identity_valid (d_Voters d)"
  using votersValid_iff [of vs "d_Voters d" None] by simp

lemma check_None:
  "(if b then Some e else r) = None \<longleftrightarrow> \<not> b \<and> r = None"
  "(if b then r else None) = None \<longleftrightarrow> (b \<longrightarrow> r = None)"
  "(if b then None else r) = None \<longleftrightarrow> b \<or> r = None"
  "(case x of None \<Rightarrow> r | Some e \<Rightarrow> Some e) = None \<longleftrightarrow> x = None \<and> r = None"
  "(case y of None \<Rightarrow> Some e | Some v \<Rightarrow> f v) = None \<longleftrightarrow> (\<exists>v. y = Some v \<and> f v = None)"
  "(case z of Inl u \<Rightarrow> Some e | Inr w \<Rightarrow> g w) = None \<longleftrightarrow> (\<exists>w. z = Inr w \<and> g w = None)"
  by (auto split: option.splits sum.splits)

lemma lookup_differs:
  "\<not> (case history i of None \<Rightarrow> True | Some conf \<Rightarrow> \<not> confStateEqual conf c) \<longleftrightarrow> history i = Some c"
  by (auto split: option.splits)

lemma ex_Some_Nil: "(\<exists>rest. x = Some rest \<and> rest = [] \<and> P) \<longleftrightarrow> x = Some [] \<and> P"
  by blast

lemma validateCheckpoint_iff:
  "validateCheckpoint H c history = None \<longleftrightarrow> checkpoint_Empty c \<or> checkpoint_accepted H c history"
proof (cases "length (d_Voters (cp_Descriptor c)) = length (conf_Voters (d_Conf (cp_Descriptor c)))")
  case True
  show ?thesis
    by (simp only: validateCheckpoint_def checkpoint_accepted_def Let_def check_None de_Morgan_disj lookup_differs
        votersValid_None [OF True] not_not not_less True length_0_conv not_False_eq_True simp_thms)
      (simp only: imp_conv_disj conj_assoc option.distinct simp_thms ex_Some_Nil not_not de_Morgan_conj)
next
  case False
  then have "map vi_Replica (d_Voters (cp_Descriptor c)) \<noteq> conf_Voters (d_Conf (cp_Descriptor c))"
    by (metis length_map)
  then show ?thesis
    by (simp only: validateCheckpoint_def checkpoint_accepted_def Let_def check_None False not_False_eq_True simp_thms)
qed

lemma certified_acknowledgements:
  assumes "validateCheckpoint H c history = None" "checkpointCertified c"
  shows "length (crt_Acknowledgements (cp_Certificate c)) = slowQuorumSize (length (d_Voters (cp_Descriptor c)))"
    and "distinct (map (\<lambda>a. vi_Replica (ack_Voter a)) (crt_Acknowledgements (cp_Certificate c)))"
    and "\<And>a. a \<in> set (crt_Acknowledgements (cp_Certificate c)) \<Longrightarrow>
      ack_AttestedDigest a = DigestCheckpointDescriptor H (cp_Descriptor c) \<and> ack_Voter a \<in> set (d_Voters (cp_Descriptor c))"
proof -
  have ne: "\<not> checkpoint_Empty c" "\<not> certificate_Empty (cp_Certificate c)"
    using assms(2) by (simp_all add: checkpointCertified_def)
  then have v: "checkpoint_accepted H c history" using assms(1) by (simp add: validateCheckpoint_iff)
  then have voters: "map vi_Replica (d_Voters (cp_Descriptor c)) = conf_Voters (d_Conf (cp_Descriptor c))"
    by (simp add: checkpoint_accepted_def Let_def)
  obtain built where "BuildCheckpointCertificate H (cp_Descriptor c) (crt_Acknowledgements (cp_Certificate c)) = Inr built"
    using v ne(2) by (auto simp: checkpoint_accepted_def Let_def)
  moreover have "length (d_Voters (cp_Descriptor c)) = length (conf_Voters (d_Conf (cp_Descriptor c)))"
    using arg_cong [OF voters, of length] by simp
  ultimately show "length (crt_Acknowledgements (cp_Certificate c)) = slowQuorumSize (length (d_Voters (cp_Descriptor c)))"
    "distinct (map (\<lambda>a. vi_Replica (ack_Voter a)) (crt_Acknowledgements (cp_Certificate c)))"
    "\<And>a. a \<in> set (crt_Acknowledgements (cp_Certificate c)) \<Longrightarrow>
      ack_AttestedDigest a = DigestCheckpointDescriptor H (cp_Descriptor c) \<and> ack_Voter a \<in> set (d_Voters (cp_Descriptor c))"
    by (auto simp: BuildCheckpointCertificate_eq split: if_splits)
qed

section \<open>The digests are injective on their inputs\<close>

interpretation lane_code: prefix_code writeLane "\<lambda>_. True"
  by unfold_locales (auto simp: writeLane_def code_cancels intro: ExecutionLaneFrontier.equality)

interpretation fence_code: prefix_code writeFence "\<lambda>_. True"
  by unfold_locales (auto simp: writeFence_def code_cancels intro: AllocatorFence.equality)

interpretation identity_code: prefix_code writeIdentity "\<lambda>_. True"
  by unfold_locales (auto simp: writeIdentity_def code_cancels intro: VoterIdentity.equality)

interpretation conf_code: prefix_code writeConf "\<lambda>c. sized (\<lambda>_. True) (conf_Voters c)"
  by unfold_locales (auto simp: writeConf_def code_cancels intro: ConfState.equality)

interpretation acknowledgement_code: prefix_code writeAcknowledgement "\<lambda>a. sized (\<lambda>_. True) (ack_AttestedDigest a)"
  by unfold_locales (auto simp: writeAcknowledgement_def code_cancels identity_code.cancel intro: VoterAcknowledgement.equality)

interpretation configFrontier_code: prefix_code writeConfigFrontier "\<lambda>c. sized (\<lambda>_. True) (cf_Lanes c)"
  by unfold_locales (auto simp: writeConfigFrontier_def code_cancels lane_code.writeAll_cancel intro: ExecutionConfigFrontier.equality)

lemmas checkpoint_cancels = code_cancels ref_code.cancel conf_code.cancel fence_code.writeAll_cancel
  identity_code.writeAll_cancel acknowledgement_code.writeAll_cancel configFrontier_code.writeAll_cancel

definition sized_frontier :: "ExecutionFrontier \<Rightarrow> bool" where
  "sized_frontier f \<longleftrightarrow> sized (\<lambda>c. sized (\<lambda>_. True) (cf_Lanes c)) f"

definition sized_checkpoint :: "Checkpoint \<Rightarrow> bool" where
  "sized_checkpoint c \<longleftrightarrow> (let d = cp_Descriptor c; cert = cp_Certificate c in
     sized (\<lambda>_. True) (d_ID d) \<and> sized (\<lambda>_. True) (d_Cluster d) \<and> sized (\<lambda>_. True) (conf_Voters (d_Conf d)) \<and>
     sized (\<lambda>_. True) (d_Voters d) \<and> sized (\<lambda>_. True) (d_BarrierTupleDigest d) \<and> sized_frontier (d_Through d) \<and>
     sized (\<lambda>_. True) (d_AllocatorFences d) \<and> sized (\<lambda>_. True) (d_ApplicationDigest d) \<and>
     sized (\<lambda>_. True) (d_ProtocolStateDigest d) \<and>
     sized (\<lambda>_. True) (crt_DescriptorDigest cert) \<and>
     sized (\<lambda>a. sized (\<lambda>_. True) (ack_AttestedDigest a)) (crt_Acknowledgements cert) \<and>
     sized (\<lambda>_. True) (cp_ApplicationSnapshot c) \<and> sized_frontier (cp_CompactedThrough c))"

text \<open>The byte strings the digest of a checkpoint hashes.\<close>

definition checkpointInputs :: "(bytes \<Rightarrow> bytes) \<Rightarrow> Checkpoint \<Rightarrow> bytes set" where
  "checkpointInputs H c =
     {frontierBytes ''epaxos/checkpoint-frontier/v1'' (d_Through (cp_Descriptor c)), descriptorBytes H (cp_Descriptor c),
      certificateBytes (cp_Certificate c), frontierBytes ''epaxos/checkpoint-compacted/v1'' (cp_CompactedThrough c),
      checkpointBytes H c}"

lemma frontierBytes_inject:
  assumes "sized_frontier f" "sized_frontier g" "frontierBytes tag f = frontierBytes tag g"
  shows "f = g"
  using assms configFrontier_code.writeAll_cancel [of f g "[]" "[]"] by (simp add: frontierBytes_def sized_frontier_def)

lemma digest_sized: "\<forall>x. length (H x) = 32 \<Longrightarrow> sized (\<lambda>_. True) (H x)"
  by (simp add: sized_def list_all_iff)

lemma descriptorBytes_inject:
  assumes "\<forall>x. length (H x) = 32" "sized_checkpoint c" "sized_checkpoint c'"
    and "descriptorBytes H (cp_Descriptor c) = descriptorBytes H (cp_Descriptor c')"
    and "inj_on H (checkpointInputs H c \<union> checkpointInputs H c')"
  shows "cp_Descriptor c = cp_Descriptor c'"
proof -
  let ?d = "cp_Descriptor c" and ?d' = "cp_Descriptor c'" and ?f = "''epaxos/checkpoint-frontier/v1''"
  have sz: "sized (\<lambda>_. True) (H x)" for x using digest_sized [OF assms(1)] .
  note s1 = assms(2) [unfolded sized_checkpoint_def Let_def] and s2 = assms(3) [unfolded sized_checkpoint_def Let_def]
  have eq: "d_ID ?d = d_ID ?d' \<and> d_Cluster ?d = d_Cluster ?d' \<and> d_Conf ?d = d_Conf ?d' \<and> d_Voters ?d = d_Voters ?d' \<and>
      d_Barrier ?d = d_Barrier ?d' \<and> d_BarrierTupleDigest ?d = d_BarrierTupleDigest ?d' \<and>
      H (frontierBytes ?f (d_Through ?d)) = H (frontierBytes ?f (d_Through ?d')) \<and>
      d_AllocatorFences ?d = d_AllocatorFences ?d' \<and> d_ApplicationDigest ?d = d_ApplicationDigest ?d' \<and>
      d_ProtocolStateDigest ?d = d_ProtocolStateDigest ?d'"
    using assms(4) by (simp only: descriptorBytes_def digestExecutionFrontier_def same_append_eq
        checkpoint_cancels bytes_code.inject s1 s2 sz conj_assoc simp_thms)
  moreover have "frontierBytes ?f (d_Through ?d) \<in> checkpointInputs H c" "frontierBytes ?f (d_Through ?d') \<in> checkpointInputs H c'"
    unfolding checkpointInputs_def by blast+
  ultimately have "frontierBytes ?f (d_Through ?d) = frontierBytes ?f (d_Through ?d')"
    using inj_onD [OF assms(5)] by blast
  then have "d_Through ?d = d_Through ?d'"
    using frontierBytes_inject assms(2,3) by (simp add: sized_checkpoint_def Let_def)
  with eq show ?thesis by (intro CheckpointDescriptor.equality) simp_all
qed

lemma certificateBytes_inject:
  assumes "sized_checkpoint c" "sized_checkpoint c'"
    and "certificateBytes (cp_Certificate c) = certificateBytes (cp_Certificate c')"
  shows "(cp_Certificate c)\<lparr>crt_Checksum := []\<rparr> = (cp_Certificate c')\<lparr>crt_Checksum := []\<rparr>"
proof -
  have "crt_DescriptorDigest (cp_Certificate c) = crt_DescriptorDigest (cp_Certificate c') \<and>
      crt_Acknowledgements (cp_Certificate c) = crt_Acknowledgements (cp_Certificate c')"
    using assms acknowledgement_code.writeAll_cancel [of "crt_Acknowledgements (cp_Certificate c)" "crt_Acknowledgements (cp_Certificate c')" "[]" "[]"]
    by (simp add: certificateBytes_def sized_checkpoint_def Let_def checkpoint_cancels)
  then show ?thesis by (intro CheckpointCertificate.equality) simp_all
qed

section \<open>Properties\<close>

text \<open>
  C7. Two certified checkpoints over the same voters share a witness: if the validator accepts
  both, some voter identity acknowledged the descriptor digest of one and of the other, so two
  different descriptors can only be certified when a voter attested both.
\<close>

theorem checkpoint_certificates_meet:
  assumes "validateCheckpoint H c history = None" "checkpointCertified c"
    and "validateCheckpoint H c' history' = None" "checkpointCertified c'"
    and "d_Voters (cp_Descriptor c') = d_Voters (cp_Descriptor c)"
  shows "\<exists>a \<in> set (crt_Acknowledgements (cp_Certificate c)). \<exists>b \<in> set (crt_Acknowledgements (cp_Certificate c')).
    ack_Voter a = ack_Voter b \<and> ack_Voter a \<in> set (d_Voters (cp_Descriptor c)) \<and>
    ack_AttestedDigest a = DigestCheckpointDescriptor H (cp_Descriptor c) \<and>
    ack_AttestedDigest b = DigestCheckpointDescriptor H (cp_Descriptor c')"
proof -
  let ?V = "d_Voters (cp_Descriptor c)"
  let ?A = "crt_Acknowledgements (cp_Certificate c)" and ?B = "crt_Acknowledgements (cp_Certificate c')"
  note a = certified_acknowledgements [OF assms(1,2)] and b = certified_acknowledgements [OF assms(3,4), unfolded assms(5)]
  have card: "card (ack_Voter ` set xs) = length xs" if "distinct (map (\<lambda>a. vi_Replica (ack_Voter a)) xs)" for xs
    using that distinct_card [of "map ack_Voter xs"] by (simp add: distinct_map comp_def inj_on_def)
  have "card (set ?V) \<le> length ?V" by (rule card_length)
  moreover have "ack_Voter ` set ?A \<union> ack_Voter ` set ?B \<subseteq> set ?V" using a(3) b(3) by auto
  moreover have "length ?V < card (ack_Voter ` set ?A) + card (ack_Voter ` set ?B)"
    using a(1,2) b(1,2) by (simp add: card slowQuorumSize_overlap)
  ultimately have "ack_Voter ` set ?A \<inter> ack_Voter ` set ?B \<noteq> {}"
    using card_Un_disjoint [of "ack_Voter ` set ?A" "ack_Voter ` set ?B"] card_mono [of "set ?V" "ack_Voter ` set ?A \<union> ack_Voter ` set ?B"]
    by fastforce
  then obtain x y where "x \<in> set ?A" "y \<in> set ?B" "ack_Voter x = ack_Voter y" by auto
  then show ?thesis using a(3) [of x] b(3) [of y] by blast
qed

text \<open>A hash for the examples, and a certified checkpoint of one voter under it.\<close>

definition sample_hash :: "bytes \<Rightarrow> bytes" where
  "sample_hash _ = replicate 32 1"

definition sample_history :: confHistory where
  "sample_history = [1 \<mapsto> \<lparr>conf_ID = 1, conf_Voters = [1]\<rparr>]"

definition sample_checkpoint :: Checkpoint where
  "sample_checkpoint =
     \<lparr>cp_Descriptor = \<lparr>d_ID = replicate 32 1, d_Cluster = zero_digest, d_Conf = \<lparr>conf_ID = 1, conf_Voters = [1]\<rparr>,
        d_Voters = [\<lparr>vi_Replica = 1, vi_Incarnation = 1\<rparr>], d_Barrier = InstanceRef 1 3 1,
        d_BarrierTupleDigest = replicate 32 1, d_Through = [\<lparr>cf_Conf = 1, cf_Lanes = [\<lparr>lf_Replica = 1, lf_Through = 3\<rparr>]\<rparr>],
        d_AllocatorFences = [\<lparr>fence_Conf = 1, fence_Replica = 1, fence_Next = 7\<rparr>],
        d_ApplicationDigest = replicate 32 1, d_ProtocolStateDigest = replicate 32 1\<rparr>,
      cp_Certificate = \<lparr>crt_DescriptorDigest = replicate 32 1,
        crt_Acknowledgements = [\<lparr>ack_Voter = \<lparr>vi_Replica = 1, vi_Incarnation = 1\<rparr>, ack_AttestedDigest = replicate 32 1\<rparr>],
        crt_Checksum = replicate 32 1\<rparr>,
      cp_ApplicationSnapshot = [0], cp_CompactedThrough = [], cp_Checksum = replicate 32 1\<rparr>"

lemma sample_checkpoint_valid:
  "validateCheckpoint sample_hash sample_checkpoint sample_history = None" "checkpointCertified sample_checkpoint"
  by (simp_all add: validateCheckpoint_iff checkpoint_accepted_def sample_checkpoint_def sample_hash_def sample_history_def
      checkpointCertified_def checkpoint_Empty_def certificate_Empty_def zero_digest_def deriveCheckpointID_def
      DigestCheckpoint_def maxApplicationSnapshotHandle_def validateExecutionFrontier_iff lanes_for_def
      identity_valid_def instanceSuccessor_def checkpointProtocolStateDigest_def Let_def BuildCheckpointCertificate_eq
      slowQuorumSize_def DigestCheckpointDescriptor_def DigestCheckpointCertificate_def)

theorem checkpoint_certificates_meet_witness:
  "\<exists>a \<in> set (crt_Acknowledgements (cp_Certificate sample_checkpoint)).
     ack_AttestedDigest a = DigestCheckpointDescriptor sample_hash (cp_Descriptor sample_checkpoint)"
  using checkpoint_certificates_meet [OF sample_checkpoint_valid sample_checkpoint_valid refl] by blast

text \<open>
  C21. A certified checkpoint separates what may be dropped from what may be allocated: an
  instance lies in one of the compaction ranges exactly if the frontier covers it, and no
  instance at or beyond the fence of its lane is covered.
\<close>

theorem checkpoint_compaction_fenced:
  assumes "history_wf history" "validateCheckpoint H c history = None" "checkpointCertified c" "ref_Instance ref \<noteq> 0"
  shows "((\<exists>r \<in> set (canonicalCompactionRanges c).
       cr_Conf r = ref_Conf ref \<and> cr_Replica r = ref_Replica ref \<and> ref_Instance ref \<le> cr_Through r) \<longleftrightarrow>
     frontierCovers (d_Through (cp_Descriptor c)) ref) \<and>
    (\<forall>fence \<in> set (d_AllocatorFences (cp_Descriptor c)).
       fence_Conf fence = ref_Conf ref \<and> fence_Replica fence = ref_Replica ref \<and> fence_Next fence \<le> ref_Instance ref \<longrightarrow>
         \<not> frontierCovers (d_Through (cp_Descriptor c)) ref)"
proof -
  have acc: "checkpoint_accepted H c history" using assms(2,3) by (auto simp: validateCheckpoint_iff checkpointCertified_def)
  then have v: "validateExecutionFrontier (d_Through (cp_Descriptor c)) history = None"
    and f: "configFences (d_Through (cp_Descriptor c)) (d_AllocatorFences (cp_Descriptor c)) = Some []"
    by (simp_all add: checkpoint_accepted_def Let_def)
  note covers = frontierCovers_iff [OF assms(1) v, of ref]
  have "\<not> frontierCovers (d_Through (cp_Descriptor c)) ref"
    if fence: "fence \<in> set (d_AllocatorFences (cp_Descriptor c))" "fence_Conf fence = ref_Conf ref"
      "fence_Replica fence = ref_Replica ref" "fence_Next fence \<le> ref_Instance ref" for fence
  proof -
    obtain t where t: "(ref_Conf ref, ref_Replica ref, t) \<in> set (lanes (d_Through (cp_Descriptor c)))" "t < fence_Next fence"
      using configFences_Some [OF f] fence by (fastforce simp: list_all2_conv_all_nth in_set_conv_nth)
    from frontierCovers_complete [OF _ valid_frontier_distinct [OF assms(1) v] t(1)]
    show ?thesis using v fence(4) t(2) by (simp add: validateExecutionFrontier_iff)
  qed
  moreover have "(\<exists>r \<in> set (canonicalCompactionRanges c).
       cr_Conf r = ref_Conf ref \<and> cr_Replica r = ref_Replica ref \<and> ref_Instance ref \<le> cr_Through r) \<longleftrightarrow>
     (\<exists>t. (ref_Conf ref, ref_Replica ref, t) \<in> set (lanes (d_Through (cp_Descriptor c))) \<and> ref_Instance ref \<le> t)"
    using assms(3,4) by (fastforce simp: canonicalCompactionRanges_def lanes_member)
  ultimately show ?thesis unfolding covers by blast
qed

theorem checkpoint_compaction_fenced_witness:
  "frontierCovers (d_Through (cp_Descriptor sample_checkpoint)) (InstanceRef 1 2 1) \<and>
   \<not> frontierCovers (d_Through (cp_Descriptor sample_checkpoint)) (InstanceRef 1 9 1)"
proof -
  have h: "history_wf sample_history" by (simp add: history_wf_def sample_history_def conf_wf_def)
  from checkpoint_compaction_fenced [OF h sample_checkpoint_valid, of "InstanceRef 1 2 1"]
    checkpoint_compaction_fenced [OF h sample_checkpoint_valid, of "InstanceRef 1 9 1"]
  show ?thesis using sample_checkpoint_valid(2) by (simp add: canonicalCompactionRanges_def sample_checkpoint_def)
qed

text \<open>
  C34. \<^verbatim>\<open>BuildCheckpointCertificate\<close> accepts exactly a majority of distinct known voters that all
  attest the digest of the descriptor, and the order in which their votes arrived does not
  matter: the certificate lists them by replica.
\<close>

theorem certificate_build_correct:
  assumes "mset acks' = mset acks"
  shows "BuildCheckpointCertificate H d acks' =
      (if length acks = slowQuorumSize (length (conf_Voters (d_Conf d))) \<and>
          distinct (map (\<lambda>a. vi_Replica (ack_Voter a)) acks) \<and>
          (\<forall>a \<in> set acks. ack_AttestedDigest a = DigestCheckpointDescriptor H d \<and> ack_Voter a \<in> set (d_Voters d))
       then let c = \<lparr>crt_DescriptorDigest = DigestCheckpointDescriptor H d,
              crt_Acknowledgements = sort_key (\<lambda>a. vi_Replica (ack_Voter a)) acks, crt_Checksum = zero_digest\<rparr>
         in Inr (c\<lparr>crt_Checksum := DigestCheckpointCertificate H c\<rparr>)
       else Inl ErrInvalidCheckpoint)"
proof -
  let ?f = "\<lambda>a. vi_Replica (ack_Voter a)"
  have same: "length acks' = length acks" "set acks' = set acks"
    using mset_eq_length [OF assms] mset_eq_setD [OF assms] by simp_all
  have d: "distinct (map ?f acks') = distinct (map ?f acks)"
    by (rule mset_eq_imp_distinct_iff) (simp add: assms)
  have "sort_key ?f acks' = sort_key ?f acks" if "distinct (map ?f acks)"
    using that assms same(2) by (intro sort_key_inj_key_eq) (simp_all add: distinct_map)
  then show ?thesis unfolding BuildCheckpointCertificate_eq [of H d acks'] same d by (auto simp: Let_def)
qed

theorem certificate_build_correct_witness:
  "BuildCheckpointCertificate sample_hash (cp_Descriptor sample_checkpoint) [] = Inl ErrInvalidCheckpoint"
  using certificate_build_correct [OF refl, of sample_hash "cp_Descriptor sample_checkpoint" "[]"]
  by (simp add: sample_checkpoint_def slowQuorumSize_def)

text \<open>A hash that tells apart byte strings of different length, for the example below.\<close>

definition length_hash :: "bytes \<Rightarrow> bytes" where
  "length_hash x = writeUint64 (of_nat (length x)) @ replicate 24 0"

lemma length_hash_length [simp]: "length (length_hash x) = 32"
  by (simp add: length_hash_def)

lemma length_hash_inj:
  "(\<And>x y. x \<in> S \<Longrightarrow> y \<in> S \<Longrightarrow> length x = length y \<Longrightarrow> x = y) \<Longrightarrow> (\<And>x. x \<in> S \<Longrightarrow> length x < 2 ^ 64) \<Longrightarrow> inj_on length_hash S"
  by (rule inj_onI) (simp add: length_hash_def of_nat_u64_inject)

lemma sample_lengths:
  "length (frontierBytes ''epaxos/checkpoint-frontier/v1'' (d_Through (cp_Descriptor sample_checkpoint))) = 77"
  "length (frontierBytes ''epaxos/checkpoint-compacted/v1'' (cp_CompactedThrough sample_checkpoint)) = 46"
  "length (certificateBytes (cp_Certificate sample_checkpoint)) = 144"
  "length (descriptorBytes length_hash (cp_Descriptor sample_checkpoint)) = 383"
  "length (checkpointBytes length_hash sample_checkpoint) = 163"
  "length (checkpointBytes length_hash (sample_checkpoint\<lparr>cp_ApplicationSnapshot := [1, 1]\<rparr>)) = 164"
  by (simp_all add: frontierBytes_def certificateBytes_def descriptorBytes_def checkpointBytes_def writeBytes_def domain_def
      writeAll_def writeConfigFrontier_def writeLane_def writeAcknowledgement_def writeIdentity_def writeFence_def
      writeConf_def writeRef_def sample_checkpoint_def digestExecutionFrontier_def DigestCheckpointDescriptor_def
      DigestCheckpointCertificate_def zero_digest_def)

text \<open>
  C24. The checkpoint digest authenticates the whole checkpoint: if two checkpoints have the same
  digest and the hash does not collide on the ten byte strings hashed for them, they agree on
  every field except the two stored checksums.
\<close>

theorem DigestCheckpoint_authenticates:
  assumes "\<forall>x. length (H x) = 32" "sized_checkpoint c" "sized_checkpoint c'"
    and "inj_on H (checkpointInputs H c \<union> checkpointInputs H c')"
    and "DigestCheckpoint H c = DigestCheckpoint H c'"
  shows "c\<lparr>cp_Checksum := [], cp_Certificate := (cp_Certificate c)\<lparr>crt_Checksum := []\<rparr>\<rparr> =
    c'\<lparr>cp_Checksum := [], cp_Certificate := (cp_Certificate c')\<lparr>crt_Checksum := []\<rparr>\<rparr>"
proof -
  let ?k = "''epaxos/checkpoint-compacted/v1''"
  have inj: "H x = H y \<longleftrightarrow> x = y" if "x \<in> checkpointInputs H c" "y \<in> checkpointInputs H c'" for x y
    using inj_onD [OF assms(4), of x y] that by blast
  have mem: "descriptorBytes H (cp_Descriptor x) \<in> checkpointInputs H x" "certificateBytes (cp_Certificate x) \<in> checkpointInputs H x"
    "frontierBytes ?k (cp_CompactedThrough x) \<in> checkpointInputs H x" "checkpointBytes H x \<in> checkpointInputs H x" for x
    unfolding checkpointInputs_def by blast+
  have sz: "sized (\<lambda>_. True) (H x)" for x using digest_sized [OF assms(1)] .
  note s1 = assms(2) [unfolded sized_checkpoint_def Let_def] and s2 = assms(3) [unfolded sized_checkpoint_def Let_def]
  have "checkpointBytes H c = checkpointBytes H c'" using assms(5) inj [OF mem(4) mem(4)] by (simp only: DigestCheckpoint_def)
  then have eq: "descriptorBytes H (cp_Descriptor c) = descriptorBytes H (cp_Descriptor c') \<and>
      certificateBytes (cp_Certificate c) = certificateBytes (cp_Certificate c') \<and>
      cp_ApplicationSnapshot c = cp_ApplicationSnapshot c' \<and>
      frontierBytes ?k (cp_CompactedThrough c) = frontierBytes ?k (cp_CompactedThrough c')"
    by (simp only: checkpointBytes_def DigestCheckpointDescriptor_def DigestCheckpointCertificate_def
        digestExecutionFrontier_def same_append_eq checkpoint_cancels bytes_code.inject s1 s2 sz conj_assoc simp_thms
        inj [OF mem(1) mem(1)] inj [OF mem(2) mem(2)] inj [OF mem(3) mem(3)])
  then have "cp_Descriptor c = cp_Descriptor c'" using descriptorBytes_inject [OF assms(1-3) _ assms(4)] by blast
  moreover have "(cp_Certificate c)\<lparr>crt_Checksum := []\<rparr> = (cp_Certificate c')\<lparr>crt_Checksum := []\<rparr>"
    using certificateBytes_inject [OF assms(2,3)] eq by blast
  moreover have "cp_CompactedThrough c = cp_CompactedThrough c'" using frontierBytes_inject s1 s2 eq by blast
  ultimately show ?thesis using eq by (intro Checkpoint.equality) simp_all
qed

theorem DigestCheckpoint_authenticates_witness:
  "DigestCheckpoint length_hash sample_checkpoint \<noteq> DigestCheckpoint length_hash (sample_checkpoint\<lparr>cp_ApplicationSnapshot := [1, 1]\<rparr>)"
proof
  let ?H = length_hash and ?c = sample_checkpoint
  let ?c' = "sample_checkpoint\<lparr>cp_ApplicationSnapshot := [1, 1]\<rparr>"
  assume eq: "DigestCheckpoint ?H ?c = DigestCheckpoint ?H ?c'"
  have "inj_on ?H (checkpointInputs ?H ?c \<union> checkpointInputs ?H ?c')"
    by (rule length_hash_inj) (auto simp: checkpointInputs_def sample_lengths)
  moreover have "sized_checkpoint ?c" "sized_checkpoint ?c'"
    by (simp_all add: sized_checkpoint_def sized_frontier_def sized_def sample_checkpoint_def list_all_iff zero_digest_def)
  ultimately show False
    using DigestCheckpoint_authenticates [of ?H ?c ?c'] eq by (simp add: sample_checkpoint_def)
qed

text \<open>
  C35. The validator does not look at the descriptor digest a certificate names: an accepted
  certified checkpoint is still accepted after that digest is replaced by any other value and
  the outer checksum is recomputed, although the certificate then claims to attest a
  descriptor that it does not.
\<close>

theorem certificate_digest_unchecked:
  assumes "validateCheckpoint H c history = None" "checkpointCertified c"
    and "c' = c\<lparr>cp_Certificate := (cp_Certificate c)\<lparr>crt_DescriptorDigest := x\<rparr>\<rparr>"
  shows "validateCheckpoint H (c'\<lparr>cp_Checksum := DigestCheckpoint H c'\<rparr>) history = None"
proof -
  have ne: "\<not> checkpoint_Empty c" "\<not> certificate_Empty (cp_Certificate c)"
    using assms(2) by (simp_all add: checkpointCertified_def)
  then have acc: "checkpoint_accepted H c history" using assms(1) by (simp add: validateCheckpoint_iff)
  have "DigestCheckpoint H (y\<lparr>cp_Checksum := z\<rparr>) = DigestCheckpoint H y" for y z
    by (simp add: DigestCheckpoint_def checkpointBytes_def)
  then have "checkpoint_accepted H (c'\<lparr>cp_Checksum := DigestCheckpoint H c'\<rparr>) history"
    using acc ne(2) unfolding checkpoint_accepted_def Let_def assms(3) by (simp, metis)
  then show ?thesis by (simp add: validateCheckpoint_iff)
qed

theorem certificate_digest_unchecked_witness:
  "let c' = sample_checkpoint\<lparr>cp_Certificate := (cp_Certificate sample_checkpoint)\<lparr>crt_DescriptorDigest := replicate 32 7\<rparr>\<rparr>
   in validateCheckpoint sample_hash (c'\<lparr>cp_Checksum := DigestCheckpoint sample_hash c'\<rparr>) sample_history = None"
  unfolding Let_def using certificate_digest_unchecked [OF sample_checkpoint_valid refl] .


definition sample_wire :: checkpointControlWire where
  "sample_wire = \<lparr>w_Version = 1, w_Type = checkpointControlOffer, w_Descriptor = cp_Descriptor sample_checkpoint,
     w_Vote = hd (crt_Acknowledgements (cp_Certificate sample_checkpoint)), w_Checkpoint = sample_checkpoint\<rparr>"

definition sample_offer :: Message where
  "sample_offer = zero_message\<lparr>m_Type := MsgCheckpointOffer, m_Kind := EntryCheckpoint, m_ProtocolControl := [1]\<rparr>"


end
