(* ===== verification/Validate.thy ===== *)
theory Validate
  imports Checkpoints
begin

text \<open>
  The envelope checks of \<^verbatim>\<open>Message.Validate\<close> in \<^verbatim>\<open>epaxos/message.go\<close>, in the order of the source.
  The function is one long sequence of early returns; here each group of checks is a
  definition returning \<open>None\<close> to go on or the error to return, and \<^verbatim>\<open>Validate\<close> runs them in
  order. The theorems say what a message that passes guarantees to the handlers, and which
  errors the function can return.
\<close>

section \<open>Sequences of checks\<close>

definition invalid_if :: "bool \<Rightarrow> error option" where
  "invalid_if b = (if b then Some ErrInvalidMessage else None)"

fun first_error :: "error option list \<Rightarrow> error option" where
  "first_error [] = None"
| "first_error (None # checks) = first_error checks"
| "first_error (Some e # checks) = Some e"

section \<open>The checks\<close>

fun votersAscending :: "ReplicaID option \<Rightarrow> ReplicaID list \<Rightarrow> bool" where
  "votersAscending prev [] = True"
| "votersAscending prev (v # vs) =
     (if v = 0 \<or> (case prev of None \<Rightarrow> False | Some p \<Rightarrow> p \<ge> v) then False else votersAscending (Some v) vs)"

definition validateAddress :: "Message \<Rightarrow> ConfState \<Rightarrow> error option" where
  "validateAddress m conf =
     (if m_Type m < MsgPreAccept \<or> m_Type m > MsgCheckpointOffer then Some ErrInvalidMessage
      else if length (conf_Voters conf) = 0 \<or> length (conf_Voters conf) > 7 then Some ErrInvalidMessage
      else if \<not> votersAscending None (conf_Voters conf) then Some ErrInvalidMessage
      else if conf_ID conf = 0 \<or> ref_Replica (m_Ref m) = 0 \<or> ref_Instance (m_Ref m) = 0 \<or>
        ref_Conf (m_Ref m) = 0 \<or> ref_Conf (m_Ref m) \<noteq> conf_ID conf
      then Some ErrInvalidMessage
      else if m_From m = 0 \<or> m_To m = 0 then Some ErrInvalidMessage
      else if \<not> conf_Contains conf (m_From m) \<or> \<not> conf_Contains conf (m_To m) \<or>
        \<not> conf_Contains conf (ref_Replica (m_Ref m))
      then Some ErrMessageRejected
      else None)"

definition validBallot :: "ConfState \<Rightarrow> Ballot \<Rightarrow> bool" where
  "validBallot conf b \<longleftrightarrow> b = zero_ballot \<or> (bal_Replica b \<noteq> 0 \<and> conf_Contains conf (bal_Replica b))"

definition validateValue :: "Message \<Rightarrow> ConfState \<Rightarrow> error option" where
  "validateValue m conf = first_error [
     invalid_if (m_Kind m > EntryCheckpoint \<or> m_RecordStatus m > StatusExecuted \<or>
       m_ConflictStatus m > StatusExecuted \<or> m_RejectReason m > RejectAcceptedTarget),
     invalid_if (\<not> entryValueCanonical (m_Kind m) (m_Command m) (m_ConfChange m) (m_ProtocolControl m)),
     invalid_if (m_Kind m = EntryNoop \<and> (m_ProcessAt m \<noteq> 0 \<or> m_TOQ m)),
     invalid_if (\<not> validBallot conf (m_Ballot m) \<or> \<not> validBallot conf (m_RecordBallot m) \<or>
       \<not> validBallot conf (m_RejectHint m)),
     invalid_if (m_Type m \<noteq> MsgEvidenceResp \<and> m_Ballot m \<noteq> zero_ballot \<and> m_RecordBallot m \<noteq> zero_ballot \<and>
       ballot_Less (m_Ballot m) (m_RecordBallot m)),
     invalid_if (m_Ballot m = zero_ballot)]"

definition validateSender :: "Message \<Rightarrow> error option" where
  "validateSender m =
     (if m_Type m = MsgPreAccept then
        (if ballot_IsInitialFor (m_Ballot m) (ref_Replica (m_Ref m)) then invalid_if (m_From m \<noteq> ref_Replica (m_Ref m))
         else invalid_if (\<not> ballot_IsRecovery (m_Ballot m) \<or> m_From m \<noteq> bal_Replica (m_Ballot m)))
      else if m_Type m \<in> {MsgAccept, MsgPrepare, MsgTryPreAccept, MsgEvidence} then
        invalid_if (m_From m \<noteq> bal_Replica (m_Ballot m))
      else None)"

definition validRef :: "ConfState \<Rightarrow> InstanceRef \<Rightarrow> bool" where
  "validRef conf ref \<longleftrightarrow> ref_Replica ref \<noteq> 0 \<and> ref_Instance ref \<noteq> 0 \<and> ref_Conf ref = conf_ID conf \<and>
     conf_Contains conf (ref_Replica ref)"

definition conflictPresent :: "Message \<Rightarrow> bool" where
  "conflictPresent m \<longleftrightarrow> m_ConflictRef m \<noteq> zero_ref"

definition validateRefs :: "Message \<Rightarrow> ConfState \<Rightarrow> error option" where
  "validateRefs m conf = first_error [
     invalid_if (conflictPresent m \<and> \<not> validRef conf (m_ConflictRef m)),
     (if m_Type m = MsgEvidence \<or> m_Type m = MsgEvidenceResp then invalid_if (\<not> conflictPresent m)
      else invalid_if (conflictPresent m \<and> (m_Type m \<noteq> MsgTryPreAcceptResp \<or> \<not> m_Reject m))),
     (if m_IgnoreDependency m \<noteq> zero_ref then
        invalid_if (m_Type m \<noteq> MsgTryPreAccept \<or> m_Reject m \<or> \<not> validRef conf (m_IgnoreDependency m))
      else None)]"

definition isResponse :: "Message \<Rightarrow> bool" where
  "isResponse m \<longleftrightarrow> m_Type m = MsgPreAcceptResp \<or> m_Type m = MsgAcceptResp \<or> m_Type m = MsgPrepareResp \<or>
     m_Type m = MsgTryPreAcceptResp \<or> m_Type m = MsgEvidenceResp"

definition validateRejectReason :: "Message \<Rightarrow> error option" where
  "validateRejectReason m =
     (if m_Reject m then first_error [
        invalid_if (\<not> isResponse m \<or> m_Type m = MsgEvidenceResp),
        (if m_Type m \<noteq> MsgTryPreAcceptResp then
           invalid_if (m_RejectReason m \<noteq> RejectNone \<or> conflictPresent m \<or> m_ConflictStatus m \<noteq> StatusNone)
         else if m_RejectReason m = RejectNone \<or> m_RejectReason m = RejectStaleBallot then
           invalid_if (m_RejectHint m = zero_ballot \<or> conflictPresent m \<or> m_ConflictStatus m \<noteq> StatusNone)
         else if m_RejectReason m = RejectCommittedConflict then
           invalid_if (\<not> conflictPresent m \<or> m_ConflictStatus m < StatusCommitted \<or> m_RejectHint m \<noteq> zero_ballot)
         else if m_RejectReason m = RejectUncommittedConflict then
           invalid_if (\<not> conflictPresent m \<or>
             (m_ConflictStatus m \<noteq> StatusPreAccepted \<and> m_ConflictStatus m \<noteq> StatusAccepted) \<or> m_RejectHint m \<noteq> zero_ballot)
         else if m_RejectReason m = RejectAcceptedTarget then
           invalid_if (conflictPresent m \<or> m_ConflictStatus m \<noteq> StatusNone \<or> m_RejectHint m \<noteq> zero_ballot)
         else Some ErrInvalidMessage)]
      else invalid_if (m_RejectReason m \<noteq> RejectNone \<or> m_RejectHint m \<noteq> zero_ballot \<or>
        (m_Type m \<noteq> MsgEvidence \<and> m_Type m \<noteq> MsgEvidenceResp \<and> m_ConflictStatus m \<noteq> StatusNone)))"

definition validateTOQ :: "Message \<Rightarrow> error option" where
  "validateTOQ m =
     (if m_TOQ m then
        (if m_Type m = MsgPreAccept \<and> ballot_IsInitialFor (m_Ballot m) (ref_Replica (m_Ref m)) then
           invalid_if (m_From m \<noteq> ref_Replica (m_Ref m) \<or> m_RecordBallot m \<noteq> zero_ballot \<or> m_RecordStatus m \<noteq> StatusNone)
         else if m_Type m \<in> {MsgAccept, MsgCommit, MsgPrepareResp, MsgTryPreAccept, MsgEvidenceResp} then None
         else if m_Type m = MsgTryPreAcceptResp then
           invalid_if (\<not> m_Reject m \<or> m_RejectReason m \<noteq> RejectAcceptedTarget)
         else Some ErrInvalidMessage)
      else None)"

definition validateAttributes :: "Message \<Rightarrow> ConfState \<Rightarrow> error option" where
  "validateAttributes m conf =
     (if \<not> m_Reject m then first_error [
        (if m_Type m \<in> {MsgPreAccept, MsgPreAcceptResp, MsgAccept, MsgCommit, MsgPrepareResp, MsgTryPreAccept,
             MsgTryPreAcceptResp, MsgEvidenceResp} then
           (if m_Type m = MsgPreAccept \<and> m_TOQ m \<and> ballot_IsInitialFor (m_Ballot m) (ref_Replica (m_Ref m))
            then invalid_if (m_Seq m \<noteq> 0 \<or> length (m_Deps m) \<noteq> 0)
            else invalid_if (length (m_Deps m) \<noteq> length (conf_Voters conf)))
         else None),
        (if m_Type m = MsgPreAccept then invalid_if (\<not> m_TOQ m \<and> m_Seq m = 0)
         else if m_Type m \<in> {MsgAccept, MsgCommit, MsgTryPreAccept} then invalid_if (m_Seq m = 0)
         else if m_Type m = MsgPreAcceptResp then invalid_if (m_Seq m = 0)
         else if m_Type m = MsgTryPreAcceptResp then invalid_if (m_Seq m = 0 \<or> m_RecordStatus m \<noteq> StatusPreAccepted)
         else if m_Type m \<in> {MsgPrepareResp, MsgEvidenceResp} then
           invalid_if (m_RecordStatus m \<ge> StatusPreAccepted \<and> m_Seq m = 0)
         else None)]
      else None)"

text \<open>
  The loop over the accept evidence: an entry of a sender that was seen before must repeat what
  that sender said. The arrays of seven elements are functions of the voter's position.
\<close>

fun evidenceConsistent ::
    "ConfState \<Rightarrow> u64 \<Rightarrow> (nat \<Rightarrow> u64) \<Rightarrow> (nat \<Rightarrow> InstanceNum list) \<Rightarrow> AcceptEvidence list \<Rightarrow> bool" where
  "evidenceConsistent conf seen seqs deps [] = True"
| "evidenceConsistent conf seen seqs deps (ev # evs) =
     (let (index, ok) = conf_Index conf (ev_Sender ev) in
      if \<not> ok \<or> ev_Seq ev = 0 \<or> length (ev_Deps ev) \<noteq> length (conf_Voters conf) then False
      else
        let b = push_bit index 1 in
        if seen AND b \<noteq> 0 then
          (if seqs index \<noteq> ev_Seq ev \<or> \<not> instanceNumsEqual (deps index) (ev_Deps ev) then False
           else evidenceConsistent conf seen seqs deps evs)
        else evidenceConsistent conf (seen OR b) (seqs(index := ev_Seq ev)) (deps(index := ev_Deps ev)) evs)"

definition hasAcceptMetadata :: "Message \<Rightarrow> bool" where
  "hasAcceptMetadata m \<longleftrightarrow> m_AcceptSeq m \<noteq> 0 \<or> length (m_AcceptDeps m) \<noteq> 0 \<or> length (m_AcceptEvidence m) \<noteq> 0"

definition validateAcceptEvidence :: "Message \<Rightarrow> ConfState \<Rightarrow> error option" where
  "validateAcceptEvidence m conf = first_error [
     invalid_if ((m_AcceptSeq m = 0) \<noteq> (length (m_AcceptDeps m) = 0)),
     invalid_if (length (m_AcceptDeps m) > 0 \<and> length (m_AcceptDeps m) \<noteq> length (conf_Voters conf)),
     invalid_if (length (m_AcceptEvidence m) > length (conf_Voters conf)),
     (if length (m_AcceptEvidence m) > 0 then first_error [
        (if m_Type m \<in> {MsgAccept, MsgAcceptResp, MsgCommit, MsgPrepareResp, MsgEvidenceResp} then None
         else if m_Type m = MsgTryPreAcceptResp then invalid_if (\<not> m_Reject m \<or> m_RejectReason m \<noteq> RejectAcceptedTarget)
         else Some ErrInvalidMessage),
        invalid_if (\<not> evidenceConsistent conf 0 (\<lambda>_. 0) (\<lambda>_. []) (m_AcceptEvidence m))]
      else None),
     (if m_Type m \<in> {MsgAccept, MsgAcceptResp, MsgCommit, MsgPrepareResp, MsgEvidenceResp} then None
      else if m_Type m = MsgTryPreAcceptResp then
        invalid_if (hasAcceptMetadata m \<and> (\<not> m_Reject m \<or> m_RejectReason m \<noteq> RejectAcceptedTarget))
      else invalid_if (hasAcceptMetadata m)),
     invalid_if ((m_Type m = MsgPrepareResp \<or> m_Type m = MsgEvidenceResp) \<and> m_RecordStatus m < StatusAccepted \<and>
       hasAcceptMetadata m)]"

definition validateFlags :: "Message \<Rightarrow> error option" where
  "validateFlags m = first_error [
     (if m_ProcessAt m \<noteq> 0 then
        (if m_Type m \<in> {MsgPreAccept, MsgAccept, MsgCommit, MsgPrepareResp, MsgTryPreAccept, MsgTryPreAcceptResp,
             MsgEvidenceResp}
         then None else Some ErrInvalidMessage)
      else None),
     (if m_FastPathEligible m then
        (if m_Type m = MsgPreAcceptResp then invalid_if (m_Reject m \<or> m_RecordStatus m \<noteq> StatusNone)
         else if m_Type m \<in> {MsgPrepareResp, MsgEvidenceResp} then
           invalid_if (m_Reject m \<or> m_RecordStatus m \<noteq> StatusPreAccepted \<or>
             m_RecordBallot m \<noteq> Ballot 0 0 (ref_Replica (m_Ref m)))
         else Some ErrInvalidMessage)
      else None),
     invalid_if (m_DepsCommitted m \<noteq> 0 \<and> (m_Type m \<noteq> MsgPreAcceptResp \<or> m_Reject m \<or> m_RecordStatus m \<noteq> StatusNone))]"

definition msgCommandEmpty :: "Message \<Rightarrow> bool" where
  "msgCommandEmpty m \<longleftrightarrow> m_Kind m = 0 \<and> commandEmpty (m_Command m) \<and> m_ConfChange m = zero_confChange \<and>
     length (m_ProtocolControl m) = 0"

definition depsAllZero :: "Message \<Rightarrow> bool" where
  "depsAllZero m \<longleftrightarrow> list_all (\<lambda>dep. dep = 0) (m_Deps m)"

definition validateRejectBody :: "Message \<Rightarrow> ConfState \<Rightarrow> error option" where
  "validateRejectBody m conf =
     (let timedAcceptedTarget = (m_Type m = MsgTryPreAcceptResp \<and> m_RejectReason m = RejectAcceptedTarget) in
      if m_FastPathEligible m \<or> m_DepsCommitted m \<noteq> 0 \<or> (\<not> timedAcceptedTarget \<and> (m_ProcessAt m \<noteq> 0 \<or> m_TOQ m)) \<or>
         m_IgnoreDependency m \<noteq> zero_ref
      then Some ErrInvalidMessage
      else if m_Type m = MsgTryPreAcceptResp \<and> m_RejectReason m = RejectAcceptedTarget then
        invalid_if (\<not> ballot_IsRecovery (m_Ballot m) \<or> m_To m \<noteq> bal_Replica (m_Ballot m) \<or> m_RejectHint m \<noteq> zero_ballot \<or>
          conflictPresent m \<or> m_ConflictStatus m \<noteq> StatusNone \<or> m_RecordBallot m = zero_ballot \<or>
          m_RecordStatus m \<noteq> StatusAccepted \<or> m_Seq m = 0 \<or> length (m_Deps m) \<noteq> length (conf_Voters conf))
      else if length (m_Deps m) \<noteq> length (conf_Voters conf) \<or> \<not> depsAllZero m \<or> m_RecordBallot m \<noteq> zero_ballot \<or>
        m_Seq m \<noteq> 0 \<or> \<not> msgCommandEmpty m \<or> m_RecordStatus m \<noteq> StatusNone \<or> hasAcceptMetadata m
      then Some ErrInvalidMessage
      else if m_Type m \<in> {MsgPreAcceptResp, MsgAcceptResp, MsgPrepareResp} then
        invalid_if (m_RejectReason m \<noteq> RejectNone \<or> m_RejectHint m = zero_ballot \<or> m_Ballot m \<noteq> m_RejectHint m)
      else if m_Type m = MsgTryPreAcceptResp then
        (if m_RejectReason m = RejectStaleBallot then
           invalid_if (m_RejectHint m = zero_ballot \<or> m_Ballot m \<noteq> m_RejectHint m)
         else if m_RejectReason m = RejectCommittedConflict \<or> m_RejectReason m = RejectUncommittedConflict then
           invalid_if (m_RejectHint m \<noteq> zero_ballot)
         else Some ErrInvalidMessage)
      else Some ErrInvalidMessage)"

text \<open>The answers to Prepare and Evidence carry a whole record, or nothing.\<close>

definition validateRecordPart :: "Message \<Rightarrow> error option" where
  "validateRecordPart m =
     (if m_RecordStatus m = StatusNone then
        invalid_if (m_RecordBallot m \<noteq> zero_ballot \<or> m_Seq m \<noteq> 0 \<or> \<not> depsAllZero m \<or> \<not> msgCommandEmpty m \<or>
          hasAcceptMetadata m \<or> m_FastPathEligible m)
      else invalid_if (m_RecordBallot m = zero_ballot \<or> m_Seq m = 0))"

definition validateBody :: "Message \<Rightarrow> ConfState \<Rightarrow> error option" where
  "validateBody m conf =
     (if m_Type m = MsgPreAccept then
        invalid_if (m_RecordBallot m \<noteq> zero_ballot \<or> m_RecordStatus m \<noteq> StatusNone \<or> m_FastPathEligible m \<or>
          m_DepsCommitted m \<noteq> 0)
      else if m_Type m = MsgPreAcceptResp then
        invalid_if (m_RecordBallot m \<noteq> zero_ballot \<or> m_RecordStatus m \<noteq> StatusNone \<or> \<not> msgCommandEmpty m \<or>
          hasAcceptMetadata m)
      else if m_Type m = MsgAccept then
        invalid_if (m_RecordStatus m \<noteq> StatusNone \<or> m_RecordBallot m \<noteq> zero_ballot)
      else if m_Type m = MsgAcceptResp then
        invalid_if (m_RecordStatus m \<noteq> StatusAccepted \<or> m_RecordBallot m = zero_ballot \<or> m_RecordBallot m \<noteq> m_Ballot m \<or>
          m_Seq m = 0 \<or> length (m_Deps m) \<noteq> length (conf_Voters conf) \<or> \<not> msgCommandEmpty m)
      else if m_Type m = MsgCommit then
        invalid_if (m_RecordStatus m \<noteq> StatusNone \<or> m_RecordBallot m = zero_ballot)
      else if m_Type m = MsgPrepare then
        invalid_if (\<not> ballot_IsRecovery (m_Ballot m) \<or> m_RecordBallot m \<noteq> zero_ballot \<or> m_RecordStatus m \<noteq> StatusNone \<or>
          m_Seq m \<noteq> 0 \<or> length (m_Deps m) \<noteq> 0 \<or> \<not> msgCommandEmpty m \<or> hasAcceptMetadata m \<or> m_FastPathEligible m \<or>
          m_DepsCommitted m \<noteq> 0)
      else if m_Type m = MsgPrepareResp then
        first_error [invalid_if (\<not> ballot_IsRecovery (m_Ballot m)), validateRecordPart m]
      else if m_Type m = MsgTryPreAccept then
        invalid_if (\<not> ballot_IsRecovery (m_Ballot m) \<or> m_RecordStatus m \<noteq> StatusNone \<or> m_RecordBallot m \<noteq> zero_ballot)
      else if m_Type m = MsgTryPreAcceptResp then
        invalid_if (m_RecordStatus m \<noteq> StatusPreAccepted \<or> m_RecordBallot m \<noteq> zero_ballot \<or> \<not> msgCommandEmpty m)
      else if m_Type m = MsgEvidence then
        invalid_if (m_RecordBallot m \<noteq> zero_ballot \<or> m_Seq m \<noteq> 0 \<or> length (m_Deps m) \<noteq> 0 \<or> \<not> msgCommandEmpty m \<or>
          m_RecordStatus m \<noteq> StatusNone \<or> hasAcceptMetadata m \<or> m_FastPathEligible m)
      else if m_Type m = MsgEvidenceResp then validateRecordPart m
      else None)"

definition Validate ::
    "(bytes \<Rightarrow> bytes) \<Rightarrow> (checkpointControlWire \<Rightarrow> bytes option) \<Rightarrow> (bytes \<Rightarrow> checkpointControlWire option) \<Rightarrow>
       Message \<Rightarrow> ConfState \<Rightarrow> error option" where
  "Validate H marshal unmarshal m conf = first_error [
     validateAddress m conf,
     validateValue m conf,
     (if m_Type m = MsgCheckpointVote \<or> m_Type m = MsgCheckpointCertificate \<or> m_Type m = MsgCheckpointOffer
      then validateCheckpointControlMessage H marshal unmarshal m
      else first_error [
        validateSender m,
        validateRefs m conf,
        invalid_if (isResponse m \<and> \<not> m_Reject m \<and> m_To m \<noteq> bal_Replica (m_Ballot m)),
        validateRejectReason m,
        validateTOQ m,
        validateAttributes m conf,
        validateAcceptEvidence m conf,
        validateFlags m,
        (if m_Reject m then validateRejectBody m conf
         else first_error [
           validateBody m conf,
           invalid_if (drop_bit (length (conf_Voters conf)) (m_DepsCommitted m) \<noteq> 0 \<or>
             (m_DepsCommitted m \<noteq> 0 \<and> m_Type m \<noteq> MsgPreAcceptResp))])])]"

section \<open>What the checks establish\<close>

lemma invalid_if_simps [simp]:
  "invalid_if b = None \<longleftrightarrow> \<not> b" "invalid_if b = Some e \<longleftrightarrow> b \<and> e = ErrInvalidMessage"
  by (auto simp: invalid_if_def)

lemma first_error_None [simp]: "first_error (c # cs) = None \<longleftrightarrow> c = None \<and> first_error cs = None"
  by (cases c) simp_all

lemma first_error_Some: "first_error cs = Some e \<Longrightarrow> Some e \<in> set cs"
  by (induction cs rule: first_error.induct) auto

lemma votersAscending_iff: "votersAscending prev vs \<longleftrightarrow> ascending_from prev vs \<and> 0 \<notin> set vs"
proof (induction vs arbitrary: prev)
  case (Cons v vs)
  show ?case unfolding ascending_from_Cons by (auto simp: Cons)
qed (simp split: option.split)

lemma validateAddress_None:
  "validateAddress m conf = None \<longleftrightarrow>
     MsgPreAccept \<le> m_Type m \<and> m_Type m \<le> MsgCheckpointOffer \<and> conf_wf conf \<and> conf_ID conf \<noteq> 0 \<and>
     ref_Instance (m_Ref m) \<noteq> 0 \<and> ref_Conf (m_Ref m) = conf_ID conf \<and>
     {m_From m, m_To m, ref_Replica (m_Ref m)} \<subseteq> set (conf_Voters conf)"
proof (cases "conf_wf conf")
  case True
  then have "conf_Contains conf r \<longleftrightarrow> r \<in> set (conf_Voters conf)" for r
    by (intro conf_Contains_iff) (simp add: conf_wf_def strict_sorted_imp_sorted)
  moreover have "0 \<notin> set (conf_Voters conf)" "conf_Voters conf \<noteq> []" "length (conf_Voters conf) \<le> 7" "votersAscending None (conf_Voters conf)"
    using True by (auto simp: conf_wf_def votersAscending_iff)
  ultimately show ?thesis using True by (auto simp: validateAddress_def not_less)
next
  case False
  then show ?thesis by (auto simp: validateAddress_def votersAscending_iff conf_wf_def)
qed

lemma validBallot_iff:
  "conf_wf conf \<Longrightarrow> validBallot conf b \<longleftrightarrow> b = zero_ballot \<or> bal_Replica b \<in> set (conf_Voters conf)"
  using conf_Contains_iff [of conf "bal_Replica b"] by (auto simp: validBallot_def conf_wf_def strict_sorted_imp_sorted)

lemma test_bit_mask: "seen AND push_bit k 1 \<noteq> 0 \<longleftrightarrow> bit seen k" for seen :: u64
  using and_exp_eq_0_iff_not_bit [of seen k] by (simp add: push_bit_eq_mult)

text \<open>Consistent evidence has voters as senders and never two answers of one sender.\<close>

definition evidence_ok :: "ConfState \<Rightarrow> AcceptEvidence \<Rightarrow> bool" where
  "evidence_ok conf ev \<longleftrightarrow> snd (conf_Index conf (ev_Sender ev)) \<and> ev_Seq ev \<noteq> 0 \<and>
     length (ev_Deps ev) = length (conf_Voters conf)"

lemma evidenceConsistent_sound:
  assumes "length (conf_Voters conf) \<le> 7" "evidenceConsistent conf seen seqs deps evs"
  shows "(\<forall>ev \<in> set evs. evidence_ok conf ev \<and>
        (let k = fst (conf_Index conf (ev_Sender ev)) in bit seen k \<longrightarrow> seqs k = ev_Seq ev \<and> deps k = ev_Deps ev)) \<and>
     (\<forall>a \<in> set evs. \<forall>b \<in> set evs. ev_Sender a = ev_Sender b \<longrightarrow> a = b)"
  using assms(2)
proof (induction evs arbitrary: seen seqs deps)
  case (Cons ev evs)
  obtain k b where kb: "conf_Index conf (ev_Sender ev) = (k, b)" by fastforce
  have ok: "evidence_ok conf ev" "b" using Cons.prems kb by (auto simp: evidence_ok_def split: if_splits)
  then have k: "k < 64" using kb conf_Index_True [of conf "ev_Sender ev" k] assms(1) by simp
  let ?seen = "if bit seen k then seen else seen OR push_bit k 1"
  let ?seqs = "if bit seen k then seqs else seqs(k := ev_Seq ev)" and ?deps = "if bit seen k then deps else deps(k := ev_Deps ev)"
  have now: "bit ?seen k \<and> ?seqs k = ev_Seq ev \<and> ?deps k = ev_Deps ev"
    using Cons.prems kb ok k by (auto simp: Let_def test_bit_mask bit_or_iff bit_exp_iff split: if_splits)
  have rest: "evidenceConsistent conf ?seen ?seqs ?deps evs"
    using Cons.prems kb ok by (auto simp: Let_def test_bit_mask split: if_splits)
  note IH = Cons.IH [OF rest]
  have eq: "x = ev" if "x \<in> set evs" "ev_Sender x = ev_Sender ev" for x
    using IH that now kb by (intro AcceptEvidence.equality) (auto simp: Let_def)
  have "bit seen l \<Longrightarrow> bit ?seen l \<and> ?seqs l = seqs l \<and> ?deps l = deps l" for l
    by (auto simp: bit_or_iff)
  then have "\<forall>x \<in> set evs. bit seen (fst (conf_Index conf (ev_Sender x))) \<longrightarrow>
      seqs (fst (conf_Index conf (ev_Sender x))) = ev_Seq x \<and> deps (fst (conf_Index conf (ev_Sender x))) = ev_Deps x"
    using IH by (metis (no_types, lifting))
  moreover have "bit seen k \<longrightarrow> seqs k = ev_Seq ev \<and> deps k = ev_Deps ev" using now by auto
  ultimately show ?case using IH ok kb eq by (simp add: Let_def) metis
qed simp

text \<open>The stages of the function that an ordinary message passes.\<close>

abbreviation checkpointType :: "Message \<Rightarrow> bool" where
  "checkpointType m \<equiv> m_Type m = MsgCheckpointVote \<or> m_Type m = MsgCheckpointCertificate \<or> m_Type m = MsgCheckpointOffer"

lemma Validate_stages:
  assumes "Validate H marshal unmarshal m conf = None" "\<not> checkpointType m"
  shows "validateSender m = None" "validateRefs m conf = None"
    and "isResponse m \<Longrightarrow> \<not> m_Reject m \<Longrightarrow> m_To m = bal_Replica (m_Ballot m)"
    and "validateRejectReason m = None" "validateTOQ m = None" "validateAttributes m conf = None"
    and "validateAcceptEvidence m conf = None" "validateFlags m = None"
    and "m_Reject m \<Longrightarrow> validateRejectBody m conf = None"
    and "\<not> m_Reject m \<Longrightarrow> validateBody m conf = None"
    and "\<not> m_Reject m \<Longrightarrow> drop_bit (length (conf_Voters conf)) (m_DepsCommitted m) = 0"
    and "\<not> m_Reject m \<Longrightarrow> m_DepsCommitted m \<noteq> 0 \<Longrightarrow> m_Type m = MsgPreAcceptResp"
  using assms by (auto simp: Validate_def split: if_splits)

lemma Validate_address:
  assumes "Validate H marshal unmarshal m conf = None"
  shows "conf_wf conf" "conf_ID conf \<noteq> 0" "ref_Instance (m_Ref m) \<noteq> 0" "ref_Conf (m_Ref m) = conf_ID conf"
    and "{m_From m, m_To m, ref_Replica (m_Ref m)} \<subseteq> set (conf_Voters conf)"
    and "entryValueCanonical (m_Kind m) (m_Command m) (m_ConfChange m) (m_ProtocolControl m)"
    and "m_Ballot m \<noteq> zero_ballot" "bal_Replica (m_Ballot m) \<in> set (conf_Voters conf)"
proof -
  have "validateAddress m conf = None" "validateValue m conf = None" using assms by (simp_all add: Validate_def)
  then show "conf_wf conf" "conf_ID conf \<noteq> 0" "ref_Instance (m_Ref m) \<noteq> 0" "ref_Conf (m_Ref m) = conf_ID conf"
    "{m_From m, m_To m, ref_Replica (m_Ref m)} \<subseteq> set (conf_Voters conf)"
    "entryValueCanonical (m_Kind m) (m_Command m) (m_ConfChange m) (m_ProtocolControl m)"
    "m_Ballot m \<noteq> zero_ballot" "bal_Replica (m_Ballot m) \<in> set (conf_Voters conf)"
    by (auto simp: validateAddress_None validateValue_def validBallot_iff)
qed

lemma validateSender_owner:
  assumes "validateSender m = None" "m_Type m \<in> {MsgPreAccept, MsgAccept, MsgPrepare, MsgTryPreAccept, MsgEvidence}"
  shows "m_From m = bal_Replica (m_Ballot m)"
  using assms by (auto simp: validateSender_def ballot_IsInitialFor_def split: if_splits)

lemma validateBody_deps:
  assumes "validateAttributes m conf = None" "validateBody m conf = None" "\<not> m_Reject m"
    and "m_Type m \<in> {MsgPreAccept, MsgPreAcceptResp, MsgAccept, MsgAcceptResp, MsgCommit, MsgPrepareResp,
      MsgTryPreAccept, MsgTryPreAcceptResp, MsgEvidenceResp}"
    and "\<not> (m_Type m = MsgPreAccept \<and> m_TOQ m \<and> ballot_IsInitialFor (m_Ballot m) (ref_Replica (m_Ref m)))"
  shows "length (m_Deps m) = length (conf_Voters conf)"
  using assms by (auto simp: validateAttributes_def validateBody_def split: if_splits)

lemma validateRejectBody_deps:
  "validateRejectBody m conf = None \<Longrightarrow> length (m_Deps m) = length (conf_Voters conf)"
  by (auto simp: validateRejectBody_def Let_def split: if_splits)

lemma message_types:
  fixes t :: u8
  assumes "MsgPreAccept \<le> t" "t \<le> MsgCheckpointOffer"
  shows "t \<in> {MsgPreAccept, MsgPreAcceptResp, MsgAccept, MsgAcceptResp, MsgCommit, MsgPrepare, MsgPrepareResp,
    MsgTryPreAccept, MsgTryPreAcceptResp, MsgEvidence, MsgEvidenceResp, MsgCheckpointVote, MsgCheckpointCertificate,
    MsgCheckpointOffer}"
proof -
  have n: "unat t \<in> set [1..<15]" using assms unfolding word_le_nat_alt by simp
  have "t = of_nat (unat t)" by simp
  with n have "t \<in> set (map of_nat [1..<15])" unfolding set_map by (rule rev_image_eqI)
  then show ?thesis by (simp add: upt_rec)
qed

lemma rejectBody_content:
  assumes "validateRejectBody m conf = None"
  shows "m_DepsCommitted m = 0 \<and>
    (m_RejectReason m = RejectAcceptedTarget \<and> m_RecordStatus m = StatusAccepted \<and> m_RecordBallot m \<noteq> zero_ballot \<or>
     depsAllZero m \<and> m_Seq m = 0 \<and> m_RecordStatus m = StatusNone \<and> m_RecordBallot m = zero_ballot \<and>
     msgCommandEmpty m \<and> \<not> hasAcceptMetadata m)"
  using assms unfolding validateRejectBody_def Let_def check_None by (simp split: if_splits)

text \<open>All checks but the first group fail with the same error.\<close>

definition invalid_only :: "error option \<Rightarrow> bool" where
  "invalid_only c \<longleftrightarrow> c = None \<or> c = Some ErrInvalidMessage"

lemma invalid_only_intros:
  "invalid_only None" "invalid_only (Some ErrInvalidMessage)" "invalid_only (invalid_if b)"
  "invalid_only x \<Longrightarrow> invalid_only y \<Longrightarrow> invalid_only (if b then x else y)"
  "invalid_only (first_error [])"
  "invalid_only c \<Longrightarrow> invalid_only (first_error cs) \<Longrightarrow> invalid_only (first_error (c # cs))"
  "(\<And>u. invalid_only (f u)) \<Longrightarrow> (\<And>v. invalid_only (g v)) \<Longrightarrow> invalid_only (case r of Inl u \<Rightarrow> f u | Inr v \<Rightarrow> g v)"
  by (auto simp: invalid_only_def invalid_if_def split: sum.split)

lemma stages_invalid_only:
  "invalid_only (validateValue m conf)" "invalid_only (validateCheckpointControlMessage H marshal unmarshal m)"
  "invalid_only (validateSender m)" "invalid_only (validateRefs m conf)" "invalid_only (validateRejectReason m)"
  "invalid_only (validateTOQ m)" "invalid_only (validateAttributes m conf)" "invalid_only (validateAcceptEvidence m conf)"
  "invalid_only (validateFlags m)" "invalid_only (validateRejectBody m conf)" "invalid_only (validateRecordPart m)"
  unfolding validateValue_def validateCheckpointControlMessage_def validateSender_def validateRefs_def
    validateRejectReason_def validateTOQ_def validateAttributes_def validateAcceptEvidence_def validateFlags_def
    validateRejectBody_def validateRecordPart_def Let_def
  by (intro invalid_only_intros)+

lemma body_invalid_only: "invalid_only (validateBody m conf)"
  unfolding validateBody_def by (intro invalid_only_intros stages_invalid_only)

lemma address_error:
  assumes e: "validateAddress m conf = Some e"
  shows "e = (if MsgPreAccept \<le> m_Type m \<and> m_Type m \<le> MsgCheckpointOffer \<and> conf_wf conf \<and> conf_ID conf \<noteq> 0 \<and>
      m_From m \<noteq> 0 \<and> m_To m \<noteq> 0 \<and> ref_Replica (m_Ref m) \<noteq> 0 \<and> ref_Instance (m_Ref m) \<noteq> 0 \<and>
      ref_Conf (m_Ref m) = conf_ID conf \<and>
      \<not> {m_From m, m_To m, ref_Replica (m_Ref m)} \<subseteq> set (conf_Voters conf)
    then ErrMessageRejected else ErrInvalidMessage)"
proof (cases "conf_wf conf")
  case True
  then have c: "conf_Contains conf r \<longleftrightarrow> r \<in> set (conf_Voters conf)" for r
    by (intro conf_Contains_iff conf_wf_sorted)
  have wf: "votersAscending None (conf_Voters conf)" "\<not> (length (conf_Voters conf) = 0 \<or> \<not> length (conf_Voters conf) \<le> 7)"
    using True by (auto simp: conf_wf_def votersAscending_iff)
  have sub: "(\<not> a \<in> S \<or> \<not> b \<in> S \<or> \<not> d \<in> S) = (\<not> {a, b, d} \<subseteq> S)" for a b d :: u64 and S by simp
  show ?thesis
    using e unfolding validateAddress_def c sub by (simp only: wf True not_le [symmetric] if_False not_True_eq_False simp_thms option.inject option.distinct split: if_splits) metis+
next
  case False
  then have "length (conf_Voters conf) = 0 \<or> 7 < length (conf_Voters conf) \<or> \<not> votersAscending None (conf_Voters conf)"
    by (auto simp: conf_wf_def votersAscending_iff)
  with e False show ?thesis unfolding validateAddress_def by (elim disjE) (simp_all split: if_splits)
qed

section \<open>Properties\<close>


text \<open>A commit of a no-op by the only voter of its configuration.\<close>

definition sample_commit :: Message where
  "sample_commit = zero_message\<lparr>m_Type := MsgCommit, m_From := 1, m_To := 1, m_Ref := InstanceRef 1 1 1,
     m_Ballot := Ballot 0 0 1, m_RecordBallot := Ballot 0 0 1, m_Seq := 1, m_Deps := [0], m_Kind := EntryNoop,
     m_AcceptEvidence := [\<lparr>ev_Sender = 1, ev_Seq = 1, ev_Deps = [0]\<rparr>]\<rparr>"

definition sample_conf :: ConfState where
  "sample_conf = \<lparr>conf_ID = 1, conf_Voters = [1]\<rparr>"

lemma sample_conf_Contains: "conf_Contains sample_conf 1" "conf_Index sample_conf 1 = (0, True)"
proof -
  show "conf_Contains sample_conf 1" by (simp add: conf_Contains_iff sample_conf_def)
  show "conf_Index sample_conf 1 = (0, True)"
    using conf_Index_nth [of sample_conf 0] by (simp add: sample_conf_def conf_wf_def)
qed

lemma sample_commit_valid: "Validate H marshal unmarshal sample_commit sample_conf = None"
proof -
  note msg = sample_commit_def zero_message_def
  have "validateAddress sample_commit sample_conf = None"
    by (simp add: validateAddress_None msg sample_conf_def conf_wf_def)
  moreover have "validateValue sample_commit sample_conf = None"
    by (simp add: validateValue_def validBallot_def msg sample_conf_Contains entryValueCanonical_def commandEmpty_def
        zero_command_def ballot_Less_def less_Ballot_def)
  moreover have "validateSender sample_commit = None" "validateRefs sample_commit sample_conf = None"
    "validateRejectReason sample_commit = None" "validateTOQ sample_commit = None" "validateFlags sample_commit = None"
    by (simp_all add: validateSender_def validateRefs_def validateRejectReason_def validateTOQ_def validateFlags_def
        conflictPresent_def msg)
  moreover have "validateAttributes sample_commit sample_conf = None" "validateBody sample_commit sample_conf = None"
    by (simp_all add: validateAttributes_def validateBody_def msg sample_conf_def)
  moreover have "evidenceConsistent sample_conf 0 (\<lambda>_. 0) (\<lambda>_. []) (m_AcceptEvidence sample_commit)"
    by (simp add: msg sample_conf_Contains sample_conf_def [THEN arg_cong [where f = conf_Voters]])
  then have "validateAcceptEvidence sample_commit sample_conf = None"
    by (simp add: validateAcceptEvidence_def) (simp add: msg sample_conf_def)
  moreover have "\<not> checkpointType sample_commit" "\<not> isResponse sample_commit" "\<not> m_Reject sample_commit" "m_DepsCommitted sample_commit = 0"
    by (simp_all add: msg isResponse_def)
  ultimately show ?thesis by (simp add: Validate_def)
qed


text \<open>
  C37. The function returns two errors only. \<^verbatim>\<open>ErrMessageRejected\<close> means precisely that the message
  and the configuration are well formed so far but the sender, the receiver or the owner of
  the instance is not a voter; everything else is \<^verbatim>\<open>ErrInvalidMessage\<close>.
\<close>

theorem Validate_errors:
  assumes "Validate H marshal unmarshal m conf = Some e"
  shows "e = (if MsgPreAccept \<le> m_Type m \<and> m_Type m \<le> MsgCheckpointOffer \<and> conf_wf conf \<and> conf_ID conf \<noteq> 0 \<and>
      m_From m \<noteq> 0 \<and> m_To m \<noteq> 0 \<and> ref_Replica (m_Ref m) \<noteq> 0 \<and> ref_Instance (m_Ref m) \<noteq> 0 \<and>
      ref_Conf (m_Ref m) = conf_ID conf \<and>
      \<not> {m_From m, m_To m, ref_Replica (m_Ref m)} \<subseteq> set (conf_Voters conf)
    then ErrMessageRejected else ErrInvalidMessage)"
proof (cases "validateAddress m conf")
  case None
  have "invalid_only (Validate H marshal unmarshal m conf)"
    unfolding Validate_def None first_error.simps by (intro invalid_only_intros stages_invalid_only body_invalid_only)
  with assms have "e = ErrInvalidMessage" by (simp add: invalid_only_def)
  then show ?thesis using None by (auto simp: validateAddress_None)
next
  case (Some e')
  with assms have "e' = e" by (simp add: Validate_def)
  with Some show ?thesis using address_error by simp
qed

theorem Validate_errors_witness:
  "Validate sample_hash (\<lambda>_. None) (\<lambda>_. None) (sample_commit\<lparr>m_From := 2\<rparr>) sample_conf = Some ErrMessageRejected"
proof -
  let ?m = "sample_commit\<lparr>m_From := 2\<rparr>"
  have "validateAddress ?m sample_conf \<noteq> None" by (simp add: validateAddress_None sample_conf_def)
  then obtain e where e: "Validate sample_hash (\<lambda>_. None) (\<lambda>_. None) ?m sample_conf = Some e"
    by (auto simp: Validate_def)
  from Validate_errors [OF e] have "e = ErrMessageRejected"
    by (simp add: sample_commit_def zero_message_def sample_conf_def conf_wf_def)
  with e show ?thesis by simp
qed



end
