(* ===== verification/Radix.thy ===== *)
theory Radix
  imports Ids
begin

text \<open>
  The radix tries of \<^verbatim>\<open>epaxos/conflict_engine.go\<close>. The source writes them twice, as the lane tree (a
  slot per instance) and as the posting set (instances only), with the same control flow; the
  operations are defined here once, over the type of the slots and the type of the aggregates
  that \<^verbatim>\<open>recompute\<close> stores in each node. \<^verbatim>\<open>LaneTree\<close> instantiates them with the two \<^verbatim>\<open>recompute\<close>
  functions of the source.

  A node has 64 children or, at level 0, 64 slots with a presence bit each. The level of a node
  is its distance from the leaves: the parent of a node of level \<open>l\<close> has level \<open>l + 1\<close>, so the
  model stores the level once, with the root, and counts down from there. A Go pointer to a
  child is an option, the two fixed-size arrays are functions of the index, and the branches
  for a node whose shape does not fit its level cannot be reached.
\<close>

section \<open>The code\<close>

definition radixBits :: nat where "radixBits = 6"
definition radixFanout :: nat where "radixFanout = 64"
definition maxRadixLevel :: nat where "maxRadixLevel = 10"

datatype ('v, 'a) radix =
    RLeaf (leaf_present: u64) (leaf_slots: "nat \<Rightarrow> 'v") (leaf_agg: 'a)
  | RInner (inner_children: "nat \<Rightarrow> ('v, 'a) radix option") (inner_agg: 'a)

fun radix_agg :: "('v, 'a) radix \<Rightarrow> 'a" where
  "radix_agg (RLeaf p s a) = a"
| "radix_agg (RInner ch a) = a"

text \<open>
  What the two tries differ in: how a leaf with a prefix and how an inner node are summarized,
  the count in a summary, and the zero values of a slot and of a summary.
\<close>

record ('v, 'a) radix_ops =
  agg_leaf :: "u64 \<Rightarrow> (nat \<Rightarrow> 'v) \<Rightarrow> u64 \<Rightarrow> 'a"
  agg_inner :: "(nat \<Rightarrow> 'a option) \<Rightarrow> 'a"
  agg_count :: "'a \<Rightarrow> nat"
  agg_zero :: 'a
  slot_zero :: 'v

text \<open>\<open>(instance >> (radixBits * level)) & (radixFanout - 1)\<close>.\<close>

definition digit :: "nat \<Rightarrow> InstanceNum \<Rightarrow> nat" where
  "digit l i = unat (drop_bit (radixBits * l) i AND 63)"

text \<open>\<open>prefix | InstanceNum(idx) << (radixBits * level)\<close>.\<close>

definition childPrefix :: "nat \<Rightarrow> InstanceNum \<Rightarrow> nat \<Rightarrow> InstanceNum" where
  "childPrefix l prefix idx = prefix OR push_bit (radixBits * l) (of_nat idx)"

definition radixLevel :: "InstanceNum \<Rightarrow> nat" where
  "radixLevel value =
     (case find (\<lambda>level. value < push_bit (radixBits * (level + 1)) 1) [0..<maxRadixLevel] of
        Some level \<Rightarrow> level | None \<Rightarrow> maxRadixLevel)"

definition newNode :: "('v, 'a) radix_ops \<Rightarrow> nat \<Rightarrow> ('v, 'a) radix" where
  "newNode ops level =
     (if level = 0 then RLeaf 0 (\<lambda>_. slot_zero ops) (agg_zero ops) else RInner (\<lambda>_. None) (agg_zero ops))"

fun recompute :: "('v, 'a) radix_ops \<Rightarrow> InstanceNum \<Rightarrow> ('v, 'a) radix \<Rightarrow> ('v, 'a) radix" where
  "recompute ops prefix (RLeaf p s a) = RLeaf p s (agg_leaf ops p s prefix)"
| "recompute ops prefix (RInner ch a) = RInner ch (agg_inner ops (\<lambda>idx. map_option radix_agg (ch idx)))"

fun setSlot :: "('v, 'a) radix_ops \<Rightarrow> nat \<Rightarrow> ('v, 'a) radix \<Rightarrow> InstanceNum \<Rightarrow> 'v \<Rightarrow> InstanceNum \<Rightarrow> ('v, 'a) radix" where
  "setSlot ops 0 (RLeaf p s a) i v prefix =
     (let idx = digit 0 i in recompute ops prefix (RLeaf (p OR push_bit idx 1) (s(idx := v)) a))"
| "setSlot ops (Suc l) (RInner ch a) i v prefix =
     (let idx = digit (Suc l) i;
          child = (case ch idx of Some c \<Rightarrow> c | None \<Rightarrow> newNode ops l)
      in recompute ops prefix
           (RInner (ch(idx := Some (setSlot ops l child i v (childPrefix (Suc l) prefix idx)))) a))"
| "setSlot ops l node i v prefix = node"

type_synonym ('v, 'a) radixTree = "(nat \<times> ('v, 'a) radix) option"

text \<open>The loop that puts new roots on top until the root's level suffices.\<close>

function growRoot :: "('v, 'a) radix_ops \<Rightarrow> nat \<Rightarrow> nat \<Rightarrow> ('v, 'a) radix \<Rightarrow> nat \<times> ('v, 'a) radix" where
  "growRoot ops level l root =
     (if l < level
      then growRoot ops level (Suc l) (recompute ops 0 (RInner ((\<lambda>_. None)(0 := Some root)) (agg_zero ops)))
      else (l, root))"
  by pat_completeness auto
termination
  by (relation "measure (\<lambda>(ops, level, l, root). level - l)") auto

declare growRoot.simps [simp del]

definition treeSet :: "('v, 'a) radix_ops \<Rightarrow> ('v, 'a) radixTree \<Rightarrow> InstanceNum \<Rightarrow> 'v \<Rightarrow> ('v, 'a) radixTree" where
  "treeSet ops t i v =
     (let level = radixLevel i;
          (l, root) = (case t of None \<Rightarrow> (level, newNode ops level) | Some r \<Rightarrow> r);
          (l', root') = growRoot ops level l root
      in Some (l', setSlot ops l' root' i v 0))"

text \<open>Removal returns \<open>None\<close> where the source returns false, and then leaves the node alone.\<close>

fun removeSlot :: "('v, 'a) radix_ops \<Rightarrow> nat \<Rightarrow> ('v, 'a) radix \<Rightarrow> InstanceNum \<Rightarrow> InstanceNum \<Rightarrow> ('v, 'a) radix option" where
  "removeSlot ops 0 (RLeaf p s a) i prefix =
     (let idx = digit 0 i in
      if \<not> bit p idx then None
      else Some (recompute ops prefix (RLeaf (p AND NOT (push_bit idx 1)) (s(idx := slot_zero ops)) a)))"
| "removeSlot ops (Suc l) (RInner ch a) i prefix =
     (let idx = digit (Suc l) i in
      case ch idx of
        None \<Rightarrow> None
      | Some child \<Rightarrow>
          case removeSlot ops l child i (childPrefix (Suc l) prefix idx) of
            None \<Rightarrow> None
          | Some child' \<Rightarrow>
              Some (recompute ops prefix
                (RInner (ch(idx := if agg_count ops (radix_agg child') = 0 then None else Some child')) a)))"
| "removeSlot ops l node i prefix = None"

text \<open>The loop that drops roots whose content is all in their first child.\<close>

fun shrinkRoot :: "('v, 'a) radix_ops \<Rightarrow> nat \<Rightarrow> ('v, 'a) radix \<Rightarrow> nat \<times> ('v, 'a) radix" where
  "shrinkRoot ops (Suc l) (RInner ch a) =
     (case ch 0 of
        Some child \<Rightarrow>
          if agg_count ops a = agg_count ops (radix_agg child) then shrinkRoot ops l child else (Suc l, RInner ch a)
      | None \<Rightarrow> (Suc l, RInner ch a))"
| "shrinkRoot ops l node = (l, node)"

definition treeRemove :: "('v, 'a) radix_ops \<Rightarrow> ('v, 'a) radixTree \<Rightarrow> InstanceNum \<Rightarrow> ('v, 'a) radixTree \<times> bool" where
  "treeRemove ops t i =
     (case t of
        None \<Rightarrow> (t, False)
      | Some (l, root) \<Rightarrow>
          if radixLevel i > l then (t, False)
          else case removeSlot ops l root i 0 of
            None \<Rightarrow> (t, False)
          | Some root' \<Rightarrow>
              if agg_count ops (radix_agg root') = 0 then (None, True)
              else (Some (shrinkRoot ops l root'), True))"

fun slotAt :: "nat \<Rightarrow> ('v, 'a) radix \<Rightarrow> InstanceNum \<Rightarrow> 'v option" where
  "slotAt 0 (RLeaf p s a) i = (let idx = digit 0 i in if \<not> bit p idx then None else Some (s idx))"
| "slotAt (Suc l) (RInner ch a) i = (case ch (digit (Suc l) i) of None \<Rightarrow> None | Some c \<Rightarrow> slotAt l c i)"
| "slotAt l node i = None"

definition treeSlot :: "('v, 'a) radixTree \<Rightarrow> InstanceNum \<Rightarrow> 'v option" where
  "treeSlot t i =
     (case t of None \<Rightarrow> None | Some (l, root) \<Rightarrow> if radixLevel i > l then None else slotAt l root i)"

text \<open>The descending walk; the loops count an index down to zero and stop when the callback says so.\<close>

definition lastIndex :: "nat \<Rightarrow> InstanceNum \<Rightarrow> bool \<Rightarrow> nat" where
  "lastIndex l from limited = (if limited then digit l from else radixFanout - 1)"

fun walkDesc :: "nat \<Rightarrow> ('v, 'a) radix \<Rightarrow> InstanceNum \<Rightarrow> InstanceNum \<Rightarrow> bool \<Rightarrow>
    (InstanceNum \<times> 'v \<Rightarrow> 's \<Rightarrow> 's \<times> bool) \<Rightarrow> 's \<Rightarrow> 's \<times> bool" where
  "walkDesc 0 (RLeaf p sl a) prefix from limited yield s =
     yield_all (\<lambda>idx s. if \<not> bit p idx then (s, True) else yield (prefix OR of_nat idx, sl idx) s)
       (rev [0..<Suc (lastIndex 0 from limited)]) s"
| "walkDesc (Suc l) (RInner ch a) prefix from limited yield s =
     (let last = lastIndex (Suc l) from limited in
      yield_all (\<lambda>idx s. case ch idx of
          None \<Rightarrow> (s, True)
        | Some c \<Rightarrow> walkDesc l c (childPrefix (Suc l) prefix idx) from (limited \<and> idx = last) yield s)
        (rev [0..<Suc last]) s)"
| "walkDesc l node prefix from limited yield s = (s, True)"

definition treeWalkDesc :: "('v, 'a) radixTree \<Rightarrow> InstanceNum \<Rightarrow>
    (InstanceNum \<times> 'v \<Rightarrow> 's \<Rightarrow> 's \<times> bool) \<Rightarrow> 's \<Rightarrow> 's \<times> bool" where
  "treeWalkDesc t from yield s =
     (case t of None \<Rightarrow> (s, True) | Some (l, root) \<Rightarrow> walkDesc l root 0 from (radixLevel from \<le> l) yield s)"

section \<open>Digits\<close>

lemma pow64: "(64::nat) ^ l = 2 ^ (6 * l)"
  by (simp add: power_mult)

lemma digit_nat: "digit l i = unat i div 64 ^ l mod 64"
proof -
  have "(63 :: u64) = mask 6" by (simp add: mask_eq_exp_minus_1)
  then have "digit l i = unat (drop_bit (6 * l) i) mod 64"
    by (simp only: digit_def radixBits_def take_bit_eq_mask [symmetric] unsigned_take_bit_eq) (simp add: take_bit_eq_mod)
  moreover have "unat i < 2 ^ 64" using unsigned_less [of i] by simp
  then have "unat (drop_bit (6 * l) i) = drop_bit (6 * l) (unat i)"
    unfolding unsigned_drop_bit_eq by (simp add: take_bit_nat_eq_self)
  ultimately show ?thesis by (simp only: drop_bit_eq_div pow64)
qed

lemma digit_less: "digit l i < 64"
  by (simp add: digit_nat)

text \<open>The instances below a node of level \<open>l\<close> with a prefix: those that share its higher digits.\<close>

definition in_range :: "nat \<Rightarrow> InstanceNum \<Rightarrow> InstanceNum \<Rightarrow> bool" where
  "in_range l prefix i \<longleftrightarrow> unat i div 64 ^ Suc l = unat prefix div 64 ^ Suc l"

definition aligned :: "nat \<Rightarrow> InstanceNum \<Rightarrow> bool" where
  "aligned l prefix \<longleftrightarrow> unat prefix mod 64 ^ Suc l = 0"

text \<open>An index a child may have: its prefix is still a 64-bit number.\<close>

definition fits :: "nat \<Rightarrow> nat \<Rightarrow> bool" where
  "fits l idx \<longleftrightarrow> idx < 64 \<and> idx * 64 ^ l < 2 ^ 64"

lemma unat_push_idx:
  assumes "fits l idx"
  shows "unat (push_bit (6 * l) (of_nat idx) :: u64) = idx * 64 ^ l"
proof -
  have f: "idx * 2 ^ (6 * l) < 2 ^ 64" "idx < 2 ^ 64" using assms by (simp_all add: fits_def pow64)
  have "push_bit (6 * l) (of_nat idx :: u64) = of_nat (idx * 2 ^ (6 * l))" by (simp add: push_bit_eq_mult)
  then show ?thesis using f(1) by (simp only: unat_of_nat take_bit_nat_eq_self pow64) (simp add: take_bit_nat_eq_self)
qed

lemma or_disjoint_add:
  fixes a b :: nat
  assumes "a mod 2 ^ n = 0" "b < 2 ^ n"
  shows "a OR b = a + b"
proof -
  have "\<not> bit a k" if "k < n" for k
    using assms(1) that by (metis bit_0_eq bit_take_bit_iff bot_apply bot_bool_def take_bit_eq_mod)
  moreover have "\<not> bit b k" if "\<not> k < n" for k
    using assms(2) that by (metis bit_take_bit_iff take_bit_nat_eq_self_iff)
  ultimately have "a AND b = 0" by (intro bit_eqI) (auto simp: bit_and_iff)
  then show ?thesis by (simp add: disjunctive_add_eq_or)
qed

lemma unat_childPrefix:
  assumes "aligned l prefix" "fits l idx"
  shows "unat (childPrefix l prefix idx) = unat prefix + idx * 64 ^ l"
proof -
  have "idx * 64 ^ l < 2 ^ (6 * Suc l)" using assms(2) by (simp add: fits_def pow64 power_add)
  moreover have "unat prefix mod 2 ^ (6 * Suc l) = 0" using assms(1) by (simp only: aligned_def pow64)
  ultimately show ?thesis
    by (simp add: childPrefix_def radixBits_def unsigned_or_eq unat_push_idx [OF assms(2)] or_disjoint_add)
qed

lemma digit_Suc: "unat i div 64 ^ l = 64 * (unat i div 64 ^ Suc l) + digit l i"
  unfolding digit_nat power_Suc2 div_mult2_eq by simp

lemma digit_eq:
  assumes "aligned l prefix" "fits l idx" "in_range l prefix i"
  shows "unat i div 64 ^ l = unat (childPrefix l prefix idx) div 64 ^ l \<longleftrightarrow> digit l i = idx"
proof -
  obtain q where q: "unat prefix = q * 64 ^ Suc l" using assms(1) by (auto simp: aligned_def elim!: dvdE simp flip: dvd_eq_mod_eq_0)
  then have "unat (childPrefix l prefix idx) = (64 * q + idx) * 64 ^ l"
    using unat_childPrefix [OF assms(1,2)] by (simp add: algebra_simps)
  then have "unat (childPrefix l prefix idx) div 64 ^ l = 64 * q + idx" by simp
  moreover have "unat i div 64 ^ l = 64 * q + digit l i" using digit_Suc [of i l] assms(3) q by (simp add: in_range_def)
  ultimately show ?thesis by simp
qed

lemma in_range_child:
  "aligned (Suc l) prefix \<Longrightarrow> fits (Suc l) idx \<Longrightarrow> in_range (Suc l) prefix i \<Longrightarrow>
     in_range l (childPrefix (Suc l) prefix idx) i \<longleftrightarrow> digit (Suc l) i = idx"
  by (simp only: in_range_def digit_eq)

lemma in_range_parent:
  assumes "aligned (Suc l) prefix" "fits (Suc l) idx" "in_range l (childPrefix (Suc l) prefix idx) i"
  shows "in_range (Suc l) prefix i"
proof -
  obtain q where q: "unat prefix = q * 64 ^ Suc (Suc l)"
    using assms(1) by (auto simp: aligned_def elim!: dvdE simp flip: dvd_eq_mod_eq_0)
  then have "unat (childPrefix (Suc l) prefix idx) = (64 * q + idx) * 64 ^ Suc l"
    using unat_childPrefix [OF assms(1,2)] by (simp add: algebra_simps)
  then have "unat i div 64 ^ Suc l = 64 * q + idx" using assms(3) by (simp add: in_range_def)
  then have "unat i div 64 ^ Suc l div 64 = q" using assms(2) by (simp add: fits_def)
  then have "unat i div 64 ^ Suc (Suc l) = q" by (metis div_mult2_eq mult.commute power_Suc)
  with q show ?thesis by (simp add: in_range_def)
qed

lemma aligned_child:
  assumes "aligned (Suc l) prefix" "fits (Suc l) idx"
  shows "aligned l (childPrefix (Suc l) prefix idx)"
proof -
  obtain q where q: "unat prefix = q * 64 ^ Suc (Suc l)"
    using assms(1) by (auto simp: aligned_def elim!: dvdE simp flip: dvd_eq_mod_eq_0)
  then have "unat (childPrefix (Suc l) prefix idx) = (64 * q + idx) * 64 ^ Suc l"
    using unat_childPrefix [OF assms] by (simp add: algebra_simps)
  then show ?thesis by (simp add: aligned_def)
qed

lemma fits_digit: "fits l (digit l i)"
proof -
  have "digit l i * 64 ^ l \<le> unat i"
    unfolding digit_nat by (metis mod_less_eq_dividend mult_le_mono1 div_times_less_eq_dividend dual_order.trans)
  also have "unat i < 2 ^ 64" using unsigned_less [of i] by simp
  finally show ?thesis by (simp add: fits_def digit_less)
qed

text \<open>The leaf of an instance: its prefix and lowest digit give the instance back.\<close>

lemma leaf_instance:
  assumes "aligned 0 prefix" "idx < 64"
  shows "in_range 0 prefix (prefix OR of_nat idx)" "digit 0 (prefix OR of_nat idx) = idx"
    and "in_range 0 prefix i \<Longrightarrow> prefix OR of_nat idx = i \<longleftrightarrow> digit 0 i = idx"
proof -
  have f: "fits 0 idx" using assms(2) by (simp add: fits_def)
  have cp: "prefix OR of_nat idx = childPrefix 0 prefix idx" by (simp add: childPrefix_def)
  have u: "unat (prefix OR of_nat idx) = unat prefix + idx" using unat_childPrefix [OF assms(1) f] by (simp add: cp)
  then show r: "in_range 0 prefix (prefix OR of_nat idx)"
    using assms by (auto simp: in_range_def aligned_def simp flip: dvd_eq_mod_eq_0 elim!: dvdE)
  show "digit 0 (prefix OR of_nat idx) = idx" using digit_eq [OF assms(1) f r] by (simp add: cp)
  show "prefix OR of_nat idx = i \<longleftrightarrow> digit 0 i = idx" if "in_range 0 prefix i"
    using digit_eq [OF assms(1) f that] by (simp add: cp) (metis word_unat_eq_iff)
qed

lemma child_order:
  assumes "aligned l prefix" "fits l a" "fits l b" "a < b"
    and "unat i div 64 ^ l = unat (childPrefix l prefix a) div 64 ^ l"
    and "unat j div 64 ^ l = unat (childPrefix l prefix b) div 64 ^ l"
  shows "i < j"
proof -
  have "unat (childPrefix l prefix x) div 64 ^ l = unat prefix div 64 ^ l + x" if "fits l x" for x
    using unat_childPrefix [OF assms(1) that] by simp
  then have "unat i div 64 ^ l < unat j div 64 ^ l" using assms by simp
  then show ?thesis by (metis div_le_mono leD leI word_less_nat_alt)
qed

lemma leaf_mono: "aligned 0 prefix \<Longrightarrow> j < k \<Longrightarrow> k < 64 \<Longrightarrow> prefix OR of_nat j < prefix OR of_nat k"
  using child_order [of 0 prefix j k "prefix OR of_nat j" "prefix OR of_nat k"] by (simp add: childPrefix_def fits_def)

text \<open>The level of an instance is the least whose trie, with prefix zero, has room for it.\<close>

lemma radixLevel_le: "radixLevel i \<le> l \<longleftrightarrow> unat i < 64 ^ Suc l"
proof -
  have small: "i < push_bit (6 * (k + 1)) 1 \<longleftrightarrow> unat i < 64 ^ Suc k" if "k < 10" for k
  proof -
    have "(64::nat) ^ Suc k \<le> 64 ^ 10" using that by (intro power_increasing) simp_all
    then have "fits (Suc k) 1" by (simp add: fits_def)
    from unat_push_idx [OF this] show ?thesis by (simp add: word_less_nat_alt)
  qed
  have large: "unat i < 64 ^ Suc k" if "10 \<le> k" for k
  proof -
    have "unat i < 2 ^ 64" using unsigned_less [of i] by simp
    also have "(2::nat) ^ 64 \<le> 2 ^ (6 * Suc k)" using that by (intro power_increasing) simp_all
    finally show ?thesis by (simp only: pow64)
  qed
  show ?thesis
  proof (cases "find (\<lambda>level. i < push_bit (radixBits * (level + 1)) 1) [0..<maxRadixLevel]")
    case None
    then have "\<not> unat i < 64 ^ Suc k" if "k < 10" for k
      using small [OF that] that by (auto simp: find_None_iff radixBits_def maxRadixLevel_def)
    then have "unat i < 64 ^ Suc l \<longleftrightarrow> 10 \<le> l" using large [of l] not_less by blast
    then show ?thesis using None by (simp add: radixLevel_def maxRadixLevel_def)
  next
    case (Some k)
    then have k: "k < 10" "unat i < 64 ^ Suc k" "\<And>j. j < k \<Longrightarrow> \<not> unat i < 64 ^ Suc j"
      using small by (auto simp: find_Some_iff radixBits_def maxRadixLevel_def)
    have "unat i < 64 ^ Suc l" if "k \<le> l"
      using k(2) that power_increasing [of "Suc k" "Suc l" "64::nat"] by linarith
    then have "unat i < 64 ^ Suc l \<longleftrightarrow> k \<le> l" using k(3) [of l] not_less by blast
    then show ?thesis using Some by (simp add: radixLevel_def)
  qed
qed

lemma radixLevel_range: "radixLevel i \<le> l \<longleftrightarrow> in_range l 0 i"
  by (simp add: radixLevel_le in_range_def div_eq_0_iff del: power_Suc)

section \<open>Content and invariant\<close>

text \<open>The entries of a node in descending order, which is the order of the walk.\<close>

fun entries :: "nat \<Rightarrow> InstanceNum \<Rightarrow> ('v, 'a) radix \<Rightarrow> (InstanceNum \<times> 'v) list" where
  "entries 0 prefix (RLeaf p s a) =
     concat (map (\<lambda>idx. if bit p idx then [(prefix OR of_nat idx, s idx)] else []) (rev [0..<64]))"
| "entries (Suc l) prefix (RInner ch a) =
     concat (map (\<lambda>idx. case ch idx of None \<Rightarrow> [] | Some c \<Rightarrow> entries l (childPrefix (Suc l) prefix idx) c)
       (rev [0..<64]))"
| "entries l prefix node = []"

text \<open>
  A node that fits its level and prefix: its aggregate is what \<^verbatim>\<open>recompute\<close> gives and its
  children are nonempty nodes of the next level.
\<close>

fun node_wf :: "('v, 'a) radix_ops \<Rightarrow> nat \<Rightarrow> InstanceNum \<Rightarrow> ('v, 'a) radix \<Rightarrow> bool" where
  "node_wf ops 0 prefix (RLeaf p s a) \<longleftrightarrow> a = agg_leaf ops p s prefix"
| "node_wf ops (Suc l) prefix (RInner ch a) \<longleftrightarrow>
     a = agg_inner ops (\<lambda>idx. map_option radix_agg (ch idx)) \<and>
     (\<forall>idx c. ch idx = Some c \<longrightarrow> fits (Suc l) idx \<and> node_wf ops l (childPrefix (Suc l) prefix idx) c \<and>
        entries l (childPrefix (Suc l) prefix idx) c \<noteq> [])"
| "node_wf ops l prefix node \<longleftrightarrow> False"

lemma node_wf_cases:
  assumes "node_wf ops l prefix node"
  obtains (leaf) p s a where "l = 0" "node = RLeaf p s a"
  | (inner) k ch a where "l = Suc k" "node = RInner ch a"
  using assms by (cases l; cases node) auto

lemma entries_leaf_mem:
  "(i, v) \<in> set (entries 0 prefix (RLeaf p s a)) \<longleftrightarrow> (\<exists>idx < 64. bit p idx \<and> i = prefix OR of_nat idx \<and> v = s idx)"
  by (auto split: if_splits)

lemma entries_inner_mem:
  "x \<in> set (entries (Suc l) prefix (RInner ch a)) \<longleftrightarrow>
     (\<exists>idx < 64. \<exists>c. ch idx = Some c \<and> x \<in> set (entries l (childPrefix (Suc l) prefix idx) c))"
  by (auto split: option.splits) (metis atLeastLessThan_iff le0)+

declare entries.simps [simp del]

lemma slotAt_in_entries:
  assumes "node_wf ops l prefix node" "aligned l prefix"
  shows "(i, v) \<in> set (entries l prefix node) \<longleftrightarrow> in_range l prefix i \<and> slotAt l node i = Some v"
  using assms
proof (induction l prefix node arbitrary: i v rule: entries.induct)
  case (1 prefix p s a)
  show ?case
  proof
    assume "(i, v) \<in> set (entries 0 prefix (RLeaf p s a))"
    then obtain idx where "idx < 64" "bit p idx" "i = prefix OR of_nat idx" "v = s idx" by (auto simp: entries_leaf_mem)
    then show "in_range 0 prefix i \<and> slotAt 0 (RLeaf p s a) i = Some v" using leaf_instance [OF 1(2)] by simp
  next
    assume "in_range 0 prefix i \<and> slotAt 0 (RLeaf p s a) i = Some v"
    then show "(i, v) \<in> set (entries 0 prefix (RLeaf p s a))"
      using leaf_instance(3) [OF 1(2) digit_less [of 0 i], of i] digit_less [of 0 i]
      by (auto simp: entries_leaf_mem Let_def split: if_splits intro!: exI [of _ "digit 0 i"])
  qed
next
  case (2 l prefix ch a)
  have IH: "(i, v) \<in> set (entries l (childPrefix (Suc l) prefix idx) c) \<longleftrightarrow>
      in_range (Suc l) prefix i \<and> digit (Suc l) i = idx \<and> slotAt l c i = Some v" if "ch idx = Some c" "idx < 64" for idx c
  proof -
    have f: "fits (Suc l) idx" and w: "node_wf ops l (childPrefix (Suc l) prefix idx) c" using 2(2) that by auto
    have "(i, v) \<in> set (entries l (childPrefix (Suc l) prefix idx) c) \<longleftrightarrow>
        in_range l (childPrefix (Suc l) prefix idx) i \<and> slotAt l c i = Some v"
      using 2(1) [OF _ that(1) w aligned_child [OF 2(3) f]] that(2) by simp
    then show ?thesis using in_range_child [OF 2(3) f] in_range_parent [OF 2(3) f] by blast
  qed
  show ?case
  proof
    assume "(i, v) \<in> set (entries (Suc l) prefix (RInner ch a))"
    then show "in_range (Suc l) prefix i \<and> slotAt (Suc l) (RInner ch a) i = Some v"
      unfolding entries_inner_mem using IH by fastforce
  next
    assume "in_range (Suc l) prefix i \<and> slotAt (Suc l) (RInner ch a) i = Some v"
    moreover from this obtain c where "ch (digit (Suc l) i) = Some c" "slotAt l c i = Some v"
      by (auto split: option.splits)
    ultimately show "(i, v) \<in> set (entries (Suc l) prefix (RInner ch a))"
      unfolding entries_inner_mem using IH digit_less by blast
  qed
qed auto

lemma entries_in_range:
  "node_wf ops l prefix node \<Longrightarrow> aligned l prefix \<Longrightarrow> x \<in> set (entries l prefix node) \<Longrightarrow> in_range l prefix (fst x)"
  using slotAt_in_entries [of ops l prefix node "fst x" "snd x"] by simp

lemma sorted_wrt_concat_rev:
  assumes "\<And>k. k < n \<Longrightarrow> sorted_wrt P (f k)"
    and "\<And>j k x y. j < k \<Longrightarrow> k < n \<Longrightarrow> x \<in> set (f k) \<Longrightarrow> y \<in> set (f j) \<Longrightarrow> P x y"
  shows "sorted_wrt P (concat (map f (rev [0..<n])))"
  using assms by (induction n) (auto simp: sorted_wrt_append)

lemma entries_descending:
  assumes "node_wf ops l prefix node" "aligned l prefix"
  shows "sorted_wrt (\<lambda>x y. fst x > fst y) (entries l prefix node)"
  using assms
proof (induction l prefix node rule: entries.induct)
  case (1 prefix p s a)
  show ?case
    unfolding entries.simps by (rule sorted_wrt_concat_rev) (auto intro: leaf_mono [OF 1(2)] split: if_splits)
next
  case (2 l prefix ch a)
  have wf: "fits (Suc l) idx \<and> node_wf ops l (childPrefix (Suc l) prefix idx) c" if "ch idx = Some c" for idx c
    using 2(2) that by auto
  show ?case
    unfolding entries.simps
  proof (rule sorted_wrt_concat_rev)
    show "sorted_wrt (\<lambda>x y. fst x > fst y) (case ch k of None \<Rightarrow> [] | Some c \<Rightarrow> entries l (childPrefix (Suc l) prefix k) c)"
      if "k < 64" for k
      using 2(1) wf that aligned_child [OF 2(3)] by (auto split: option.split)
    show "fst x > fst y" if jk: "j < k" "k < 64"
      and x: "x \<in> set (case ch k of None \<Rightarrow> [] | Some c \<Rightarrow> entries l (childPrefix (Suc l) prefix k) c)"
      and y: "y \<in> set (case ch j of None \<Rightarrow> [] | Some c \<Rightarrow> entries l (childPrefix (Suc l) prefix j) c)" for j k x y
    proof -
      obtain c where c: "ch k = Some c" "x \<in> set (entries l (childPrefix (Suc l) prefix k) c)" using x by (cases "ch k") auto
      obtain d where d: "ch j = Some d" "y \<in> set (entries l (childPrefix (Suc l) prefix j) d)" using y by (cases "ch j") auto
      note wc = wf [OF c(1)] and wd = wf [OF d(1)]
      have "in_range l (childPrefix (Suc l) prefix k) (fst x)" "in_range l (childPrefix (Suc l) prefix j) (fst y)"
        using entries_in_range [OF conjunct2 [OF wc] _ c(2)] entries_in_range [OF conjunct2 [OF wd] _ d(2)]
          aligned_child [OF 2(3)] wc wd by blast+
      then show ?thesis
        using child_order [OF 2(3) conjunct1 [OF wd] conjunct1 [OF wc] jk(1), of "fst y" "fst x"] by (simp add: in_range_def)
    qed
  qed
qed (simp_all add: entries.simps)

section \<open>Walks\<close>

lemma yield_all_concat:
  "yield_all (\<lambda>x s. yield_all f (g x) s) xs s = yield_all f (concat (map g xs)) s"
  by (induction xs arbitrary: s) (auto simp: yield_all_append Let_def split: prod.split)

lemma yield_all_cong:
  "(\<And>x s. x \<in> set xs \<Longrightarrow> f x s = g x s) \<Longrightarrow> yield_all f xs s = yield_all g xs s"
  by (induction xs arbitrary: s) (auto simp: Let_def split: prod.split)

lemma in_range_le:
  assumes "aligned l prefix" "fits l a" "in_range l prefix fr"
    and "unat i div 64 ^ l = unat (childPrefix l prefix a) div 64 ^ l"
  shows "a < digit l fr \<Longrightarrow> i \<le> fr" "digit l fr < a \<Longrightarrow> \<not> i \<le> fr"
proof -
  have eq: "unat fr div 64 ^ l = unat (childPrefix l prefix (digit l fr)) div 64 ^ l"
    using digit_eq [OF assms(1) fits_digit assms(3), of fr] by simp
  show "i \<le> fr" if "a < digit l fr"
    using child_order [OF assms(1,2) fits_digit that assms(4) eq] by simp
  show "\<not> i \<le> fr" if "digit l fr < a"
    using child_order [OF assms(1) fits_digit assms(2) that eq assms(4)] by simp
qed

lemma filter_concat_rev:
  assumes "n < 64" "\<And>k. k < n \<Longrightarrow> filter P (f k) = f k" "\<And>k. n < k \<Longrightarrow> k < 64 \<Longrightarrow> filter P (f k) = []"
  shows "filter P (concat (map f (rev [0..<64]))) = concat (map (\<lambda>k. filter P (f k)) (rev [0..<Suc n]))"
proof -
  have "[0..<64] = [0..<Suc n] @ [Suc n..<64]" using upt_add_eq_append [of 0 "Suc n" "63 - n"] assms(1) by (simp del: upt_Suc)
  then have "rev [0..<64] = rev [Suc n..<64] @ rev [0..<Suc n]" by simp
  moreover have "filter P (concat (map f (rev [Suc n..<64]))) = []" using assms(3) by (auto simp: filter_concat)
  ultimately show ?thesis by (simp add: filter_concat comp_def)
qed

text \<open>The entries up to a bound, child by child: the children before the bound's digit, and part of that child.\<close>

lemma entries_upto_leaf:
  assumes "aligned 0 prefix" "in_range 0 prefix fr"
  shows "filter (\<lambda>x. fst x \<le> fr) (entries 0 prefix (RLeaf p sl a)) =
    concat (map (\<lambda>idx. if bit p idx then [(prefix OR of_nat idx, sl idx)] else []) (rev [0..<Suc (digit 0 fr)]))"
    (is "_ = concat (map ?f _)")
proof -
  let ?n = "digit 0 fr"
  have le: "prefix OR of_nat k \<le> fr \<longleftrightarrow> k \<le> ?n" if "k < 64" for k
    using in_range_le [OF assms(1) _ assms(2), of k "prefix OR of_nat k"] leaf_instance(3) [OF assms(1) that assms(2)] that
    by (cases k ?n rule: linorder_cases) (auto simp: fits_def childPrefix_def)
  have "filter (\<lambda>x. fst x \<le> fr) (concat (map ?f (rev [0..<64]))) =
      concat (map (\<lambda>k. filter (\<lambda>x. fst x \<le> fr) (?f k)) (rev [0..<Suc ?n]))"
    using digit_less [of 0 fr] le by (intro filter_concat_rev) auto
  also have "\<dots> = concat (map ?f (rev [0..<Suc ?n]))"
    using digit_less [of 0 fr] le by (intro arg_cong [where f = concat] map_cong) auto
  finally show ?thesis by (simp add: entries.simps)
qed

lemma entries_upto_inner:
  assumes "node_wf ops (Suc l) prefix (RInner ch a)" "aligned (Suc l) prefix" "in_range (Suc l) prefix fr"
  shows "filter (\<lambda>x. fst x \<le> fr) (entries (Suc l) prefix (RInner ch a)) =
    concat (map (\<lambda>idx. case ch idx of None \<Rightarrow> [] | Some c \<Rightarrow>
        filter (\<lambda>x. idx = digit (Suc l) fr \<longrightarrow> fst x \<le> fr) (entries l (childPrefix (Suc l) prefix idx) c))
      (rev [0..<Suc (digit (Suc l) fr)]))"
proof -
  let ?f = "\<lambda>idx. case ch idx of None \<Rightarrow> [] | Some c \<Rightarrow> entries l (childPrefix (Suc l) prefix idx) c"
  let ?n = "digit (Suc l) fr"
  have order: "(k < ?n \<longrightarrow> fst x \<le> fr) \<and> (?n < k \<longrightarrow> \<not> fst x \<le> fr)" if x: "x \<in> set (?f k)" for x k
  proof -
    obtain c where c: "ch k = Some c" "x \<in> set (entries l (childPrefix (Suc l) prefix k) c)" using x by (cases "ch k") auto
    have f: "fits (Suc l) k" "node_wf ops l (childPrefix (Suc l) prefix k) c" using assms(1) c(1) by auto
    have "in_range l (childPrefix (Suc l) prefix k) (fst x)"
      using entries_in_range [OF f(2) aligned_child [OF assms(2) f(1)] c(2)] .
    then show ?thesis using in_range_le [OF assms(2) f(1) assms(3), of "fst x"] by (auto simp: in_range_def)
  qed
  have "filter (\<lambda>x. fst x \<le> fr) (concat (map ?f (rev [0..<64]))) =
      concat (map (\<lambda>k. filter (\<lambda>x. fst x \<le> fr) (?f k)) (rev [0..<Suc ?n]))"
    using order by (intro filter_concat_rev digit_less) (auto simp: filter_id_conv filter_empty_conv simp del: split_paired_All)
  also have "map (\<lambda>k. filter (\<lambda>x. fst x \<le> fr) (?f k)) (rev [0..<Suc ?n]) =
      map (\<lambda>k. filter (\<lambda>x. k = ?n \<longrightarrow> fst x \<le> fr) (?f k)) (rev [0..<Suc ?n])"
  proof (intro map_cong refl filter_cong)
    fix k x assume "k \<in> set (rev [0..<Suc ?n])" "x \<in> set (?f k)"
    then show "(fst x \<le> fr) = (k = ?n \<longrightarrow> fst x \<le> fr)" using order [of x k] by auto
  qed
  also have "(\<lambda>k. filter (\<lambda>x. k = ?n \<longrightarrow> fst x \<le> fr) (?f k)) = (\<lambda>idx. case ch idx of None \<Rightarrow> [] | Some c \<Rightarrow>
        filter (\<lambda>x. idx = ?n \<longrightarrow> fst x \<le> fr) (entries l (childPrefix (Suc l) prefix idx) c))"
    by (rule ext) (simp split: option.split)
  finally show ?thesis by (simp add: entries.simps)
qed

lemma walkDesc_leaf:
  assumes "aligned 0 prefix" "limited \<Longrightarrow> in_range 0 prefix fr"
  shows "walkDesc 0 (RLeaf p sl a) prefix fr limited yield s =
    yield_all yield (filter (\<lambda>x. limited \<longrightarrow> fst x \<le> fr) (entries 0 prefix (RLeaf p sl a))) s"
proof -
  let ?f = "\<lambda>idx. if bit p idx then [(prefix OR of_nat idx, sl idx)] else []"
  have "(\<lambda>idx s. if \<not> bit p idx then (s, True) else yield (prefix OR of_nat idx, sl idx) s) = (\<lambda>idx s. yield_all yield (?f idx) s)"
    by (auto intro!: ext simp: Let_def split: prod.split)
  then show ?thesis
    using entries_upto_leaf [OF assms, of p sl a]
    by (cases limited) (simp_all add: lastIndex_def radixFanout_def yield_all_concat entries.simps del: upt_Suc)
qed

lemma walkDesc_entries:
  assumes "node_wf ops l prefix node" "aligned l prefix" "limited \<Longrightarrow> in_range l prefix fr"
  shows "walkDesc l node prefix fr limited yield s =
    yield_all yield (filter (\<lambda>x. limited \<longrightarrow> fst x \<le> fr) (entries l prefix node)) s"
  using assms
proof (induction l prefix node arbitrary: limited s rule: entries.induct)
  case (1 prefix p sl a)
  show ?case by (rule walkDesc_leaf [OF 1(2) 1(3)])
next
  case (2 l prefix ch a)
  let ?n = "lastIndex (Suc l) fr limited"
  let ?f = "\<lambda>k. case ch k of None \<Rightarrow> [] | Some c \<Rightarrow>
    filter (\<lambda>x. limited \<and> k = ?n \<longrightarrow> fst x \<le> fr) (entries l (childPrefix (Suc l) prefix k) c)"
  have wf: "fits (Suc l) idx" "node_wf ops l (childPrefix (Suc l) prefix idx) c" "aligned l (childPrefix (Suc l) prefix idx)"
    if "ch idx = Some c" for idx c
    using 2(2) that aligned_child [OF 2(3)] by auto
  have n: "?n < 64" using digit_less by (simp add: lastIndex_def radixFanout_def)
  have child: "(case ch k of None \<Rightarrow> (s, True) | Some c \<Rightarrow> walkDesc l c (childPrefix (Suc l) prefix k) fr (limited \<and> k = ?n) yield s) =
      yield_all yield (?f k) s" if k: "k \<in> set (rev [0..<Suc ?n])" for k s
  proof (cases "ch k")
    case (Some c)
    have "walkDesc l c (childPrefix (Suc l) prefix k) fr (limited \<and> k = ?n) yield s =
        yield_all yield (filter (\<lambda>x. limited \<and> k = ?n \<longrightarrow> fst x \<le> fr) (entries l (childPrefix (Suc l) prefix k) c)) s"
    proof (rule 2(1) [OF _ Some wf(2,3) [OF Some]])
      show "k \<in> set (rev [0..<64])" using k n by auto
      show "in_range l (childPrefix (Suc l) prefix k) fr" if "limited \<and> k = ?n"
        using that in_range_child [OF 2(3) wf(1) [OF Some] 2(4)] by (simp add: lastIndex_def)
    qed
    then show ?thesis using Some by simp
  qed simp
  have "walkDesc (Suc l) (RInner ch a) prefix fr limited yield s =
      yield_all (\<lambda>k s. yield_all yield (?f k) s) (rev [0..<Suc ?n]) s"
    unfolding walkDesc.simps Let_def by (rule yield_all_cong) (rule child)
  also have "\<dots> = yield_all yield (filter (\<lambda>x. limited \<longrightarrow> fst x \<le> fr) (entries (Suc l) prefix (RInner ch a))) s"
    unfolding yield_all_concat using entries_upto_inner [OF 2(2,3,4)]
    by (cases limited) (simp_all add: lastIndex_def radixFanout_def entries.simps del: upt_Suc cong: option.case_cong)
  finally show ?case .
qed (simp_all add: entries.simps)

section \<open>Updates\<close>

lemma set_present: "idx < 64 \<Longrightarrow> k < 64 \<Longrightarrow> bit (p OR push_bit idx 1 :: u64) k \<longleftrightarrow> bit p k \<or> k = idx"
  by (auto simp: bit_or_iff bit_push_bit_iff bit_1_iff simp del: push_bit_of_1)

lemma clear_present: "idx < 64 \<Longrightarrow> k < 64 \<Longrightarrow> bit (p AND NOT (push_bit idx 1) :: u64) k \<longleftrightarrow> bit p k \<and> k \<noteq> idx"
  by (auto simp: bit_and_iff bit_not_iff bit_push_bit_iff bit_1_iff simp del: push_bit_of_1)

lemma leaf_digit:
  assumes "aligned 0 prefix" "in_range 0 prefix i"
  shows "in_range 0 prefix j \<Longrightarrow> digit 0 j = digit 0 i \<longleftrightarrow> j = i" "digit 0 k < 64"
  using leaf_instance(3) [OF assms(1) digit_less] assms(2) digit_less by metis+

lemma inner_update:
  assumes "node_wf ops (Suc l) prefix (RInner ch a)" "fits (Suc l) idx"
    and "\<And>c. child = Some c \<Longrightarrow>
      node_wf ops l (childPrefix (Suc l) prefix idx) c \<and> entries l (childPrefix (Suc l) prefix idx) c \<noteq> []"
  shows "node_wf ops (Suc l) prefix (recompute ops prefix (RInner (ch(idx := child)) a))"
  using assms by auto

lemma length_concat_two:
  assumes "j < n" "k < n" "j \<noteq> k"
  shows "length (f j) + length (f k) \<le> length (concat (map f (rev [0..<n])))"
proof -
  have "length (concat (map f (rev [0..<n]))) = (\<Sum>i \<in> {0..<n}. length (f i))"
    by (simp add: length_concat comp_def sum_list_rev rev_map [symmetric] interv_sum_list_conv_sum_set_nat)
  also have "\<dots> \<ge> (\<Sum>i \<in> {j, k}. length (f i))" using assms by (intro sum_mono2) auto
  finally show ?thesis using assms(3) by simp
qed

text \<open>The trees: a root with prefix zero that is not empty, and its entries from the last down.\<close>

definition tree_wf :: "('v, 'a) radix_ops \<Rightarrow> ('v, 'a) radixTree \<Rightarrow> bool" where
  "tree_wf ops t \<longleftrightarrow> (case t of None \<Rightarrow> True | Some (l, root) \<Rightarrow> node_wf ops l 0 root \<and> entries l 0 root \<noteq> [])"

definition tree_entries :: "('v, 'a) radixTree \<Rightarrow> (InstanceNum \<times> 'v) list" where
  "tree_entries t = (case t of None \<Rightarrow> [] | Some (l, root) \<Rightarrow> entries l 0 root)"

lemma aligned_zero [simp]: "aligned l 0"
  by (simp add: aligned_def)

lemma childPrefix_zero [simp]: "childPrefix l 0 0 = 0"
  by (simp add: childPrefix_def)

lemma tree_wf_simps [simp]:
  "tree_wf ops None" "tree_wf ops (Some (l, root)) \<longleftrightarrow> node_wf ops l 0 root \<and> entries l 0 root \<noteq> []"
  by (simp_all add: tree_wf_def)

lemma tree_entries_simps [simp]: "tree_entries None = []" "tree_entries (Some (l, root)) = entries l 0 root"
  by (simp_all add: tree_entries_def)

lemma treeSlot_simps:
  "treeSlot None i = None" "treeSlot (Some (l, root)) i = (if in_range l 0 i then slotAt l root i else None)"
  by (simp_all add: treeSlot_def not_less radixLevel_range flip: not_le)

lemma treeSlot_None [simp]: "treeSlot None = Map.empty"
  by (simp add: fun_eq_iff treeSlot_simps)

lemma treeSlot_in_entries:
  "tree_wf ops t \<Longrightarrow> (i, v) \<in> set (tree_entries t) \<longleftrightarrow> treeSlot t i = Some v"
  by (cases t) (auto simp: treeSlot_simps slotAt_in_entries split: if_splits)

lemma tree_entries_descending: "tree_wf ops t \<Longrightarrow> sorted_wrt (\<lambda>x y. fst x > fst y) (tree_entries t)"
  using entries_descending [OF _ aligned_zero] by (cases t) fastforce+

lemma tree_entries_upto:
  assumes "node_wf ops l 0 root"
  shows "filter (\<lambda>x. in_range l 0 fr \<longrightarrow> fst x \<le> fr) (entries l 0 root) = filter (\<lambda>x. fst x \<le> fr) (entries l 0 root)"
proof -
  have "fst x \<le> fr" if "x \<in> set (entries l 0 root)" "\<not> in_range l 0 fr" for x
    using entries_in_range [OF assms aligned_zero that(1)] that(2)
    by (auto simp: word_le_nat_alt simp flip: radixLevel_range simp: radixLevel_le)
  then show ?thesis by (intro filter_cong) auto
qed

lemma treeWalkDesc_entries:
  assumes "tree_wf ops t"
  shows "treeWalkDesc t fr yield s = yield_all yield (filter (\<lambda>x. fst x \<le> fr) (tree_entries t)) s"
proof (cases t)
  case (Some r)
  obtain l root where r: "r = (l, root)" by (cases r)
  have wf: "node_wf ops l 0 root" using assms Some r by simp
  then show ?thesis
    using walkDesc_entries [OF wf, of "in_range l 0 fr" fr yield s] tree_entries_upto [OF wf]
    by (simp add: Some r treeWalkDesc_def radixLevel_range)
qed (simp add: treeWalkDesc_def)

text \<open>
  The contract of a pair of summaries: the leaf and inner summaries both compute one function of
  the entries below the node, and the count is the number of entries.
\<close>

locale radix_summary =
  fixes ops :: "('v, 'a) radix_ops" and summary :: "(InstanceNum \<times> 'v) list \<Rightarrow> 'a"
  assumes leaf_summary: "aligned 0 prefix \<Longrightarrow> agg_leaf ops p sl prefix = summary (entries 0 prefix (RLeaf p sl (a :: 'a)))"
    and inner_summary: "(\<And>idx. idx < 64 \<Longrightarrow> aggs idx = map_option summary (es idx)) \<Longrightarrow>
      agg_inner ops aggs = summary (concat (map (\<lambda>idx. case es idx of None \<Rightarrow> [] | Some e \<Rightarrow> e) (rev [0..<64])))"
    and zero_summary: "agg_zero ops = summary []"
    and count_summary: "agg_count ops (summary es') = length es'"
begin

lemma agg_entries:
  assumes "node_wf ops l prefix node" "aligned l prefix"
  shows "radix_agg node = summary (entries l prefix node)"
  using assms
proof (induction l prefix node rule: entries.induct)
  case (1 prefix p s a)
  then show ?case using leaf_summary [OF 1(2), of p s a] by simp
next
  case (2 l prefix ch a)
  let ?es = "\<lambda>idx. map_option (entries l (childPrefix (Suc l) prefix idx)) (ch idx)"
  have "agg_inner ops (\<lambda>idx. map_option radix_agg (ch idx)) =
      summary (concat (map (\<lambda>idx. case ?es idx of None \<Rightarrow> [] | Some e \<Rightarrow> e) (rev [0..<64])))"
  proof (rule inner_summary)
    show "map_option radix_agg (ch idx) = map_option summary (?es idx)" if "idx < 64" for idx
      using 2(1) [of idx] 2(2) aligned_child [OF 2(3)] that by (cases "ch idx") auto
  qed
  moreover have "(\<lambda>idx. case ?es idx of None \<Rightarrow> [] | Some e \<Rightarrow> e) =
      (\<lambda>idx. case ch idx of None \<Rightarrow> [] | Some c \<Rightarrow> entries l (childPrefix (Suc l) prefix idx) c)"
    by (auto split: option.split)
  ultimately show ?case using 2(2) by (simp add: entries.simps)
qed simp_all

lemma agg_count_entries:
  "node_wf ops l prefix node \<Longrightarrow> aligned l prefix \<Longrightarrow> agg_count ops (radix_agg node) = length (entries l prefix node)"
  by (simp add: agg_entries count_summary)

lemma newNode_wf:
  assumes "aligned l prefix"
  shows "node_wf ops l prefix (newNode ops l)" "slotAt l (newNode ops l) i = None"
proof -
  have "agg_inner ops (\<lambda>idx. None) = summary []"
    using inner_summary [of "\<lambda>_. None" "\<lambda>_. None"] by (simp add: concat_eq_Nil_conv [THEN iffD2])
  moreover have "agg_leaf ops 0 (\<lambda>_. slot_zero ops) prefix = summary []" if "l = 0"
    using leaf_summary [of prefix 0] assms that by (simp add: entries.simps concat_eq_Nil_conv [THEN iffD2])
  ultimately show "node_wf ops l prefix (newNode ops l)" by (cases l) (auto simp: newNode_def zero_summary)
  show "slotAt l (newNode ops l) i = None" by (cases l) (auto simp: newNode_def)
qed

lemma nonempty_iff_slot:
  "node_wf ops l prefix node \<Longrightarrow> aligned l prefix \<Longrightarrow>
     entries l prefix node \<noteq> [] \<longleftrightarrow> (\<exists>i v. in_range l prefix i \<and> slotAt l node i = Some v)"
  by (simp flip: slotAt_in_entries [of ops]) (cases "entries l prefix node"; force)

lemma setSlot_laws:
  assumes "node_wf ops l prefix node" "aligned l prefix" "in_range l prefix i"
  shows "node_wf ops l prefix (setSlot ops l node i v prefix) \<and>
    (\<forall>j. in_range l prefix j \<longrightarrow>
       slotAt l (setSlot ops l node i v prefix) j = (if j = i then Some v else slotAt l node j))"
  using assms
proof (induction l arbitrary: prefix node)
  case 0
  then obtain p s a where node: "node = RLeaf p s a" by (auto elim: node_wf_cases)
  have "in_range 0 prefix j \<Longrightarrow> slotAt 0 (setSlot ops 0 node i v prefix) j = (if j = i then Some v else slotAt 0 node j)" for j
    using leaf_digit(1) [OF 0(2,3), of j]
    by (cases "j = i") (simp_all add: node Let_def set_present digit_less del: push_bit_of_1)
  then show ?case by (simp add: node Let_def)
next
  case (Suc l)
  then obtain ch a where node: "node = RInner ch a" by (auto elim: node_wf_cases)
  let ?idx = "digit (Suc l) i"
  let ?p = "childPrefix (Suc l) prefix ?idx"
  let ?c = "case ch ?idx of Some c \<Rightarrow> c | None \<Rightarrow> newNode ops l"
  let ?c' = "setSlot ops l ?c i v ?p"
  have al: "aligned l ?p" using aligned_child [OF Suc(3) fits_digit] .
  have r: "in_range l ?p j \<longleftrightarrow> digit (Suc l) j = ?idx" if "in_range (Suc l) prefix j" for j
    using in_range_child [OF Suc(3) fits_digit that] by simp
  have c: "node_wf ops l ?p ?c" using Suc(2) newNode_wf(1) [OF al] by (cases "ch ?idx") (simp_all add: node)
  have i: "in_range l ?p i" using r [OF Suc(4)] by simp
  note IH = Suc(1) [OF c al i]
  have c': "node_wf ops l ?p ?c'"
    "\<And>j. in_range l ?p j \<Longrightarrow> slotAt l ?c' j = (if j = i then Some v else slotAt l ?c j)"
    by (rule IH [THEN conjunct1], rule IH [THEN conjunct2, rule_format])
  moreover have "entries l ?p ?c' \<noteq> []"
    unfolding nonempty_iff_slot [OF c'(1) al] using c'(2) [OF i] i by (metis (full_types))
  ultimately have "node_wf ops (Suc l) prefix (setSlot ops (Suc l) node i v prefix)"
    unfolding node setSlot.simps Let_def using Suc(2) [unfolded node] by (intro inner_update fits_digit) auto
  moreover have "slotAt (Suc l) (setSlot ops (Suc l) node i v prefix) j = (if j = i then Some v else slotAt (Suc l) node j)"
    if "in_range (Suc l) prefix j" for j
    using c'(2) [of j] r [OF that] newNode_wf(2) [OF al]
    by (cases "digit (Suc l) j = ?idx"; cases "ch ?idx"; cases "j = i") (simp_all add: node Let_def)
  ultimately show ?case by simp
qed

lemma removeSlot_laws:
  assumes "node_wf ops l prefix node" "aligned l prefix" "in_range l prefix i"
  shows "case removeSlot ops l node i prefix of
      None \<Rightarrow> slotAt l node i = None
    | Some node' \<Rightarrow> slotAt l node i \<noteq> None \<and> node_wf ops l prefix node' \<and>
       (\<forall>j. in_range l prefix j \<longrightarrow> slotAt l node' j = (if j = i then None else slotAt l node j))"
  using assms
proof (induction l arbitrary: prefix node)
  case 0
  then obtain p s a where node: "node = RLeaf p s a" by (auto elim: node_wf_cases)
  have "slotAt 0 (RLeaf (p AND NOT (push_bit (digit 0 i) 1)) (s(digit 0 i := slot_zero ops)) b) j =
      (if j = i then None else slotAt 0 (RLeaf p s a) j)" if "in_range 0 prefix j" for j and b :: 'a
    using leaf_digit(1) [OF 0(2,3) that]
    by (cases "j = i") (simp_all add: Let_def clear_present digit_less del: push_bit_of_1)
  moreover have "slotAt 0 (RLeaf p s a) i = None \<longleftrightarrow> \<not> bit p (digit 0 i)" by (simp add: Let_def)
  ultimately show ?case
    by (cases "bit p (digit 0 i)") (simp_all add: node Let_def del: slotAt.simps push_bit_of_1)
next
  case (Suc l)
  then obtain ch a where node: "node = RInner ch a" by (auto elim: node_wf_cases)
  let ?idx = "digit (Suc l) i"
  let ?p = "childPrefix (Suc l) prefix ?idx"
  have al: "aligned l ?p" using aligned_child [OF Suc(3) fits_digit] .
  have r: "in_range l ?p j \<longleftrightarrow> digit (Suc l) j = ?idx" if "in_range (Suc l) prefix j" for j
    using in_range_child [OF Suc(3) fits_digit that] by simp
  show ?case
  proof (cases "ch ?idx")
    case (Some c)
    then have c: "node_wf ops l ?p c" using Suc(2) by (auto simp: node)
    note IH = Suc(1) [OF c al, unfolded r [OF Suc(4)], OF refl]
    show ?thesis
    proof (cases "removeSlot ops l c i ?p")
      case None
      then show ?thesis using IH [unfolded None option.case] Some by (simp add: node Let_def)
    next
      case (Some c')
      let ?o = "if agg_count ops (radix_agg c') = 0 then None else Some c'"
      have c': "slotAt l c i \<noteq> None" "node_wf ops l ?p c'"
        "\<And>j. in_range l ?p j \<Longrightarrow> slotAt l c' j = (if j = i then None else slotAt l c j)"
        using IH [unfolded Some option.case] by blast+
      have e: "agg_count ops (radix_agg c') = 0 \<longleftrightarrow> entries l ?p c' = []" using agg_count_entries [OF c'(2) al] by simp
      have "node_wf ops (Suc l) prefix (recompute ops prefix (RInner (ch(?idx := ?o)) a))"
        using Suc(2) [unfolded node] c'(2) by (intro inner_update fits_digit) (auto simp: e split: if_splits)
      moreover have "slotAt (Suc l) (recompute ops prefix (RInner (ch(?idx := ?o)) a)) j =
          (if j = i then None else slotAt (Suc l) node j)" if j: "in_range (Suc l) prefix j" for j
      proof (cases "digit (Suc l) j = ?idx")
        case True
        then have "slotAt l c' j = None" if "entries l ?p c' = []"
          using that nonempty_iff_slot [OF c'(2) al] r [OF j] by (cases "slotAt l c' j") simp_all
        then show ?thesis
          using True c'(3) [of j] r [OF j] \<open>ch ?idx = Some c\<close>
          by (cases "entries l ?p c' = []"; cases "j = i") (simp_all add: node e)
      qed (auto simp: node)
      ultimately show ?thesis
        using Some \<open>ch ?idx = Some c\<close> c'(1) by (simp add: node Let_def del: recompute.simps)
    qed
  qed (simp add: node)
qed

lemma growRoot_laws:
  assumes "node_wf ops l 0 root" "entries l 0 root \<noteq> []" "growRoot ops level l root = (l', root')"
  shows "level \<le> l' \<and> node_wf ops l' 0 root' \<and> treeSlot (Some (l', root')) = treeSlot (Some (l, root))"
  using assms
proof (induction "level - l" arbitrary: l root)
  case 0
  then show ?case by (simp add: growRoot.simps [of ops level l])
next
  case (Suc n)
  let ?top = "recompute ops 0 (RInner ((\<lambda>_. None)(0 := Some root)) (agg_zero ops))"
  have f: "fits (Suc l) 0" by (simp add: fits_def)
  have wf: "node_wf ops (Suc l) 0 ?top" using Suc(3,4) f by simp
  have top: "treeSlot (Some (Suc l, ?top)) i = treeSlot (Some (l, root)) i" for i
    using in_range_child [OF aligned_zero f, of i] in_range_parent [OF aligned_zero f, of i] by (auto simp: treeSlot_simps)
  obtain i v where "treeSlot (Some (l, root)) i = Some v"
    using Suc(4) nonempty_iff_slot [OF Suc(3) aligned_zero] treeSlot_simps(2) by metis
  then have "entries (Suc l) 0 ?top \<noteq> []"
    using nonempty_iff_slot [OF wf] top [of i] by (auto simp: treeSlot_simps split: if_splits)
  moreover have "growRoot ops level (Suc l) ?top = (l', root')" using Suc(2,5) growRoot.simps [of ops level l root] by (simp del: recompute.simps split: if_splits)
  ultimately show ?case using Suc(1) [of "Suc l" ?top] Suc(2) wf top by auto
qed

lemma treeSet_laws:
  assumes "tree_wf ops t"
  shows "tree_wf ops (treeSet ops t i v) \<and> treeSlot (treeSet ops t i v) = (treeSlot t)(i \<mapsto> v)"
proof -
  obtain l root where r: "(case t of None \<Rightarrow> (radixLevel i, newNode ops (radixLevel i)) | Some r \<Rightarrow> r) = (l, root)" by fastforce
  obtain l' root' where g: "growRoot ops (radixLevel i) l root = (l', root')" by fastforce
  have "radixLevel i \<le> l' \<and> node_wf ops l' 0 root' \<and> treeSlot (Some (l', root')) = treeSlot t"
  proof (cases t)
    case None
    then show ?thesis
      using r g newNode_wf [OF aligned_zero] by (auto simp: growRoot.simps [of ops l l] treeSlot_simps)
  next
    case (Some r')
    then show ?thesis using r g growRoot_laws [of l root "radixLevel i"] assms by simp
  qed
  then have a: "in_range l' 0 i" "node_wf ops l' 0 root'" "treeSlot (Some (l', root')) = treeSlot t"
    by (simp_all add: radixLevel_range)
  note laws = setSlot_laws [OF a(2) aligned_zero a(1), of v]
  have t': "treeSet ops t i v = Some (l', setSlot ops l' root' i v 0)" by (simp add: treeSet_def r g Let_def)
  have "treeSlot (treeSet ops t i v) j = ((treeSlot t)(i \<mapsto> v)) j" for j
    using laws a(1) by (simp add: t' treeSlot_simps flip: a(3))
  moreover have "entries l' 0 (setSlot ops l' root' i v 0) \<noteq> []"
    using nonempty_iff_slot [OF laws [THEN conjunct1]] laws a(1) by auto
  ultimately show ?thesis using laws by (auto simp: t')
qed

lemma shrinkRoot_laws:
  assumes "node_wf ops l 0 root" "entries l 0 root \<noteq> []"
  shows "tree_wf ops (Some (shrinkRoot ops l root)) \<and> treeSlot (Some (shrinkRoot ops l root)) = treeSlot (Some (l, root))"
  using assms
proof (induction l arbitrary: root)
  case 0
  then show ?case by (auto elim!: node_wf_cases)
next
  case (Suc l)
  then obtain ch a where root: "root = RInner ch a" by (auto elim: node_wf_cases)
  show ?case
  proof (cases "\<exists>c. ch 0 = Some c \<and> agg_count ops a = agg_count ops (radix_agg c)")
    case True
    then obtain c where c: "ch 0 = Some c" "agg_count ops a = agg_count ops (radix_agg c)" by blast
    have wf: "fits (Suc l) 0" "node_wf ops l 0 c" "entries l 0 c \<noteq> []" using Suc(2) c(1) by (force simp: root)+
    have len: "length (entries (Suc l) 0 root) = length (entries l 0 c)"
      using agg_count_entries [OF Suc(2)] agg_count_entries [OF wf(2)] c(2) by (simp add: root)
    have other: "ch idx = None" if "idx \<noteq> 0" "idx < 64" for idx
    proof (rule ccontr)
      let ?f = "\<lambda>k. case ch k of None \<Rightarrow> [] | Some c \<Rightarrow> entries l (childPrefix (Suc l) 0 k) c"
      assume "ch idx \<noteq> None"
      then have "?f idx \<noteq> []" using Suc(2) by (auto simp: root)
      moreover have "?f 0 = entries l 0 c" using c(1) by simp
      ultimately show False using length_concat_two [of 0 64 idx ?f] len that by (simp add: root entries.simps)
    qed
    have "treeSlot (Some (Suc l, root)) i = treeSlot (Some (l, c)) i" for i
      using in_range_child [OF aligned_zero wf(1), of i] in_range_parent [OF aligned_zero wf(1), of i] c(1)
        other [OF _ digit_less, of "Suc l" i]
      by (auto simp: treeSlot_simps root split: option.split)
    then show ?thesis using Suc(1) [OF wf(2,3)] c by (auto simp: root)
  next
    case False
    then have "shrinkRoot ops (Suc l) root = (Suc l, root)" by (auto simp: root split: option.split)
    then show ?thesis using Suc(2,3) by simp
  qed
qed

lemma treeRemove_laws:
  assumes "tree_wf ops t" "treeRemove ops t i = (t', removed)"
  shows "tree_wf ops t' \<and> treeSlot t' = (treeSlot t)(i := None) \<and> (removed \<longleftrightarrow> treeSlot t i \<noteq> None)"
proof (cases "t = None \<or> treeSlot t i = None")
  case True
  then have "removed = False \<and> t' = t"
  proof (cases t)
    case (Some r)
    obtain l root where r: "r = (l, root)" by (cases r)
    have "removeSlot ops l root i 0 = None" if "in_range l 0 i"
      using removeSlot_laws [of l 0 root i] assms(1) that True
      by (auto simp: Some r treeSlot_simps split: option.splits)
    then show ?thesis
      using assms(2) by (cases "in_range l 0 i") (auto simp: Some r treeRemove_def radixLevel_range simp flip: not_le)
  qed (use assms(2) in \<open>simp add: treeRemove_def\<close>)
  then show ?thesis using True assms(1) by (auto simp: treeSlot_simps)
next
  case False
  then obtain l root where t: "t = Some (l, root)" by auto
  have i: "in_range l 0 i" "slotAt l root i \<noteq> None" using False by (auto simp: t treeSlot_simps split: if_splits)
  have wf: "node_wf ops l 0 root" using assms(1) t by simp
  note laws = removeSlot_laws [OF wf aligned_zero i(1)]
  then obtain root' where root': "removeSlot ops l root i 0 = Some root'" using i(2) by (cases "removeSlot ops l root i 0") auto
  note laws = laws [unfolded root' option.case]
  have slots: "treeSlot (Some (l, root')) = (treeSlot t)(i := None)"
    using laws i(1) by (auto simp: t treeSlot_simps)
  have e: "agg_count ops (radix_agg root') = 0 \<longleftrightarrow> entries l 0 root' = []" using agg_count_entries [of l 0 root'] laws by simp
  show ?thesis
  proof (cases "entries l 0 root' = []")
    case True
    then have "treeSlot (Some (l, root')) j = None" for j
      using nonempty_iff_slot [of l 0 root'] laws by (auto simp: treeSlot_simps)
    then have "treeSlot None = (treeSlot t)(i := None)" unfolding slots [symmetric] by (auto simp: treeSlot_simps)
    then show ?thesis using assms(2) True False i(1) by (auto simp: t treeRemove_def root' e radixLevel_range not_less simp flip: not_le)
  next
    case ne: False
    then show ?thesis
      using shrinkRoot_laws [of l root'] laws slots assms(2) False i(1)
      by (auto simp: t treeRemove_def root' e radixLevel_range simp flip: not_le)
  qed
qed

end

end
