(* ===== verification/LaneTree.thy ===== *)
theory LaneTree
  imports Radix Records
begin

text \<open>
  The two radix tries of \<^verbatim>\<open>epaxos/conflict_engine.go\<close>: the lane tree, which keeps a slot with the
  sequence number and flags of every resident record of a lane and summarizes subtrees by their
  greatest sequence number, eligible instance and global instance; and the posting set, which keeps
  the instances that touch one resource. Both instantiate \<^verbatim>\<open>Radix\<close> with the source's \<^verbatim>\<open>recompute\<close>
  function, and their summaries are shown to be exact.
\<close>

section \<open>Slots\<close>

abbreviation (input) laneSlotStatusNone :: u8 where "laneSlotStatusNone \<equiv> 1"
abbreviation (input) laneSlotTOQPending :: u8 where "laneSlotTOQPending \<equiv> 2"
abbreviation (input) laneSlotNoop :: u8 where "laneSlotNoop \<equiv> 4"
abbreviation (input) laneSlotGlobalScope :: u8 where "laneSlotGlobalScope \<equiv> 8"
abbreviation (input) laneSlotExecuted :: u8 where "laneSlotExecuted \<equiv> 16"

record laneSlot =
  slot_seq :: u64
  slot_flags :: u8

definition recordConflictEligible :: "InstanceRecord \<Rightarrow> bool" where
  "recordConflictEligible rec \<longleftrightarrow> r_Status rec \<noteq> StatusNone \<and> \<not> r_TOQPending rec \<and> r_Kind rec \<noteq> EntryNoop"

definition entryHasGlobalConflictScope :: "EntryKind \<Rightarrow> bool" where
  "entryHasGlobalConflictScope kind \<longleftrightarrow> kind = EntryConfChange \<or> kind = EntryMembership \<or> kind = EntryCheckpoint"

definition recordHasGlobalConflictScope :: "InstanceRecord \<Rightarrow> bool" where
  "recordHasGlobalConflictScope rec \<longleftrightarrow>
     entryHasGlobalConflictScope (r_Kind rec) \<or> r_Kind rec = EntryCommand \<and> fp_All (cmd_Footprint (r_Command rec))"

definition slotForRecord :: "InstanceRecord \<Rightarrow> laneSlot" where
  "slotForRecord rec =
     (let flags = 0;
          flags = (if r_Status rec = StatusNone then flags OR laneSlotStatusNone else flags);
          flags = (if r_TOQPending rec then flags OR laneSlotTOQPending else flags);
          flags = (if r_Kind rec = EntryNoop then flags OR laneSlotNoop else flags);
          flags = (if recordHasGlobalConflictScope rec then flags OR laneSlotGlobalScope else flags);
          flags = (if r_Status rec = StatusExecuted then flags OR laneSlotExecuted else flags)
      in \<lparr>slot_seq = r_Seq rec, slot_flags = flags\<rparr>)"

definition eligible :: "laneSlot \<Rightarrow> bool" where
  "eligible s \<longleftrightarrow> slot_flags s AND (laneSlotStatusNone OR laneSlotTOQPending OR laneSlotNoop) = 0"

definition global :: "laneSlot \<Rightarrow> bool" where
  "global s \<longleftrightarrow> slot_flags s AND laneSlotGlobalScope \<noteq> 0"

section \<open>The lane tree\<close>

record radixSummary =
  node_count :: nat
  node_maxSeq :: u64
  node_maxEligibleAny :: InstanceNum
  node_globalMax :: InstanceNum

abbreviation zero_radixSummary :: radixSummary where
  "zero_radixSummary \<equiv> \<lparr>node_count = 0, node_maxSeq = 0, node_maxEligibleAny = 0, node_globalMax = 0\<rparr>"

text \<open>The two branches of \<^verbatim>\<open>recomputeRadixNode\<close>.\<close>

definition recomputeRadixLeaf :: "u64 \<Rightarrow> (nat \<Rightarrow> laneSlot) \<Rightarrow> InstanceNum \<Rightarrow> radixSummary" where
  "recomputeRadixLeaf present slots prefix =
     fold (\<lambda>idx node.
       if \<not> bit present idx then node
       else let node = node\<lparr>node_count := node_count node + 1\<rparr>; slot = slots idx in
         if \<not> eligible slot then node
         else let instance = prefix OR of_nat idx;
                  node = node\<lparr>node_maxSeq := max (node_maxSeq node) (slot_seq slot),
                    node_maxEligibleAny := max (node_maxEligibleAny node) instance\<rparr>
              in if global slot then node\<lparr>node_globalMax := max (node_globalMax node) instance\<rparr> else node)
       [0..<radixFanout] zero_radixSummary"

definition recomputeRadixInner :: "(nat \<Rightarrow> radixSummary option) \<Rightarrow> radixSummary" where
  "recomputeRadixInner children =
     fold (\<lambda>idx node.
       case children idx of
         None \<Rightarrow> node
       | Some child \<Rightarrow> \<lparr>node_count = node_count node + node_count child,
           node_maxSeq = max (node_maxSeq node) (node_maxSeq child),
           node_maxEligibleAny = max (node_maxEligibleAny node) (node_maxEligibleAny child),
           node_globalMax = max (node_globalMax node) (node_globalMax child)\<rparr>)
       [0..<radixFanout] zero_radixSummary"

definition lane_ops :: "(laneSlot, radixSummary) radix_ops" where
  "lane_ops = \<lparr>agg_leaf = recomputeRadixLeaf, agg_inner = recomputeRadixInner, agg_count = node_count,
     agg_zero = zero_radixSummary, slot_zero = \<lparr>slot_seq = 0, slot_flags = 0\<rparr>\<rparr>"

type_synonym radixNode = "(laneSlot, radixSummary) radix"
type_synonym laneTree = "(laneSlot, radixSummary) radixTree"

definition laneTree_set :: "laneTree \<Rightarrow> InstanceNum \<Rightarrow> laneSlot \<Rightarrow> laneTree" where
  "laneTree_set t instance slot = treeSet lane_ops t instance slot"

definition laneTree_remove :: "laneTree \<Rightarrow> InstanceNum \<Rightarrow> laneTree \<times> bool" where
  "laneTree_remove t instance = treeRemove lane_ops t instance"

definition laneTree_slot :: "laneTree \<Rightarrow> InstanceNum \<Rightarrow> laneSlot option" where
  "laneTree_slot t instance = treeSlot t instance"

definition laneTree_walkDesc ::
  "laneTree \<Rightarrow> InstanceNum \<Rightarrow> (InstanceNum \<times> laneSlot \<Rightarrow> 's \<Rightarrow> 's \<times> bool) \<Rightarrow> 's \<Rightarrow> 's \<times> bool" where
  "laneTree_walkDesc t from yield s = treeWalkDesc t from yield s"

fun prefixMaxRadix :: "nat \<Rightarrow> radixNode \<Rightarrow> InstanceNum \<Rightarrow> bool \<Rightarrow> u64" where
  "prefixMaxRadix 0 (RLeaf p s a) through limited =
     (if \<not> limited then node_maxSeq a
      else fold (\<lambda>idx result. if bit p idx then
               let slot = s idx in if eligible slot then max result (slot_seq slot) else result
             else result)
           [0..<Suc (digit 0 through)] 0)"
| "prefixMaxRadix (Suc l) (RInner ch a) through limited =
     (if \<not> limited then node_maxSeq a
      else let last = digit (Suc l) through in
        fold (\<lambda>idx result. max result
               (case ch idx of None \<Rightarrow> 0 | Some c \<Rightarrow> prefixMaxRadix l c through (idx = last)))
           [0..<Suc last] 0)"
| "prefixMaxRadix l node through limited = 0"

definition laneTree_prefixMaxSeq :: "laneTree \<Rightarrow> InstanceNum \<Rightarrow> u64" where
  "laneTree_prefixMaxSeq t through =
     (case t of None \<Rightarrow> 0 | Some (l, root) \<Rightarrow> prefixMaxRadix l root through (radixLevel through \<le> l))"

text \<open>The walk over the eligible records with global scope, which skips subtrees that hold none.\<close>

fun walkGlobalRadixDesc :: "nat \<Rightarrow> radixNode \<Rightarrow> InstanceNum \<Rightarrow> InstanceNum \<Rightarrow> bool \<Rightarrow>
    (InstanceNum \<times> laneSlot \<Rightarrow> 's \<Rightarrow> 's \<times> bool) \<Rightarrow> 's \<Rightarrow> 's \<times> bool" where
  "walkGlobalRadixDesc 0 (RLeaf p sl a) prefix from limited yield s =
     (if node_globalMax a = 0 then (s, True)
      else yield_all (\<lambda>idx s.
          if \<not> bit p idx then (s, True)
          else let instance = prefix OR of_nat idx in
            if limited \<and> instance > from then (s, True)
            else let slot = sl idx in
              if \<not> global slot \<or> \<not> eligible slot then (s, True) else yield (instance, slot) s)
        (rev [0..<Suc (lastIndex 0 from limited)]) s)"
| "walkGlobalRadixDesc (Suc l) (RInner ch a) prefix from limited yield s =
     (if node_globalMax a = 0 then (s, True)
      else let last = lastIndex (Suc l) from limited in
        yield_all (\<lambda>idx s. case ch idx of
            None \<Rightarrow> (s, True)
          | Some child \<Rightarrow>
              if node_globalMax (radix_agg child) = 0 then (s, True)
              else let cp = childPrefix (Suc l) prefix idx in
                if limited \<and> cp > from then (s, True)
                else walkGlobalRadixDesc l child cp from (limited \<and> idx = last) yield s)
          (rev [0..<Suc last]) s)"
| "walkGlobalRadixDesc l node prefix from limited yield s = (s, True)"

section \<open>The posting set\<close>

record postingSummary =
  post_count :: nat
  post_maximum :: InstanceNum

definition recomputePostingLeaf :: "u64 \<Rightarrow> (nat \<Rightarrow> unit) \<Rightarrow> InstanceNum \<Rightarrow> postingSummary" where
  "recomputePostingLeaf present slots prefix =
     fold (\<lambda>idx node. if bit present idx
         then \<lparr>post_count = post_count node + 1, post_maximum = prefix OR of_nat idx\<rparr> else node)
       [0..<radixFanout] \<lparr>post_count = 0, post_maximum = 0\<rparr>"

definition recomputePostingInner :: "(nat \<Rightarrow> postingSummary option) \<Rightarrow> postingSummary" where
  "recomputePostingInner children =
     fold (\<lambda>idx node. case children idx of
         Some child \<Rightarrow> \<lparr>post_count = post_count node + post_count child,
           post_maximum = max (post_maximum node) (post_maximum child)\<rparr>
       | None \<Rightarrow> node)
       [0..<radixFanout] \<lparr>post_count = 0, post_maximum = 0\<rparr>"

definition posting_ops :: "(unit, postingSummary) radix_ops" where
  "posting_ops = \<lparr>agg_leaf = recomputePostingLeaf, agg_inner = recomputePostingInner, agg_count = post_count,
     agg_zero = \<lparr>post_count = 0, post_maximum = 0\<rparr>, slot_zero = ()\<rparr>"

type_synonym postingNode = "(unit, postingSummary) radix"
type_synonym postingSet = "(unit, postingSummary) radixTree"

definition postingSet_insert :: "postingSet \<Rightarrow> InstanceNum \<Rightarrow> postingSet" where
  "postingSet_insert s instance = treeSet posting_ops s instance ()"

definition postingSet_remove :: "postingSet \<Rightarrow> InstanceNum \<Rightarrow> postingSet \<times> bool" where
  "postingSet_remove s instance = treeRemove posting_ops s instance"

definition postingSet_max :: "postingSet \<Rightarrow> InstanceNum" where
  "postingSet_max s = (case s of None \<Rightarrow> 0 | Some (l, root) \<Rightarrow> post_maximum (radix_agg root))"

definition walkPostingDesc :: "nat \<Rightarrow> postingNode \<Rightarrow> InstanceNum \<Rightarrow> InstanceNum \<Rightarrow> bool \<Rightarrow>
    (InstanceNum \<Rightarrow> 's \<Rightarrow> 's \<times> bool) \<Rightarrow> 's \<Rightarrow> 's \<times> bool" where
  "walkPostingDesc l node prefix from limited yield s = walkDesc l node prefix from limited (\<lambda>x. yield (fst x)) s"

definition predecessor :: "postingSet \<Rightarrow> InstanceNum \<Rightarrow> InstanceNum option" where
  "predecessor s from =
     (case s of
        None \<Rightarrow> None
      | Some (l, root) \<Rightarrow>
          fst (walkPostingDesc l root 0 from (radixLevel from \<le> l) (\<lambda>instance _. (Some instance, False)) None))"

definition postingSet_contains :: "postingSet \<Rightarrow> InstanceNum \<Rightarrow> bool" where
  "postingSet_contains s instance = (predecessor s instance = Some instance)"

section \<open>The self check\<close>

text \<open>
  What \<^verbatim>\<open>verifyRadixNode\<close> and \<^verbatim>\<open>verifyPostingNode\<close> report: an aggregate that differs from the
  recomputed one, or a child whose level is not one less than its parent's; the latter is a node
  whose shape does not fit.
\<close>

datatype verifyError = AggregateMismatch nat | LevelMismatch nat

fun fits_level :: "nat \<Rightarrow> ('v, 'a) radix \<Rightarrow> bool" where
  "fits_level 0 (RLeaf p s a) = True"
| "fits_level (Suc l) (RInner ch a) = True"
| "fits_level l node = False"

definition first_Some :: "('x \<Rightarrow> 'e option) \<Rightarrow> 'x list \<Rightarrow> 'e option" where
  "first_Some f xs = (case filter (\<lambda>x. f x \<noteq> None) xs of [] \<Rightarrow> None | x # _ \<Rightarrow> f x)"

fun verifyNode :: "('v, 'a) radix_ops \<Rightarrow> nat \<Rightarrow> ('v, 'a) radix \<Rightarrow> InstanceNum \<Rightarrow> verifyError option" where
  "verifyNode ops 0 (RLeaf p s a) prefix =
     (if agg_leaf ops p s prefix \<noteq> a then Some (AggregateMismatch 0) else None)"
| "verifyNode ops (Suc l) (RInner ch a) prefix =
     (if agg_inner ops (\<lambda>idx. map_option radix_agg (ch idx)) \<noteq> a then Some (AggregateMismatch (Suc l))
      else first_Some (\<lambda>idx. case ch idx of
          None \<Rightarrow> None
        | Some child \<Rightarrow>
            if \<not> fits_level l child then Some (LevelMismatch (Suc l))
            else verifyNode ops l child (childPrefix (Suc l) prefix idx))
        [0..<radixFanout])"
| "verifyNode ops l node prefix = Some (LevelMismatch l)"

definition verifyTree :: "('v, 'a) radix_ops \<Rightarrow> ('v, 'a) radixTree \<Rightarrow> verifyError option" where
  "verifyTree ops t = (case t of None \<Rightarrow> None | Some (l, root) \<Rightarrow> verifyNode ops l root 0)"

section \<open>Flags\<close>

lemma slotForRecord_simps [simp]:
  "slot_seq (slotForRecord rec) = r_Seq rec"
  "eligible (slotForRecord rec) = recordConflictEligible rec"
  "global (slotForRecord rec) = recordHasGlobalConflictScope rec"
  by (simp_all add: slotForRecord_def eligible_def global_def recordConflictEligible_def Let_def)

section \<open>Summaries\<close>

lemma foldr_concat_rev: "foldr f (concat (map g (rev xs))) z = fold (\<lambda>x. foldr f (g x)) xs z"
  by (induction xs arbitrary: z) simp_all

lemma fold_children:
  assumes "\<And>es a. foldr add es a = join a (foldr add es zero)" "\<And>es. summary es = foldr add es zero"
    and "\<And>idx. idx < 64 \<Longrightarrow> aggs idx = map_option summary (es idx)"
  shows "fold (\<lambda>idx node. case aggs idx of None \<Rightarrow> node | Some child \<Rightarrow> join node child) [0..<64] zero =
    summary (concat (map (\<lambda>idx. case es idx of None \<Rightarrow> [] | Some e \<Rightarrow> e) (rev [0..<64])))"
  unfolding foldr_concat_rev assms(2)
proof (rule fold_cong [OF refl refl], rule ext)
  fix idx node assume "idx \<in> set [0..<64]"
  then show "(case aggs idx of None \<Rightarrow> node | Some child \<Rightarrow> join node child) =
      foldr add (case es idx of None \<Rightarrow> [] | Some e \<Rightarrow> e) node"
    using assms(1) [of _ node] assms(2) assms(3) [of idx] by (cases "es idx") auto
qed

definition lane_add :: "InstanceNum \<times> laneSlot \<Rightarrow> radixSummary \<Rightarrow> radixSummary" where
  "lane_add x a =
     \<lparr>node_count = node_count a + 1,
      node_maxSeq = (if eligible (snd x) then max (node_maxSeq a) (slot_seq (snd x)) else node_maxSeq a),
      node_maxEligibleAny = (if eligible (snd x) then max (node_maxEligibleAny a) (fst x) else node_maxEligibleAny a),
      node_globalMax = (if eligible (snd x) \<and> global (snd x) then max (node_globalMax a) (fst x) else node_globalMax a)\<rparr>"

definition lane_join :: "radixSummary \<Rightarrow> radixSummary \<Rightarrow> radixSummary" where
  "lane_join a b =
     \<lparr>node_count = node_count a + node_count b, node_maxSeq = max (node_maxSeq a) (node_maxSeq b),
      node_maxEligibleAny = max (node_maxEligibleAny a) (node_maxEligibleAny b),
      node_globalMax = max (node_globalMax a) (node_globalMax b)\<rparr>"

definition lane_summary :: "(InstanceNum \<times> laneSlot) list \<Rightarrow> radixSummary" where
  "lane_summary es = foldr lane_add es zero_radixSummary"

lemma lane_join_add: "foldr lane_add es a = lane_join a (foldr lane_add es zero_radixSummary)"
proof (induction es)
  case (Cons x es)
  have "lane_add x (lane_join a b) = lane_join a (lane_add x b)" for b
    by (simp add: lane_add_def lane_join_def max.assoc)
  then show ?case using Cons by simp
qed (simp add: lane_join_def)

lemma recomputeRadixInner_join:
  "recomputeRadixInner aggs =
     fold (\<lambda>idx node. case aggs idx of None \<Rightarrow> node | Some child \<Rightarrow> lane_join node child) [0..<64] zero_radixSummary"
  by (simp add: recomputeRadixInner_def radixFanout_def lane_join_def cong: option.case_cong)

interpretation lane: radix_summary lane_ops lane_summary
proof
  show "agg_leaf lane_ops p sl prefix = lane_summary (entries 0 prefix (RLeaf p sl a))" for p sl prefix and a :: radixSummary
    unfolding lane_summary_def entries.simps foldr_concat_rev lane_ops_def radix_ops.simps recomputeRadixLeaf_def radixFanout_def
    by (rule fold_cong [OF refl refl]) (simp add: fun_eq_iff lane_add_def Let_def)
  show "agg_inner lane_ops aggs = lane_summary (concat (map (\<lambda>idx. case es idx of None \<Rightarrow> [] | Some e \<Rightarrow> e) (rev [0..<64])))"
    if "\<And>idx. idx < 64 \<Longrightarrow> aggs idx = map_option lane_summary (es idx)" for aggs es
    using fold_children [OF lane_join_add lane_summary_def that] by (simp add: lane_ops_def recomputeRadixInner_join)
  show "agg_zero lane_ops = lane_summary []" by (simp add: lane_ops_def lane_summary_def)
  show "agg_count lane_ops (lane_summary es) = length es" for es
    by (induction es) (simp_all add: lane_ops_def lane_summary_def lane_add_def)
qed

definition posting_add :: "InstanceNum \<times> unit \<Rightarrow> postingSummary \<Rightarrow> postingSummary" where
  "posting_add x a = \<lparr>post_count = post_count a + 1, post_maximum = max (post_maximum a) (fst x)\<rparr>"

definition posting_join :: "postingSummary \<Rightarrow> postingSummary \<Rightarrow> postingSummary" where
  "posting_join a b = \<lparr>post_count = post_count a + post_count b, post_maximum = max (post_maximum a) (post_maximum b)\<rparr>"

abbreviation zero_postingSummary :: postingSummary where
  "zero_postingSummary \<equiv> \<lparr>post_count = 0, post_maximum = 0\<rparr>"

definition posting_summary :: "(InstanceNum \<times> unit) list \<Rightarrow> postingSummary" where
  "posting_summary es = foldr posting_add es zero_postingSummary"

lemma posting_join_add: "foldr posting_add es a = posting_join a (foldr posting_add es zero_postingSummary)"
proof (induction es)
  case (Cons x es)
  have "posting_add x (posting_join a b) = posting_join a (posting_add x b)" for b
    by (simp add: posting_add_def posting_join_def max.assoc)
  then show ?case using Cons by simp
qed (simp add: posting_join_def)

text \<open>The loop over a leaf stores the last instance it meets, which is the greatest.\<close>

lemma posting_leaf_loop:
  fixes p :: u64 and sl :: "nat \<Rightarrow> unit"
  assumes "aligned 0 prefix" "n \<le> 64"
  defines "r \<equiv> fold (\<lambda>idx node. if bit p idx
      then \<lparr>post_count = post_count node + 1, post_maximum = prefix OR of_nat idx\<rparr> else node) [0..<n] zero_postingSummary"
  shows "r = fold (\<lambda>idx. foldr posting_add (if bit p idx then [(prefix OR of_nat idx, sl idx)] else [])) [0..<n] zero_postingSummary \<and>
    (\<forall>k. n \<le> k \<longrightarrow> k < 64 \<longrightarrow> post_maximum r \<le> prefix OR of_nat k)"
  using assms(2) unfolding r_def
proof (induction n)
  case (Suc n)
  then show ?case
    using leaf_mono [OF assms(1), of n] by (auto simp: posting_add_def max_absorb2 less_imp_le)
qed simp

lemma recomputePostingInner_join:
  "recomputePostingInner aggs =
     fold (\<lambda>idx node. case aggs idx of None \<Rightarrow> node | Some child \<Rightarrow> posting_join node child) [0..<64] zero_postingSummary"
  by (simp add: recomputePostingInner_def radixFanout_def posting_join_def cong: option.case_cong)

interpretation posting: radix_summary posting_ops posting_summary
proof
  show "agg_leaf posting_ops p sl prefix = posting_summary (entries 0 prefix (RLeaf p sl a))"
    if "aligned 0 prefix" for p sl prefix and a :: postingSummary
    using posting_leaf_loop [OF that, of 64 p sl]
    by (simp add: posting_summary_def entries.simps foldr_concat_rev posting_ops_def recomputePostingLeaf_def radixFanout_def)
  show "agg_inner posting_ops aggs = posting_summary (concat (map (\<lambda>idx. case es idx of None \<Rightarrow> [] | Some e \<Rightarrow> e) (rev [0..<64])))"
    if "\<And>idx. idx < 64 \<Longrightarrow> aggs idx = map_option posting_summary (es idx)" for aggs es
    using fold_children [OF posting_join_add posting_summary_def that]
    by (simp add: posting_ops_def recomputePostingInner_join)
  show "agg_zero posting_ops = posting_summary []" by (simp add: posting_ops_def posting_summary_def)
  show "agg_count posting_ops (posting_summary es) = length es" for es
    by (induction es) (simp_all add: posting_ops_def posting_summary_def posting_add_def)
qed

section \<open>What the summaries mean\<close>

text \<open>The greatest value of a function over the entries that satisfy a condition, and zero if there is none.\<close>

definition maxOver :: "('x \<Rightarrow> u64) \<Rightarrow> ('x \<Rightarrow> bool) \<Rightarrow> 'x set \<Rightarrow> u64" where
  "maxOver f P A = Max (insert 0 (f ` {x \<in> A. P x}))"

lemma maxOver_empty [simp]: "maxOver f P {} = 0"
  by (simp add: maxOver_def)

lemma maxOver_Un: "finite A \<Longrightarrow> finite B \<Longrightarrow> maxOver f P (A \<union> B) = max (maxOver f P A) (maxOver f P B)"
proof -
  assume fin: "finite A" "finite B"
  have "insert 0 (f ` {x \<in> A \<union> B. P x}) = insert 0 (f ` {x \<in> A. P x}) \<union> insert 0 (f ` {x \<in> B. P x})" by blast
  then show ?thesis using fin by (simp only: maxOver_def) (rule Max.union, auto)
qed

lemma maxOver_insert:
  assumes "finite A"
  shows "maxOver f P (insert x A) = (if P x then max (f x) (maxOver f P A) else maxOver f P A)"
proof -
  have "maxOver f P {x} = (if P x then f x else 0)" by (auto simp: maxOver_def Collect_conv_if)
  then show ?thesis using maxOver_Un [of "{x}" A f P] assms by simp
qed

lemma maxOver_ge: "finite A \<Longrightarrow> x \<in> A \<Longrightarrow> P x \<Longrightarrow> f x \<le> maxOver f P A"
  by (auto simp: maxOver_def)

lemma maxOver_attained: "finite A \<Longrightarrow> maxOver f P A \<noteq> 0 \<Longrightarrow> \<exists>x \<in> A. P x \<and> f x = maxOver f P A"
  unfolding maxOver_def using Max_in [of "insert 0 (f ` {x \<in> A. P x})"] by auto

lemma maxOver_mono_set: "(\<And>x. x \<in> A \<and> P x \<longleftrightarrow> x \<in> B \<and> Q x) \<Longrightarrow> maxOver f P A = maxOver f Q B"
  by (simp add: maxOver_def)

lemma lane_summary_meaning:
  "node_maxSeq (lane_summary es) = maxOver (slot_seq \<circ> snd) (eligible \<circ> snd) (set es)"
  "node_maxEligibleAny (lane_summary es) = maxOver fst (eligible \<circ> snd) (set es)"
  "node_globalMax (lane_summary es) = maxOver fst (\<lambda>x. eligible (snd x) \<and> global (snd x)) (set es)"
  by (induction es) (simp_all add: lane_summary_def lane_add_def maxOver_insert max.commute)

lemma posting_summary_meaning: "post_maximum (posting_summary es) = maxOver fst (\<lambda>_. True) (set es)"
  by (induction es) (simp_all add: posting_summary_def posting_add_def maxOver_insert max.commute)

definition seqMax :: "(InstanceNum \<times> laneSlot) list \<Rightarrow> u64" where
  "seqMax es = maxOver (slot_seq \<circ> snd) (eligible \<circ> snd) (set es)"

lemma seqMax_simps [simp]:
  "seqMax [] = 0" "seqMax (x # es) = (if eligible (snd x) then max (slot_seq (snd x)) (seqMax es) else seqMax es)"
  "seqMax (es @ fs) = max (seqMax es) (seqMax fs)"
  by (simp_all add: seqMax_def maxOver_insert maxOver_Un)

lemma fold_seqMax: "fold (\<lambda>k r. max r (seqMax (g k))) ks z = max z (seqMax (concat (map g (rev ks))))"
  by (induction ks arbitrary: z) (simp_all add: max.assoc, simp add: max.commute max.left_commute)

lemma lane_agg_maxSeq:
  "node_wf lane_ops l prefix node \<Longrightarrow> aligned l prefix \<Longrightarrow> node_maxSeq (radix_agg node) = seqMax (entries l prefix node)"
  by (simp add: lane.agg_entries lane_summary_meaning seqMax_def)

lemma prefixMaxRadix_entries:
  assumes "node_wf lane_ops l prefix node" "aligned l prefix" "limited \<Longrightarrow> in_range l prefix fr"
  shows "prefixMaxRadix l node fr limited = seqMax (filter (\<lambda>x. limited \<longrightarrow> fst x \<le> fr) (entries l prefix node))"
  using assms
proof (induction l prefix node arbitrary: limited rule: entries.induct)
  case (1 prefix p s a)
  let ?f = "\<lambda>idx. if bit p idx then [(prefix OR of_nat idx, s idx)] else []"
  have step: "(\<lambda>idx result. if bit p idx then let slot = s idx in if eligible slot then max result (slot_seq slot) else result else result) =
      (\<lambda>idx result. max result (seqMax (?f idx)))"
    by (auto simp: fun_eq_iff Let_def)
  show ?case
    using 1(3) entries_upto_leaf [OF 1(2), of fr p s a] lane_agg_maxSeq [OF 1(1,2)]
    by (cases limited) (simp_all only: prefixMaxRadix.simps step fold_seqMax radix_agg.simps, simp_all)
next
  case (2 l prefix ch a)
  let ?n = "digit (Suc l) fr"
  let ?f = "\<lambda>idx. case ch idx of None \<Rightarrow> [] | Some c \<Rightarrow>
    filter (\<lambda>x. idx = ?n \<longrightarrow> fst x \<le> fr) (entries l (childPrefix (Suc l) prefix idx) c)"
  have child: "(case ch idx of None \<Rightarrow> 0 | Some c \<Rightarrow> prefixMaxRadix l c fr (idx = ?n)) = seqMax (?f idx)"
    if "idx \<in> set [0..<Suc ?n]" limited for idx
  proof (cases "ch idx")
    case (Some c)
    then have wf: "fits (Suc l) idx" "node_wf lane_ops l (childPrefix (Suc l) prefix idx) c" using 2(2) by auto
    have "idx \<in> set (rev [0..<64])" using that digit_less [of "Suc l" fr] by auto
    from 2(1) [OF this Some wf(2) aligned_child [OF 2(3) wf(1)], of "idx = ?n"] show ?thesis
      using in_range_child [OF 2(3) wf(1), of fr] 2(4) that(2) Some by auto
  qed simp
  have "prefixMaxRadix (Suc l) (RInner ch a) fr limited = fold (\<lambda>idx r. max r (seqMax (?f idx))) [0..<Suc ?n] 0" if limited
    using that child by (auto simp: Let_def simp del: upt_Suc intro!: fold_cong)
  then show ?case
    using entries_upto_inner [OF 2(2,3), of fr] 2(4) lane_agg_maxSeq [OF 2(2,3)]
    by (cases limited) (simp_all add: fold_seqMax del: upt_Suc)
qed simp_all

section \<open>The walk over global records\<close>

text \<open>
  A subtree is skipped when its greatest global instance is zero; as no record has instance zero,
  it then holds no global record.
\<close>

abbreviation global_entry :: "InstanceNum \<times> laneSlot \<Rightarrow> bool" where
  "global_entry x \<equiv> eligible (snd x) \<and> global (snd x)"

abbreviation global_only :: "(InstanceNum \<times> laneSlot \<Rightarrow> 's \<Rightarrow> 's \<times> bool) \<Rightarrow> InstanceNum \<times> laneSlot \<Rightarrow> 's \<Rightarrow> 's \<times> bool" where
  "global_only yield \<equiv> \<lambda>x s. if global_entry x then yield x s else (s, True)"

lemma yield_all_if: "yield_all (\<lambda>x s. if P x then f x s else (s, True)) xs s = yield_all f (filter P xs) s"
  by (induction xs arbitrary: s) (auto split: prod.split)

lemma skip_without_global:
  assumes "node_wf lane_ops l prefix node" "aligned l prefix" "limited \<Longrightarrow> in_range l prefix fr"
    and "node_globalMax (radix_agg node) = 0" "0 \<notin> fst ` set (entries l prefix node)"
  shows "walkDesc l node prefix fr limited (global_only yield) s = (s, True)"
proof -
  have "maxOver fst global_entry (set (entries l prefix node)) = 0"
    using assms(1,2,4) by (simp add: lane.agg_entries lane_summary_meaning)
  then have "fst x = 0" if "x \<in> set (entries l prefix node)" "global_entry x" for x
    using maxOver_ge [of "set (entries l prefix node)" x global_entry fst] that by simp
  then have "\<not> global_entry x" if "x \<in> set (entries l prefix node)" for x using assms(5) that by (metis imageI)
  then have "filter global_entry (filter (\<lambda>x. limited \<longrightarrow> fst x \<le> fr) (entries l prefix node)) = []"
    unfolding filter_empty_conv by auto
  moreover have "walkDesc l node prefix fr limited (global_only yield) s =
      yield_all (global_only yield) (filter (\<lambda>x. limited \<longrightarrow> fst x \<le> fr) (entries l prefix node)) s"
    by (rule walkDesc_entries) (use assms in simp_all)
  ultimately show ?thesis by (simp only: yield_all_if yield_all.simps)
qed

lemma child_not_beyond:
  assumes "aligned l prefix" "fits l idx" "in_range l prefix fr" "idx \<le> digit l fr"
  shows "childPrefix l prefix idx \<le> fr"
proof -
  obtain q where q: "unat prefix = q * 64 ^ Suc l" using assms(1) by (auto simp: aligned_def elim!: dvdE simp flip: dvd_eq_mod_eq_0)
  have "unat fr div 64 ^ Suc l = q" using assms(3) q by (simp add: in_range_def del: power_Suc)
  then have "(64 * q + digit l fr) * 64 ^ l \<le> unat fr"
    using digit_Suc [of fr l] div_times_less_eq_dividend [of "unat fr" "64 ^ l"] by simp
  moreover have "(64 * q + idx) * 64 ^ l \<le> (64 * q + digit l fr) * 64 ^ l" using assms(4) by simp
  moreover have "unat prefix + idx * 64 ^ l = (64 * q + idx) * 64 ^ l" by (simp add: q add_mult_distrib)
  ultimately have "unat prefix + idx * 64 ^ l \<le> unat fr" by linarith
  then show ?thesis by (simp add: word_le_nat_alt unat_childPrefix [OF assms(1,2)])
qed

lemma walkGlobal_walk:
  assumes "node_wf lane_ops l prefix node" "aligned l prefix" "limited \<Longrightarrow> in_range l prefix fr"
    and "0 \<notin> fst ` set (entries l prefix node)"
  shows "walkGlobalRadixDesc l node prefix fr limited yield s = walkDesc l node prefix fr limited (global_only yield) s"
  using assms
proof (induction l prefix node arbitrary: limited s rule: entries.induct)
  case (1 prefix p sl a)
  show ?case
  proof (cases "node_globalMax a = 0")
    case False
    have "\<not> (limited \<and> prefix OR of_nat idx > fr)" if "idx \<in> set (rev [0..<Suc (lastIndex 0 fr limited)])" for idx
      using child_not_beyond [OF 1(2), of idx fr] 1(3) that digit_less [of 0 fr]
      by (auto simp: lastIndex_def fits_def childPrefix_def not_less)
    then show ?thesis
      using False unfolding walkGlobalRadixDesc.simps walkDesc.simps Let_def
      by (simp del: upt_Suc) (rule yield_all_cong, auto)
  next
    case True
    have "walkDesc 0 (RLeaf p sl a) prefix fr limited (global_only yield) s = (s, True)"
      by (rule skip_without_global) (use 1 True in simp_all)
    then show ?thesis using True by (simp del: walkDesc.simps)
  qed
next
  case (2 l prefix ch a)
  show ?case
  proof (cases "node_globalMax a = 0")
    case False
    let ?n = "lastIndex (Suc l) fr limited"
    have "(case ch idx of None \<Rightarrow> (s, True) | Some child \<Rightarrow>
          if node_globalMax (radix_agg child) = 0 then (s, True)
          else let cp = childPrefix (Suc l) prefix idx in
            if limited \<and> cp > fr then (s, True) else walkGlobalRadixDesc l child cp fr (limited \<and> idx = ?n) yield s) =
        (case ch idx of None \<Rightarrow> (s, True) | Some c \<Rightarrow>
           walkDesc l c (childPrefix (Suc l) prefix idx) fr (limited \<and> idx = ?n) (global_only yield) s)"
      if idx: "idx \<in> set (rev [0..<Suc ?n])" for idx s
    proof (cases "ch idx")
      case (Some c)
      let ?p = "childPrefix (Suc l) prefix idx"
      have wf: "fits (Suc l) idx" "node_wf lane_ops l ?p c" using 2(2) Some by auto
      have al: "aligned l ?p" using aligned_child [OF 2(3) wf(1)] .
      have r: "in_range l ?p fr" if "limited \<and> idx = ?n" using in_range_child [OF 2(3) wf(1) 2(4)] that by (simp add: lastIndex_def)
      have z: "0 \<notin> fst ` set (entries l ?p c)"
      proof
        assume "0 \<in> fst ` set (entries l ?p c)"
        then obtain x where x: "x \<in> set (entries l ?p c)" "fst x = 0" by auto
        moreover have "idx < 64" using wf(1) by (simp add: fits_def)
        ultimately have "x \<in> set (entries (Suc l) prefix (RInner ch a))" unfolding entries_inner_mem using Some by blast
        then show False using 2(5) x(2) by (metis imageI)
      qed
      have "\<not> (limited \<and> ?p > fr)" using child_not_beyond [OF 2(3) wf(1) 2(4)] idx by (auto simp: lastIndex_def not_less)
      moreover have "idx \<in> set (rev [0..<64])" using wf(1) by (simp add: fits_def)
      then have "walkGlobalRadixDesc l c ?p fr (limited \<and> idx = ?n) yield s =
          walkDesc l c ?p fr (limited \<and> idx = ?n) (global_only yield) s"
        using Some wf(2) al r z by (intro 2(1))
      moreover have "walkDesc l c ?p fr (limited \<and> idx = ?n) (global_only yield) s = (s, True)" if "node_globalMax (radix_agg c) = 0"
        using wf(2) al r that z by (rule skip_without_global)
      ultimately show ?thesis by (cases "node_globalMax (radix_agg c) = 0") (simp_all only: Some option.case Let_def if_True if_False refl)
    qed simp
    then show ?thesis
      by (simp only: walkGlobalRadixDesc.simps walkDesc.simps Let_def False if_False cong: yield_all_cong)
  next
    case True
    have "walkDesc (Suc l) (RInner ch a) prefix fr limited (global_only yield) s = (s, True)"
      by (rule skip_without_global) (use 2 True in simp_all)
    then show ?thesis using True by (simp del: walkDesc.simps)
  qed
qed simp_all

section \<open>The trees as maps and sets\<close>

abbreviation lane_wf :: "laneTree \<Rightarrow> bool" where
  "lane_wf \<equiv> tree_wf lane_ops"

abbreviation posting_wf :: "postingSet \<Rightarrow> bool" where
  "posting_wf \<equiv> tree_wf posting_ops"

definition members :: "postingSet \<Rightarrow> InstanceNum set" where
  "members s = dom (treeSlot s)"

lemma finite_treeSlot: "tree_wf ops t \<Longrightarrow> finite (dom (treeSlot t))"
proof -
  assume "tree_wf ops t"
  then have "dom (treeSlot t) = fst ` set (tree_entries t)"
    by (force simp: dom_def treeSlot_in_entries [of ops, symmetric])
  then show ?thesis by simp
qed

lemma lane_set_laws [simp]:
  "lane_wf t \<Longrightarrow> lane_wf (laneTree_set t i s)"
  "lane_wf t \<Longrightarrow> laneTree_slot (laneTree_set t i s) = (laneTree_slot t)(i \<mapsto> s)"
  using lane.treeSet_laws [of t i s] by (auto simp: laneTree_set_def laneTree_slot_def [abs_def])

lemma lane_remove_laws:
  assumes "lane_wf t"
  shows "lane_wf (fst (laneTree_remove t i))"
    "laneTree_slot (fst (laneTree_remove t i)) = (laneTree_slot t)(i := None)"
    "snd (laneTree_remove t i) \<longleftrightarrow> laneTree_slot t i \<noteq> None"
  using lane.treeRemove_laws [OF assms, of i] by (cases "treeRemove lane_ops t i"; simp add: laneTree_remove_def laneTree_slot_def [abs_def])+

lemma lane_prefixMaxSeq:
  assumes "lane_wf t"
  shows "laneTree_prefixMaxSeq t fr = seqMax (filter (\<lambda>x. fst x \<le> fr) (tree_entries t))"
proof (cases t)
  case (Some r)
  obtain l root where r: "r = (l, root)" by (cases r)
  then have wf: "node_wf lane_ops l 0 root" using assms Some by simp
  have "prefixMaxRadix l root fr (in_range l 0 fr) =
      seqMax (filter (\<lambda>x. in_range l 0 fr \<longrightarrow> fst x \<le> fr) (entries l 0 root))"
    by (rule prefixMaxRadix_entries) (use wf in simp_all)
  then show ?thesis by (simp add: Some r laneTree_prefixMaxSeq_def radixLevel_range tree_entries_upto [OF wf])
qed (simp add: laneTree_prefixMaxSeq_def)

lemma lane_root_summary:
  "lane_wf (Some (l, root)) \<Longrightarrow> radix_agg root = lane_summary (tree_entries (Some (l, root)))"
  by (simp add: lane.agg_entries)

text \<open>What holds of the entries of a lane holds of its slots.\<close>

lemma maxOver_slots:
  assumes "tree_wf ops t"
  shows "maxOver f P (set (filter Q (tree_entries t))) = maxOver f P {(i, s). treeSlot t i = Some s \<and> Q (i, s)}"
  using treeSlot_in_entries [OF assms] by (intro arg_cong [where f = "maxOver f P"]) auto

lemma posting_insert_laws [simp]:
  "posting_wf s \<Longrightarrow> posting_wf (postingSet_insert s i)"
  "posting_wf s \<Longrightarrow> members (postingSet_insert s i) = insert i (members s)"
  using posting.treeSet_laws [of s i "()"] by (auto simp: postingSet_insert_def members_def)

lemma posting_remove_laws:
  assumes "posting_wf s"
  shows "posting_wf (fst (postingSet_remove s i))" "members (fst (postingSet_remove s i)) = members s - {i}"
    "snd (postingSet_remove s i) \<longleftrightarrow> i \<in> members s"
  using posting.treeRemove_laws [OF assms, of i]
  by (cases "treeRemove posting_ops s i"; auto simp: postingSet_remove_def members_def)+

lemma members_simps [simp]: "members None = {}" "posting_wf s \<Longrightarrow> finite (members s)"
  "posting_wf s \<Longrightarrow> members s = {} \<longleftrightarrow> s = None"
proof -
  show none: "members None = {}" by (simp add: members_def treeSlot_simps fun_eq_iff)
  show "finite (members s)" if "posting_wf s" using finite_treeSlot [OF that] by (simp add: members_def)
  show "members s = {} \<longleftrightarrow> s = None" if wf: "posting_wf s"
  proof (cases s)
    case (Some r)
    then have "tree_entries s \<noteq> []" using wf by (cases r) simp
    then obtain i u where "(i, u) \<in> set (tree_entries s)" by (metis list.set_intros(1) neq_Nil_conv surj_pair)
    then have "i \<in> members s" using treeSlot_in_entries [OF wf, of i u] by (simp add: members_def domI)
    then show ?thesis using Some by auto
  qed (simp add: none)
qed

lemma set_posting_entries: "posting_wf s \<Longrightarrow> fst ` set (tree_entries s) = members s"
  by (force simp: members_def dom_def treeSlot_in_entries [of posting_ops, symmetric])

lemma postingSet_max_members: "posting_wf s \<Longrightarrow> postingSet_max s = Max (insert 0 (members s))"
proof (cases s)
  case (Some r)
  assume wf: "posting_wf s"
  then have "postingSet_max s = maxOver fst (\<lambda>_. True) (set (tree_entries s))"
    using Some posting.agg_entries [OF _ aligned_zero] by (cases r) (auto simp: postingSet_max_def posting_summary_meaning)
  then show ?thesis using set_posting_entries [OF wf] by (simp add: maxOver_def)
qed (simp add: postingSet_max_def)

lemma Max_upto:
  fixes A :: "u64 set"
  assumes "finite A" "i \<in> A" "\<And>j. j \<in> A \<Longrightarrow> j \<le> i"
  shows "Max A = i"
  using assms by (intro Max_eqI)

lemma predecessor_members:
  assumes "posting_wf s"
  shows "predecessor s fr = (if {i \<in> members s. i \<le> fr} = {} then None else Some (Max {i \<in> members s. i \<le> fr}))"
proof -
  let ?es = "filter (\<lambda>x. fst x \<le> fr) (tree_entries s)"
  have set: "{i \<in> members s. i \<le> fr} = fst ` set ?es" using set_posting_entries [OF assms] by auto
  have "predecessor s fr = fst (treeWalkDesc s fr (\<lambda>x _. (Some (fst x), False)) None)"
    by (simp add: predecessor_def treeWalkDesc_def walkPostingDesc_def split: option.split)
  also have "\<dots> = (case ?es of [] \<Rightarrow> None | x # _ \<Rightarrow> Some (fst x))"
    unfolding treeWalkDesc_entries [OF assms] by (cases ?es) simp_all
  also have "\<dots> = (if fst ` set ?es = {} then None else Some (Max (fst ` set ?es)))"
  proof (cases ?es)
    case (Cons x xs)
    have "sorted_wrt (\<lambda>x y. fst x > fst y) ?es" using tree_entries_descending [OF assms] by (rule sorted_wrt_filter)
    then have "Max (fst ` set ?es) = fst x" unfolding Cons by (intro Max_upto) (auto intro: less_imp_le)
    then show ?thesis using Cons by simp
  qed simp
  finally show ?thesis by (simp only: set)
qed

lemma postingSet_contains_members: "posting_wf s \<Longrightarrow> postingSet_contains s i \<longleftrightarrow> i \<in> members s"
proof -
  assume wf: "posting_wf s"
  have "Max {j \<in> members s. j \<le> i} = i" if "i \<in> members s" using wf that by (intro Max_upto) auto
  moreover have "Max {j \<in> members s. j \<le> i} \<in> {j \<in> members s. j \<le> i}" if "{j \<in> members s. j \<le> i} \<noteq> {}"
    using wf that by (intro Max_in) auto
  ultimately show ?thesis
    unfolding postingSet_contains_def predecessor_members [OF wf] by (cases "{j \<in> members s. j \<le> i} = {}") auto
qed

lemma verifyNode_wf: "node_wf ops l prefix node \<Longrightarrow> verifyNode ops l node prefix = None"
proof (induction l prefix node rule: entries.induct)
  case (2 l prefix ch a)
  have "(case ch idx of None \<Rightarrow> None | Some child \<Rightarrow> if \<not> fits_level l child then Some (LevelMismatch (Suc l))
      else verifyNode ops l child (childPrefix (Suc l) prefix idx)) = None" if "idx \<in> set [0..<64]" for idx
  proof (cases "ch idx")
    case (Some c)
    then have "node_wf ops l (childPrefix (Suc l) prefix idx) c" using 2(2) by auto
    moreover from this have "fits_level l c" by (auto elim!: node_wf_cases)
    ultimately show ?thesis using 2(1) [OF _ Some] Some that by simp
  qed simp
  then show ?case using 2(2) by (simp add: first_Some_def radixFanout_def filter_empty_conv cong: filter_cong)
qed simp_all

lemma verifyTree_wf: "tree_wf ops t \<Longrightarrow> verifyTree ops t = None"
  by (cases t) (auto simp: verifyTree_def verifyNode_wf)

section \<open>Properties\<close>

text \<open>
  C16. The lane tree refines a finite map from instances to slots. From a well-formed tree, \<^verbatim>\<open>set\<close>
  and \<^verbatim>\<open>remove\<close> give a well-formed tree whose map is updated at that instance only, and \<^verbatim>\<open>remove\<close>
  reports whether the instance was present; \<^verbatim>\<open>prefixMaxSeq\<close> is the greatest sequence number of an
  eligible slot up to the bound, although it reads the stored summaries of whole subtrees; and
  \<^verbatim>\<open>walkDesc\<close> visits exactly the slots up to the bound, from the greatest instance down.
\<close>

theorem lane_tree_refines_map:
  assumes "lane_wf t"
  shows "lane_wf (laneTree_set t i s) \<and> laneTree_slot (laneTree_set t i s) = (laneTree_slot t)(i \<mapsto> s) \<and>
    lane_wf (fst (laneTree_remove t i)) \<and> laneTree_slot (fst (laneTree_remove t i)) = (laneTree_slot t)(i := None) \<and>
    (snd (laneTree_remove t i) \<longleftrightarrow> laneTree_slot t i \<noteq> None) \<and>
    laneTree_prefixMaxSeq t fr =
      maxOver (slot_seq \<circ> snd) (eligible \<circ> snd) {(j, s). laneTree_slot t j = Some s \<and> j \<le> fr} \<and>
    (\<exists>es. sorted_wrt (>) (map fst es) \<and> set es = {(j, s). laneTree_slot t j = Some s \<and> j \<le> fr} \<and>
       laneTree_walkDesc t fr yield st = yield_all yield es st)"
proof -
  let ?es = "filter (\<lambda>x. fst x \<le> fr) (tree_entries t)"
  have "set ?es = {(j, s). laneTree_slot t j = Some s \<and> j \<le> fr}"
    using treeSlot_in_entries [OF assms] by (auto simp: laneTree_slot_def)
  moreover have "sorted_wrt (\<lambda>x y. fst x > fst y) ?es" using tree_entries_descending [OF assms] by (rule sorted_wrt_filter)
  then have "sorted_wrt (>) (map fst ?es)" by (simp add: sorted_wrt_map)
  moreover have "laneTree_prefixMaxSeq t fr = maxOver (slot_seq \<circ> snd) (eligible \<circ> snd) (set ?es)"
    using lane_prefixMaxSeq [OF assms] by (simp only: seqMax_def)
  moreover have "laneTree_walkDesc t fr yield st = yield_all yield ?es st"
    using treeWalkDesc_entries [OF assms] by (simp add: laneTree_walkDesc_def)
  ultimately show ?thesis using assms lane_remove_laws [OF assms] by (simp only: lane_set_laws) blast
qed

theorem lane_tree_refines_map_witness:
  "laneTree_slot (laneTree_set None 70 \<lparr>slot_seq = 3, slot_flags = 0\<rparr>) = [70 \<mapsto> \<lparr>slot_seq = 3, slot_flags = 0\<rparr>]"
  using lane_tree_refines_map [of None 70 "\<lparr>slot_seq = 3, slot_flags = 0\<rparr>" 0 "\<lambda>_ s. (s, True)" "()"]
  by (simp add: laneTree_slot_def [abs_def] treeSlot_simps)

text \<open>
  C9. The posting set refines a finite set of instances: insertion and removal change exactly the
  given instance, \<^verbatim>\<open>max\<close> is the greatest member, \<^verbatim>\<open>predecessor\<close> the greatest member up to a bound
  and \<^verbatim>\<open>contains\<close> decides membership, for every 64-bit bound, also beyond the range of the root.
\<close>

theorem posting_set_refines_set:
  assumes "posting_wf s"
  shows "posting_wf (postingSet_insert s i) \<and> members (postingSet_insert s i) = insert i (members s) \<and>
    posting_wf (fst (postingSet_remove s i)) \<and> members (fst (postingSet_remove s i)) = members s - {i} \<and>
    (snd (postingSet_remove s i) \<longleftrightarrow> i \<in> members s) \<and>
    postingSet_max s = Max (insert 0 (members s)) \<and>
    predecessor s fr = (if {j \<in> members s. j \<le> fr} = {} then None else Some (Max {j \<in> members s. j \<le> fr})) \<and>
    (postingSet_contains s i \<longleftrightarrow> i \<in> members s)"
  using assms posting_remove_laws [OF assms] postingSet_max_members [OF assms] predecessor_members [OF assms]
    postingSet_contains_members [OF assms] by simp

theorem posting_set_refines_set_witness:
  "members (postingSet_insert None 70) = {70}"
  using posting_set_refines_set [of None 70] by simp

end
