(* ===== verification/LaneIndex.thy ===== *)
theory LaneIndex
  imports LaneTree
begin

text \<open>
  The part of \<^verbatim>\<open>epaxos/conflict_engine.go\<close> about one lane: its resident tree, the watermarks of what
  was folded away, and the bounded staircase of retired sequence numbers, which answers for the
  greatest sequence number of the retired instances up to a bound and, once it has dropped steps,
  answers from above.
\<close>

section \<open>The code\<close>

definition retiredSeqBreakpointCap :: nat where "retiredSeqBreakpointCap = 64"

record retiredSeqBreakpoint =
  bp_through :: InstanceNum
  bp_maxSeq :: u64

record laneIndex =
  li_resident :: laneTree
  li_folded :: InstanceNum
  li_retiredEligibleAny :: InstanceNum
  li_retiredGlobal :: InstanceNum
  li_retiredSeq :: "retiredSeqBreakpoint list"
  li_seqCompressed :: bool
  li_pendingFold :: postingSet

definition zero_laneIndex :: laneIndex where
  "zero_laneIndex = \<lparr>li_resident = None, li_folded = 0, li_retiredEligibleAny = 0, li_retiredGlobal = 0,
     li_retiredSeq = [], li_seqCompressed = False, li_pendingFold = None\<rparr>"

definition retiredPrefixMaxSeq :: "laneIndex \<Rightarrow> InstanceNum \<Rightarrow> u64" where
  "retiredPrefixMaxSeq i through =
     (let rs = li_retiredSeq i in
      if length rs = 0 then 0
      else if through < bp_through (rs ! 0) then (if li_seqCompressed i then bp_maxSeq (rs ! 0) else 0)
      else let lo = search_loop (\<lambda>mid. \<not> bp_through (rs ! mid) \<le> through) 0 (length rs)
           in bp_maxSeq (rs ! (lo - 1)))"

definition addRetiredSeq :: "laneIndex \<Rightarrow> InstanceNum \<Rightarrow> u64 \<Rightarrow> laneIndex" where
  "addRetiredSeq i through seq =
     (let prior = retiredPrefixMaxSeq i through in
      if seq \<le> prior then i
      else
        let rs = li_retiredSeq i;
            pos = length (takeWhile (\<lambda>b. bp_through b < through) rs);
            rs = (if pos < length rs \<and> bp_through (rs ! pos) = through
                  then rs[pos := (rs ! pos)\<lparr>bp_maxSeq := max (bp_maxSeq (rs ! pos)) seq\<rparr>]
                  else take pos rs @ \<lparr>bp_through = through, bp_maxSeq = seq\<rparr> # drop pos rs);
            rs = take (pos + 1) rs @ dropWhile (\<lambda>b. bp_maxSeq b \<le> bp_maxSeq (rs ! pos)) (drop (pos + 1) rs)
        in if length rs > retiredSeqBreakpointCap
           then i\<lparr>li_retiredSeq := drop (length rs - retiredSeqBreakpointCap) rs, li_seqCompressed := True\<rparr>
           else i\<lparr>li_retiredSeq := rs\<rparr>)"

text \<open>The loop over the instances up to \<open>through\<close>: it counts up until it meets the bound.\<close>

function allPending :: "postingSet \<Rightarrow> InstanceNum \<Rightarrow> InstanceNum \<Rightarrow> bool" where
  "allPending s inst through =
     (if \<not> postingSet_contains s inst then False
      else if inst = through then True
      else allPending s (inst + 1) through)"
  by pat_completeness auto
termination
proof (relation "measure (\<lambda>(s, inst, through). unat (through - inst))", simp)
  fix s :: postingSet and inst through :: InstanceNum
  assume "inst \<noteq> through"
  then have "through - inst \<noteq> 0" by simp
  then have "unat (through - inst - 1) < unat (through - inst)"
    by (metis measure_unat)
  then show "((s, inst + 1, through), (s, inst, through)) \<in> measure (\<lambda>(s, inst, through). unat (through - inst))"
    by (simp add: diff_diff_add)
qed

declare allPending.simps [simp del]

text \<open>The second loop of \<^verbatim>\<open>advanceFold\<close>; \<open>None\<close> is the panic.\<close>

function removePending :: "postingSet \<Rightarrow> InstanceNum \<Rightarrow> InstanceNum \<Rightarrow> postingSet option" where
  "removePending s inst through =
     (let (s', removed) = postingSet_remove s inst in
      if \<not> removed then None
      else if inst = through then Some s'
      else removePending s' (inst + 1) through)"
  by pat_completeness auto
termination
proof (relation "measure (\<lambda>(s, inst, through). unat (through - inst))", simp)
  fix s s' :: postingSet and inst through :: InstanceNum
  assume "inst \<noteq> through"
  then have "through - inst \<noteq> 0" by simp
  then have "unat (through - inst - 1) < unat (through - inst)"
    by (metis measure_unat)
  then show "((s', inst + 1, through), (s, inst, through)) \<in> measure (\<lambda>(s, inst, through). unat (through - inst))"
    by (simp add: diff_diff_add)
qed

declare removePending.simps [simp del]

section \<open>The staircase\<close>

abbreviation steps :: "retiredSeqBreakpoint \<Rightarrow> retiredSeqBreakpoint \<Rightarrow> bool" where
  "steps a b \<equiv> bp_through a < bp_through b \<and> bp_maxSeq a < bp_maxSeq b"

definition stair :: "retiredSeqBreakpoint list \<Rightarrow> InstanceNum \<Rightarrow> u64" where
  "stair rs t = maxOver bp_maxSeq (\<lambda>b. bp_through b \<le> t) (set rs)"

lemma maxOver_eqI:
  assumes "finite A" "x \<in> A" "P x" "\<And>y. y \<in> A \<Longrightarrow> P y \<Longrightarrow> f y \<le> f x"
  shows "maxOver f P A = f x"
  unfolding maxOver_def using assms by (intro Max_eqI) auto

lemma maxOver_none: "(\<And>y. y \<in> A \<Longrightarrow> \<not> P y) \<Longrightarrow> maxOver f P A = 0"
proof -
  assume "\<And>y. y \<in> A \<Longrightarrow> \<not> P y"
  then have "{x \<in> A. P x} = {}" by blast
  then show ?thesis by (simp only: maxOver_def) simp
qed

text \<open>The binary search of the code finds the last step at or before the bound.\<close>

lemma retiredPrefixMaxSeq_stair:
  assumes "sorted_wrt steps (li_retiredSeq i)"
  shows "retiredPrefixMaxSeq i t =
    (if li_retiredSeq i \<noteq> [] \<and> t < bp_through (hd (li_retiredSeq i)) \<and> li_seqCompressed i
     then bp_maxSeq (hd (li_retiredSeq i)) else stair (li_retiredSeq i) t)"
proof (cases "li_retiredSeq i")
  case Nil
  then show ?thesis by (simp add: retiredPrefixMaxSeq_def stair_def)
next
  case (Cons b bs)
  let ?rs = "li_retiredSeq i"
  show ?thesis
  proof (cases "t < bp_through b")
    case True
    then have "stair ?rs t = 0" using assms Cons by (auto simp: stair_def intro!: maxOver_none)
    then show ?thesis using True Cons by (simp add: retiredPrefixMaxSeq_def Let_def)
  next
    case False
    let ?f = "\<lambda>mid. \<not> bp_through (?rs ! mid) \<le> t"
    define lo where "lo = search_loop ?f 0 (length ?rs)"
    have mono: "k < l \<Longrightarrow> l < length ?rs \<Longrightarrow> steps (?rs ! k) (?rs ! l)" for k l
      using assms by (simp add: sorted_wrt_iff_nth_less)
    then have m: "\<forall>k l. k \<le> l \<and> l < length ?rs \<and> ?f k \<longrightarrow> ?f l"
    proof (intro allI impI, elim conjE)
      fix k l assume "k \<le> l" "l < length ?rs" "?f k"
      then show "?f l" using mono [of k l] by (cases "k = l") auto
    qed
    note s = sort_Search_correct [OF m, unfolded sort_Search_def, folded lo_def]
    have "lo \<noteq> 0" using s(3) [of 0] False Cons by (auto simp: not_less)
    then have l: "lo - 1 < length ?rs" "\<not> ?f (lo - 1)" using s(1) s(2) [of "lo - 1"] by auto
    have "stair ?rs t = bp_maxSeq (?rs ! (lo - 1))"
      unfolding stair_def
    proof (rule maxOver_eqI)
      fix y assume "y \<in> set ?rs" "bp_through y \<le> t"
      then obtain k where k: "k < length ?rs" "y = ?rs ! k" by (metis in_set_conv_nth)
      have "k < lo" using s(3) [OF _ k(1)] \<open>bp_through y \<le> t\<close> k(2) not_less by blast
      then have "k \<le> lo - 1" by simp
      then show "bp_maxSeq y \<le> bp_maxSeq (?rs ! (lo - 1))" using mono [of k "lo - 1"] l(1) k(2) by (cases "k = lo - 1") auto
    qed (use l in auto)
    then show ?thesis using False Cons by (simp add: retiredPrefixMaxSeq_def Let_def lo_def)
  qed
qed

text \<open>One added step, before the cap: what is raised and what is dropped.\<close>

definition raise :: "retiredSeqBreakpoint list \<Rightarrow> InstanceNum \<Rightarrow> u64 \<Rightarrow> retiredSeqBreakpoint list" where
  "raise rs t q = filter (\<lambda>b. bp_through b < t) rs @ \<lparr>bp_through = t, bp_maxSeq = q\<rparr> #
     filter (\<lambda>b. t < bp_through b \<and> q < bp_maxSeq b) rs"

lemma stair_ge: "b \<in> set rs \<Longrightarrow> bp_through b \<le> t \<Longrightarrow> bp_maxSeq b \<le> stair rs t"
  using maxOver_ge [of "set rs" b "\<lambda>b. bp_through b \<le> t" bp_maxSeq] by (simp add: stair_def)

lemma steps_by_through:
  assumes "sorted_wrt steps rs" "b \<in> set rs" "c \<in> set rs" "bp_through b < bp_through c"
  shows "steps b c"
  using assms by (induction rs) (auto dest: less_asym)

lemma raise_sorted:
  assumes "sorted_wrt steps rs" "stair rs t < q"
  shows "sorted_wrt steps (raise rs t q)"
proof -
  have low: "bp_maxSeq b < q" if "b \<in> set rs" "bp_through b < t" for b
    by (rule order_le_less_trans [OF stair_ge assms(2)]) (use that in \<open>simp_all add: less_imp_le\<close>)
  have far: "steps b c" if "b \<in> set rs" "c \<in> set rs" "bp_through b < t" "t < bp_through c" for b c
    by (rule steps_by_through [OF assms(1) that(1,2)]) (rule less_trans [OF that(3,4)])
  show ?thesis
    unfolding raise_def sorted_wrt_append sorted_wrt.simps
    by (intro conjI ballI sorted_wrt_filter assms(1)) (auto simp: low far dest: far)
qed

lemma raise_stair:
  assumes "stair rs t < q"
  shows "stair (raise rs t q) u = (if t \<le> u then max (stair rs u) q else stair rs u)"
proof -
  let ?P = "\<lambda>b. bp_through b \<le> u"
  let ?k = "{b \<in> set rs. bp_through b < t \<or> t < bp_through b \<and> q < bp_maxSeq b}"
  define r where "r = {b \<in> set rs. \<not> (bp_through b < t \<or> t < bp_through b \<and> q < bp_maxSeq b)}"
  have fin: "finite r" by (simp add: r_def)
  have rs: "stair rs u = max (maxOver bp_maxSeq ?P ?k) (maxOver bp_maxSeq ?P r)"
  proof -
    have "set rs = ?k \<union> r" unfolding r_def by blast
    then show ?thesis unfolding stair_def using maxOver_Un [of ?k r bp_maxSeq ?P] fin by simp
  qed
  have "set (raise rs t q) = insert \<lparr>bp_through = t, bp_maxSeq = q\<rparr> ?k" by (auto simp: raise_def)
  then have new: "stair (raise rs t q) u = (if t \<le> u then max q (maxOver bp_maxSeq ?P ?k) else maxOver bp_maxSeq ?P ?k)"
    by (simp add: stair_def maxOver_insert)
  have low: "bp_maxSeq b \<le> q" if "b \<in> r" for b
    using stair_ge [of b rs t] that assms by (cases "bp_through b = t") (auto simp: r_def)
  show ?thesis
  proof (cases "t \<le> u")
    case True
    have "maxOver bp_maxSeq ?P r \<le> q"
      using maxOver_attained [OF fin, of bp_maxSeq ?P] low by (cases "maxOver bp_maxSeq ?P r = 0") force+
    then have "max (max (maxOver bp_maxSeq ?P ?k) (maxOver bp_maxSeq ?P r)) q = max q (maxOver bp_maxSeq ?P ?k)"
      by (simp only: max.assoc max_absorb2 max.commute [of q])
    then show ?thesis using True new rs by simp
  next
    case False
    then have "maxOver bp_maxSeq ?P r = 0" by (intro maxOver_none) (auto simp: r_def)
    then show ?thesis using False new rs by simp
  qed
qed

lemma filter_takeWhile:
  "sorted_wrt steps rs \<Longrightarrow> takeWhile (\<lambda>b. bp_through b < t) rs = filter (\<lambda>b. bp_through b < t) rs"
proof (induction rs)
  case (Cons a rs)
  have "filter (\<lambda>b. bp_through b < t) rs = []" if "\<not> bp_through a < t"
    using Cons.prems that unfolding filter_empty_conv by fastforce
  then show ?case using Cons by simp
qed simp

lemma filter_dropWhile:
  "sorted_wrt steps rs \<Longrightarrow> dropWhile (\<lambda>b. bp_maxSeq b \<le> q) rs = filter (\<lambda>b. q < bp_maxSeq b) rs"
proof (induction rs)
  case (Cons a rs)
  have "filter (\<lambda>b. q < bp_maxSeq b) rs = rs" if "\<not> bp_maxSeq a \<le> q"
    using Cons.prems that unfolding filter_id_conv by fastforce
  then show ?case using Cons by (cases "bp_maxSeq a \<le> q") (simp_all add: not_le leD)
qed simp

lemma insert_step:
  assumes "rs = A @ rest" "sorted_wrt steps rest"
    and "\<And>c cs. rest = c # cs \<Longrightarrow> t \<le> bp_through c \<and> (bp_through c = t \<longrightarrow> bp_maxSeq c \<le> q)"
  shows "(if length A < length rs \<and> bp_through (rs ! length A) = t
      then rs[length A := (rs ! length A)\<lparr>bp_maxSeq := max (bp_maxSeq (rs ! length A)) q\<rparr>]
      else take (length A) rs @ \<lparr>bp_through = t, bp_maxSeq = q\<rparr> # drop (length A) rs) =
    A @ \<lparr>bp_through = t, bp_maxSeq = q\<rparr> # filter (\<lambda>b. t < bp_through b) rest"
proof (cases rest)
  case (Cons c cs)
  have all: "filter (\<lambda>b. t < bp_through b) cs = cs"
    unfolding filter_id_conv using assms(2) assms(3) [OF Cons] Cons by (auto intro: le_less_trans)
  show ?thesis
  proof (cases "bp_through c = t")
    case True
    then have "c\<lparr>bp_maxSeq := max (bp_maxSeq c) q\<rparr> = \<lparr>bp_through = t, bp_maxSeq = q\<rparr>"
      using assms(3) [OF Cons] by (cases c) (simp add: max_absorb2)
    then show ?thesis using True all assms(1) Cons by simp
  next
    case False
    then have "t < bp_through c" using assms(3) [OF Cons] by simp
    then show ?thesis using False all assms(1) Cons by simp
  qed
qed (use assms(1) in simp)

lemma addRetiredSeq_raise:
  assumes "sorted_wrt steps (li_retiredSeq i)" "retiredPrefixMaxSeq i t < q" "stair (li_retiredSeq i) t < q"
  shows "addRetiredSeq i t q = (let rs = raise (li_retiredSeq i) t q in
    if length rs > retiredSeqBreakpointCap
    then i\<lparr>li_retiredSeq := drop (length rs - retiredSeqBreakpointCap) rs, li_seqCompressed := True\<rparr>
    else i\<lparr>li_retiredSeq := rs\<rparr>)"
proof -
  let ?rs = "li_retiredSeq i" and ?P = "\<lambda>b. bp_through b < t"
  let ?pos = "length (takeWhile ?P ?rs)"
  let ?new = "\<lparr>bp_through = t, bp_maxSeq = q\<rparr>"
  define rest where "rest = dropWhile ?P ?rs"
  have split: "?rs = takeWhile ?P ?rs @ rest" by (simp add: rest_def)
  have "sorted_wrt steps (takeWhile ?P ?rs @ dropWhile ?P ?rs)" using assms(1) by simp
  then have sr: "sorted_wrt steps rest" unfolding rest_def sorted_wrt_append by blast
  define rs' where "rs' = (if ?pos < length ?rs \<and> bp_through (?rs ! ?pos) = t
      then ?rs[?pos := (?rs ! ?pos)\<lparr>bp_maxSeq := max (bp_maxSeq (?rs ! ?pos)) q\<rparr>]
      else take ?pos ?rs @ ?new # drop ?pos ?rs)"
  have rs': "rs' = takeWhile ?P ?rs @ ?new # filter (\<lambda>b. t < bp_through b) rest"
    unfolding rs'_def
  proof (rule insert_step [OF split sr])
    fix c cs assume c: "rest = c # cs"
    then have "\<not> ?P c" using hd_dropWhile [of ?P ?rs] by (auto simp: rest_def)
    moreover have "c \<in> set ?rs" by (rule set_dropWhileD [of _ ?P]) (use c in \<open>simp add: rest_def\<close>)
    ultimately show "t \<le> bp_through c \<and> (bp_through c = t \<longrightarrow> bp_maxSeq c \<le> q)"
      using stair_ge [of c ?rs t] assms(3) by (auto simp: not_less)
  qed
  have "filter (\<lambda>b. t < bp_through b \<and> q < bp_maxSeq b) (takeWhile ?P ?rs) = []"
    unfolding filter_empty_conv by (auto dest!: set_takeWhileD dest: less_asym)
  then have "filter (\<lambda>b. t < bp_through b \<and> q < bp_maxSeq b) ?rs = filter (\<lambda>b. t < bp_through b \<and> q < bp_maxSeq b) rest"
    by (subst split) simp
  then have "take (?pos + 1) rs' @ dropWhile (\<lambda>b. bp_maxSeq b \<le> bp_maxSeq (rs' ! ?pos)) (drop (?pos + 1) rs') = raise ?rs t q"
    using filter_dropWhile [OF sorted_wrt_filter [OF sr]]
    by (simp add: rs' raise_def nth_append conj_commute flip: filter_takeWhile [OF assms(1)])
  moreover have "\<not> q \<le> retiredPrefixMaxSeq i t" using assms(2) by simp
  ultimately show ?thesis unfolding addRetiredSeq_def Let_def rs'_def by (simp only: if_False)
qed

section \<open>The staircase against the history\<close>

text \<open>What the staircase stands for: the greatest sequence number retired at or before a bound.\<close>

definition retiredTruth :: "(InstanceNum \<times> u64) list \<Rightarrow> InstanceNum \<Rightarrow> u64" where
  "retiredTruth h t = maxOver snd (\<lambda>x. fst x \<le> t) (set h)"

definition stairs_inv :: "laneIndex \<Rightarrow> (InstanceNum \<times> u64) list \<Rightarrow> bool" where
  "stairs_inv i h \<longleftrightarrow> sorted_wrt steps (li_retiredSeq i) \<and> length (li_retiredSeq i) \<le> retiredSeqBreakpointCap \<and>
     (li_seqCompressed i \<longrightarrow> li_retiredSeq i \<noteq> []) \<and>
     (\<forall>t. (li_seqCompressed i \<longrightarrow> bp_through (hd (li_retiredSeq i)) \<le> t) \<longrightarrow> stair (li_retiredSeq i) t = retiredTruth h t)"

lemma retiredTruth_Cons:
  "retiredTruth ((t, q) # h) u = (if t \<le> u then max (retiredTruth h u) q else retiredTruth h u)"
  by (simp add: retiredTruth_def maxOver_insert max.commute)

lemma retiredTruth_mono: "t \<le> u \<Longrightarrow> retiredTruth h t \<le> retiredTruth h u"
  unfolding retiredTruth_def maxOver_def by (intro Max_mono) auto

lemma stair_hd:
  assumes "sorted_wrt steps rs" "rs \<noteq> []"
  shows "stair rs (bp_through (hd rs)) = bp_maxSeq (hd rs)"
  unfolding stair_def
proof (rule maxOver_eqI)
  fix y assume "y \<in> set rs" "bp_through y \<le> bp_through (hd rs)"
  then show "bp_maxSeq y \<le> bp_maxSeq (hd rs)" using assms by (cases rs) (auto dest: leD)
qed (use assms in simp_all)

lemma stair_before:
  assumes "sorted_wrt steps rs" "rs \<noteq> []" "t < bp_through (hd rs)"
  shows "stair rs t = 0" "\<And>b. b \<in> set rs \<Longrightarrow> t < bp_through b"
proof -
  show late: "t < bp_through b" if "b \<in> set rs" for b using assms that by (cases rs) (auto intro: less_trans)
  show "stair rs t = 0" unfolding stair_def by (rule maxOver_none) (use late in \<open>auto simp: not_le\<close>)
qed

lemma stairs_invD:
  assumes "stairs_inv i h"
  shows "sorted_wrt steps (li_retiredSeq i)" "length (li_retiredSeq i) \<le> retiredSeqBreakpointCap"
    and "li_seqCompressed i \<Longrightarrow> li_retiredSeq i \<noteq> []"
    and "(li_seqCompressed i \<Longrightarrow> bp_through (hd (li_retiredSeq i)) \<le> t) \<Longrightarrow> stair (li_retiredSeq i) t = retiredTruth h t"
  using assms by (auto simp: stairs_inv_def)

text \<open>The answer is the truth where the staircase reaches, and that of its first step before it.\<close>

lemma stairs_inv_lookup:
  assumes "stairs_inv i h"
  shows "\<not> (li_seqCompressed i \<and> t < bp_through (hd (li_retiredSeq i))) \<Longrightarrow> retiredPrefixMaxSeq i t = retiredTruth h t"
    and "li_seqCompressed i \<Longrightarrow> t < bp_through (hd (li_retiredSeq i)) \<Longrightarrow>
      retiredPrefixMaxSeq i t = retiredTruth h (bp_through (hd (li_retiredSeq i)))"
proof -
  note inv = stairs_invD [OF assms]
  note look = retiredPrefixMaxSeq_stair [OF inv(1), of t]
  show "retiredPrefixMaxSeq i t = retiredTruth h t" if "\<not> (li_seqCompressed i \<and> t < bp_through (hd (li_retiredSeq i)))"
    using that look inv(4) [of t] by (auto simp: not_less)
  show "retiredPrefixMaxSeq i t = retiredTruth h (bp_through (hd (li_retiredSeq i)))"
    if "li_seqCompressed i" "t < bp_through (hd (li_retiredSeq i))"
    using that look inv(3) inv(4) [of "bp_through (hd (li_retiredSeq i))"] stair_hd [OF inv(1)] by simp
qed

lemma stairs_inv_ge: "stairs_inv i h \<Longrightarrow> retiredTruth h t \<le> retiredPrefixMaxSeq i t"
  using stairs_inv_lookup [of i h t] retiredTruth_mono [of t "bp_through (hd (li_retiredSeq i))" h]
  by (cases "li_seqCompressed i \<and> t < bp_through (hd (li_retiredSeq i))") (simp_all add: less_imp_le)

lemma stair_drop:
  assumes "sorted_wrt steps rs" "d < length rs" "bp_through (rs ! d) \<le> t"
  shows "stair (drop d rs) t = stair rs t"
proof -
  have "rs = take d rs @ drop d rs" by simp
  then have "stair rs t = max (stair (take d rs) t) (stair (drop d rs) t)"
    using maxOver_Un [of "set (take d rs)" "set (drop d rs)" bp_maxSeq "\<lambda>b. bp_through b \<le> t"]
    by (metis List.finite_set set_append stair_def)
  moreover have "stair (take d rs) t \<le> bp_maxSeq (rs ! d)"
  proof (cases "stair (take d rs) t = 0")
    case False
    then obtain b where b: "b \<in> set (take d rs)" "bp_maxSeq b = stair (take d rs) t"
      using maxOver_attained [of "set (take d rs)" bp_maxSeq] unfolding stair_def by blast
    then obtain k where "k < d" "b = rs ! k" by (auto simp: in_set_conv_nth)
    then have "bp_maxSeq b < bp_maxSeq (rs ! d)" using assms(1,2) by (simp add: sorted_wrt_iff_nth_less)
    then show ?thesis using b(2) by (simp add: less_imp_le)
  qed simp
  moreover have "bp_maxSeq (rs ! d) \<le> stair (drop d rs) t"
    using assms(2,3) by (intro stair_ge) (auto simp: in_set_conv_nth intro!: exI [of _ 0])
  ultimately show ?thesis by (simp add: max_absorb2)
qed

text \<open>A sequence number that the staircase already answers for changes nothing.\<close>

lemma covered_seq:
  assumes "stairs_inv i h" "q \<le> retiredPrefixMaxSeq i t"
    and "li_seqCompressed i \<Longrightarrow> bp_through (hd (li_retiredSeq i)) \<le> u" "t \<le> u"
  shows "q \<le> retiredTruth h u"
proof (cases "li_seqCompressed i \<and> t < bp_through (hd (li_retiredSeq i))")
  case True
  then show ?thesis
    using stairs_inv_lookup(2) [OF assms(1), of t] assms(2) retiredTruth_mono [OF assms(3), of h] by (simp add: order_trans)
next
  case False
  then show ?thesis
    using stairs_inv_lookup(1) [OF assms(1) False] assms(2) retiredTruth_mono [OF assms(4), of h] by (simp add: order_trans)
qed

lemma stair_below_lookup:
  assumes "stairs_inv i h" "retiredPrefixMaxSeq i t < q"
  shows "stair (li_retiredSeq i) t < q"
proof (cases "li_seqCompressed i \<and> t < bp_through (hd (li_retiredSeq i))")
  case True
  then have "stair (li_retiredSeq i) t = 0" using stair_before(1) [OF stairs_invD(1,3) [OF assms(1)]] by simp
  also have "0 < q" by (rule order_le_less_trans [OF word_zero_le assms(2)])
  finally show ?thesis .
next
  case False
  then show ?thesis using retiredPrefixMaxSeq_stair [OF stairs_invD(1) [OF assms(1)], of t] assms(2) by auto
qed

lemma raise_exact:
  assumes "stairs_inv i h" "retiredPrefixMaxSeq i t < q"
    and u: "li_seqCompressed i \<Longrightarrow> bp_through (hd (raise (li_retiredSeq i) t q)) \<le> u"
  shows "stair (raise (li_retiredSeq i) t q) u = retiredTruth ((t, q) # h) u"
proof -
  let ?rs = "li_retiredSeq i"
  note inv = stairs_invD [OF assms(1)] and st = stair_below_lookup [OF assms(1,2)]
  show ?thesis
  proof (cases "li_seqCompressed i \<and> u < bp_through (hd ?rs)")
    case True
    then have c: "li_seqCompressed i" and before: "u < bp_through (hd ?rs)" by auto
    note late = stair_before [OF inv(1) inv(3) [OF c] before]
    have "filter (\<lambda>b. bp_through b < t) ?rs = []"
    proof (rule ccontr)
      assume "filter (\<lambda>b. bp_through b < t) ?rs \<noteq> []"
      then have "hd (raise ?rs t q) \<in> set (filter (\<lambda>b. bp_through b < t) ?rs)"
        unfolding raise_def by (simp only: hd_append2 hd_in_set not_False_eq_True)
      then show False using late(2) u [OF c] by (auto dest: leD)
    qed
    then have t: "t \<le> u" using u [OF c] by (simp add: raise_def)
    have "retiredTruth h u \<le> retiredTruth h (bp_through (hd ?rs))" by (rule retiredTruth_mono [OF less_imp_le [OF before]])
    then have "retiredTruth h u \<le> q"
      using assms(2) stairs_inv_lookup(2) [OF assms(1) c le_less_trans [OF t before]] by simp
    then show ?thesis using t late(1) by (simp add: raise_stair [OF st] retiredTruth_Cons max_absorb2)
  next
    case False
    then have "stair ?rs u = retiredTruth h u" by (intro inv(4)) (simp add: not_less)
    then show ?thesis by (simp add: raise_stair [OF st] retiredTruth_Cons)
  qed
qed

lemma addRetiredSeq_inv:
  assumes "stairs_inv i h"
  shows "stairs_inv (addRetiredSeq i t q) ((t, q) # h)"
proof (cases "q \<le> retiredPrefixMaxSeq i t")
  case True
  have "stair (li_retiredSeq i) u = retiredTruth ((t, q) # h) u"
    if "li_seqCompressed i \<longrightarrow> bp_through (hd (li_retiredSeq i)) \<le> u" for u
    using stairs_invD(4) [OF assms, of u] covered_seq [OF assms True, of u] that by (simp add: retiredTruth_Cons max_absorb1)
  then show ?thesis using True stairs_invD(1-3) [OF assms] by (simp add: stairs_inv_def addRetiredSeq_def)
next
  case False
  then have q: "retiredPrefixMaxSeq i t < q" by simp
  define n where "n = raise (li_retiredSeq i) t q"
  have sn: "sorted_wrt steps n" and ne: "n \<noteq> []"
    using raise_sorted [OF stairs_invD(1) [OF assms] stair_below_lookup [OF assms q]] by (simp_all add: n_def raise_def)
  note add = addRetiredSeq_raise [OF stairs_invD(1) [OF assms] q stair_below_lookup [OF assms q], folded n_def, unfolded Let_def]
  note exact = raise_exact [OF assms q, folded n_def]
  let ?d = "length n - retiredSeqBreakpointCap"
  show ?thesis
  proof (cases "length n > retiredSeqBreakpointCap")
    case True
    then have d: "?d < length n" by (simp add: retiredSeqBreakpointCap_def)
    have "bp_through (hd n) \<le> bp_through (n ! ?d)"
      using sn d ne by (cases "?d = 0") (simp_all add: hd_conv_nth sorted_wrt_iff_nth_less less_imp_le)
    then have "stair (drop ?d n) u = retiredTruth ((t, q) # h) u" if "bp_through (n ! ?d) \<le> u" for u
      using exact [of u] stair_drop [OF sn d that] order_trans [OF _ that] by simp
    then show ?thesis
      using True d sn by (simp add: add stairs_inv_def sorted_wrt_drop hd_drop_conv_nth retiredSeqBreakpointCap_def)
  next
    case False
    then show ?thesis using exact sn ne by (simp add: add stairs_inv_def)
  qed
qed

section \<open>The loops over pending instances\<close>

lemma atLeastAtMost_step:
  fixes i t :: u64
  assumes "i < t"
  shows "i + 1 \<le> t" "{i..t} = insert i {i + 1..t}" "i \<notin> {i + 1..t}"
proof -
  have "unat t < 2 ^ 64" using unsigned_less [of t] by simp
  then have "unat i + 1 < 2 ^ 64" using assms by (simp add: word_less_nat_alt)
  then have u: "unat (i + 1) = unat i + 1" by (simp add: unat_word_ariths)
  show "i + 1 \<le> t" using assms by (simp add: word_le_nat_alt word_less_nat_alt u)
  show "i \<notin> {i + 1..t}" by (simp add: word_le_nat_alt u)
  show "{i..t} = insert i {i + 1..t}"
  proof (rule set_eqI)
    fix x
    have "x = i \<longleftrightarrow> unat x = unat i" by (simp add: word_unat_eq_iff)
    moreover have "unat i < unat t" using assms by (simp add: word_less_nat_alt)
    ultimately show "x \<in> {i..t} \<longleftrightarrow> x \<in> insert i {i + 1..t}"
      unfolding insert_iff atLeastAtMost_iff word_le_nat_alt u by linarith
  qed
qed

lemma allPending_iff:
  assumes "posting_wf s" "i \<le> t"
  shows "allPending s i t \<longleftrightarrow> {i..t} \<subseteq> members s"
  using assms
proof (induction s i t rule: allPending.induct)
  case (1 s i t)
  show ?case
  proof (cases "i = t")
    case True
    then show ?thesis using 1(2) by (simp add: allPending.simps [of s t t] postingSet_contains_members)
  next
    case False
    then have "i < t" using 1(3) by simp
    note st = atLeastAtMost_step [OF this]
    show ?thesis
      using 1(1) [OF _ False 1(2) st(1)] 1(2) False
      by (simp add: allPending.simps [of s i t] postingSet_contains_members st(2))
  qed
qed

lemma removePending_all:
  assumes "posting_wf s" "i \<le> t" "{i..t} \<subseteq> members s"
  shows "\<exists>s'. removePending s i t = Some s' \<and> posting_wf s' \<and> members s' = members s - {i..t}"
  using assms
proof (induction s i t rule: removePending.induct)
  case (1 s i t)
  obtain s' b where r: "postingSet_remove s i = (s', b)" by fastforce
  have "i \<in> members s" by (rule subsetD [OF 1(4)]) (simp add: 1(3))
  then have s': "posting_wf s'" "members s' = members s - {i}" "b"
    using posting_remove_laws [OF 1(2), of i] by (simp_all add: r)
  show ?case
  proof (cases "i = t")
    case True
    then show ?thesis using s' r by (simp add: removePending.simps [of s t t])
  next
    case False
    then have "i < t" using 1(3) by simp
    note st = atLeastAtMost_step [OF this]
    have "insert i X \<subseteq> M \<Longrightarrow> i \<notin> X \<Longrightarrow> X \<subseteq> M - {i}" for X M by blast
    from this [OF 1(4) [unfolded st(2)] st(3)] have "{i + 1..t} \<subseteq> members s'" unfolding s'(2) .
    then obtain s'' where s'': "removePending s' (i + 1) t = Some s''" "posting_wf s''" "members s'' = members s' - {i + 1..t}"
      using 1(1) [OF refl r [symmetric] _ False s'(1) st(1)] s'(3) by blast
    have "removePending s i t = Some s''" using s''(1) s'(3) False by (simp add: removePending.simps [of s i t] r)
    moreover have "members s'' = members s - {i..t}" unfolding s''(3) s'(2) st(2) by (rule Diff_insert2 [symmetric])
    ultimately show ?thesis using s''(2) by blast
  qed
qed

section \<open>Property\<close>

text \<open>
  C39. The staircase of retired sequence numbers never answers below the truth, whatever is retired
  in whatever order: for every bound it returns at least the greatest sequence number retired at or
  before it, and exactly that unless steps were dropped and the bound lies before the first kept
  one. It never holds more than 64 steps.
\<close>

theorem retired_staircase_sound:
  "retiredTruth h t \<le> retiredPrefixMaxSeq (foldr (\<lambda>(t, q) i. addRetiredSeq i t q) h zero_laneIndex) t \<and>
   (retiredPrefixMaxSeq (foldr (\<lambda>(t, q) i. addRetiredSeq i t q) h zero_laneIndex) t = retiredTruth h t \<or>
    li_seqCompressed (foldr (\<lambda>(t, q) i. addRetiredSeq i t q) h zero_laneIndex) \<and>
    t < bp_through (hd (li_retiredSeq (foldr (\<lambda>(t, q) i. addRetiredSeq i t q) h zero_laneIndex)))) \<and>
   length (li_retiredSeq (foldr (\<lambda>(t, q) i. addRetiredSeq i t q) h zero_laneIndex)) \<le> 64"
proof -
  have "stairs_inv (foldr (\<lambda>(t, q) i. addRetiredSeq i t q) h zero_laneIndex) h"
  proof (induction h)
    case Nil
    then show ?case by (simp add: stairs_inv_def zero_laneIndex_def stair_def retiredTruth_def)
  next
    case (Cons x h)
    then show ?case using addRetiredSeq_inv by (cases x) simp
  qed
  note inv = this
  show ?thesis
    using stairs_inv_lookup(1) [OF inv, of t]
    by (intro conjI stairs_inv_ge [OF inv] stairs_invD(2) [OF inv, unfolded retiredSeqBreakpointCap_def]) argo
qed

end
