(* ===== verification/IntervalIndex.thy ===== *)
theory IntervalIndex
  imports Footprint
begin

text \<open>
  \<^verbatim>\<open>epaxos/interval_index.go\<close>: the AVL tree of resources ordered by start, augmented with the
  largest upper end of each subtree so that overlap queries prune.

  A \<^verbatim>\<open>*resourceEntry\<close> is named by its key \<open>(start, point, end)\<close>: the tree of one configuration
  holds one entry per key, so the key is the address. What the pointer leads to beside the key
  (the \<^verbatim>\<open>lanes\<close> map) lives in the store of the conflict engine. \<^verbatim>\<open>nil\<close> is \<open>INil\<close>. The height is an
  \<^verbatim>\<open>int8\<close> in the source; it is an \<open>int\<close> here, the AVL invariant below keeps it logarithmic.
  A rotation of a node without the child it rotates up dereferences nil in the source;
  the model returns the node, and no balanced tree reaches that branch.

  The callbacks \<^verbatim>\<open>yield\<close> become functions from a state to the next state and the boolean they
  return; a query threads the state and stops when the callback says so.
\<close>

section \<open>The code\<close>

datatype resource = Resource (res_start: bytes) (res_end: bytes) (res_point: bool)

datatype intervalNode =
    INil
  | INode (i_left: intervalNode) (i_resource: resource) (i_right: intervalNode)
      (i_height: int) (i_maxEnd: bytes) (i_maxInclusive: bool)

definition resourceCompare :: "bytes \<Rightarrow> bool \<Rightarrow> bytes \<Rightarrow> resource \<Rightarrow> int" where
  "resourceCompare start point fin other =
     (let cmp = bytes_Compare start (res_start other) in
      if cmp \<noteq> 0 then cmp
      else if point \<noteq> res_point other then (if point then -1 else 1)
      else bytes_Compare fin (res_end other))"

fun intervalHeight :: "intervalNode \<Rightarrow> int" where
  "intervalHeight INil = 0"
| "intervalHeight (INode l a r h m i) = h"

definition upperGreater :: "bytes \<Rightarrow> bool \<Rightarrow> bytes \<Rightarrow> bool \<Rightarrow> bool" where
  "upperGreater fin inclusive other otherInclusive =
     (let cmp = bytes_Compare fin other in
      if cmp \<noteq> 0 then cmp > 0 else inclusive \<and> \<not> otherInclusive)"

definition raiseUpper :: "bytes \<times> bool \<Rightarrow> intervalNode \<Rightarrow> bytes \<times> bool" where
  "raiseUpper u c =
     (if c \<noteq> INil \<and> upperGreater (i_maxEnd c) (i_maxInclusive c) (fst u) (snd u)
      then (i_maxEnd c, i_maxInclusive c) else u)"

fun refreshInterval :: "intervalNode \<Rightarrow> intervalNode" where
  "refreshInterval INil = INil"
| "refreshInterval (INode l a r h m i) =
     (let u = raiseUpper (raiseUpper (res_end a, res_point a) l) r in
      INode l a r (1 + max (intervalHeight l) (intervalHeight r)) (fst u) (snd u))"

fun rotateIntervalLeft :: "intervalNode \<Rightarrow> intervalNode" where
  "rotateIntervalLeft (INode l a (INode rl b rr h' m' i') h m i) =
     refreshInterval (INode (refreshInterval (INode l a rl h m i)) b rr h' m' i')"
| "rotateIntervalLeft t = t"

fun rotateIntervalRight :: "intervalNode \<Rightarrow> intervalNode" where
  "rotateIntervalRight (INode (INode ll b lr h' m' i') a r h m i) =
     refreshInterval (INode ll b (refreshInterval (INode lr a r h m i)) h' m' i')"
| "rotateIntervalRight t = t"

fun leftOf :: "intervalNode \<Rightarrow> intervalNode" where
  "leftOf INil = INil"
| "leftOf (INode l a r h m i) = l"

fun rightOf :: "intervalNode \<Rightarrow> intervalNode" where
  "rightOf INil = INil"
| "rightOf (INode l a r h m i) = r"

definition balanceInterval :: "intervalNode \<Rightarrow> intervalNode" where
  "balanceInterval n =
     (case refreshInterval n of
        INil \<Rightarrow> INil
      | INode l a r h m i \<Rightarrow>
          (let balance = intervalHeight l - intervalHeight r in
           if balance > 1 then
             (let l' = (if intervalHeight (leftOf l) < intervalHeight (rightOf l)
                        then rotateIntervalLeft l else l)
              in rotateIntervalRight (INode l' a r h m i))
           else if balance < -1 then
             (let r' = (if intervalHeight (rightOf r) < intervalHeight (leftOf r)
                        then rotateIntervalRight r else r)
              in rotateIntervalLeft (INode l a r' h m i))
           else INode l a r h m i))"

fun findInterval :: "intervalNode \<Rightarrow> bytes \<Rightarrow> bool \<Rightarrow> bytes \<Rightarrow> resource option" where
  "findInterval INil start point fin = None"
| "findInterval (INode l a r h m i) start point fin =
     (let cmp = resourceCompare start point fin a in
      if cmp = 0 then Some a
      else if cmp < 0 then findInterval l start point fin
      else findInterval r start point fin)"

fun insertInterval :: "intervalNode \<Rightarrow> resource \<Rightarrow> intervalNode" where
  "insertInterval INil x = INode INil x INil 1 (res_end x) (res_point x)"
| "insertInterval (INode l a r h m i) x =
     (if resourceCompare (res_start x) (res_point x) (res_end x) a < 0
      then balanceInterval (INode (insertInterval l x) a r h m i)
      else balanceInterval (INode l a (insertInterval r x) h m i))"

fun minInterval :: "intervalNode \<Rightarrow> resource option" where
  "minInterval INil = None"
| "minInterval (INode l a r h m i) = (if l = INil then Some a else minInterval l)"

fun deleteInterval :: "intervalNode \<Rightarrow> resource \<Rightarrow> intervalNode" where
  "deleteInterval INil x = INil"
| "deleteInterval (INode l a r h m i) x =
     (let cmp = resourceCompare (res_start x) (res_point x) (res_end x) a in
      if cmp < 0 then balanceInterval (INode (deleteInterval l x) a r h m i)
      else if cmp > 0 then balanceInterval (INode l a (deleteInterval r x) h m i)
      else if l = INil then r
      else if r = INil then l
      else (case minInterval r of
              None \<Rightarrow> INode l a r h m i
            | Some s \<Rightarrow> balanceInterval (INode l s (deleteInterval r s) h m i)))"

definition intervalMayReachStart :: "intervalNode \<Rightarrow> bytes \<Rightarrow> bool" where
  "intervalMayReachStart n start =
     (if n = INil then False
      else let cmp = bytes_Compare (i_maxEnd n) start in cmp > 0 \<or> cmp = 0 \<and> i_maxInclusive n)"

definition resourceOverlaps :: "resource \<Rightarrow> bytes \<Rightarrow> bytes \<Rightarrow> bool" where
  "resourceOverlaps r start fin =
     (if res_point r
      then bytes_Compare start (res_start r) \<le> 0 \<and> bytes_Compare (res_start r) fin < 0
      else bytes_Compare (res_start r) fin < 0 \<and> bytes_Compare start (res_end r) < 0)"

fun queryIntervalOverlap ::
  "intervalNode \<Rightarrow> bytes \<Rightarrow> bytes \<Rightarrow> (resource \<Rightarrow> 's \<Rightarrow> 's \<times> bool) \<Rightarrow> 's \<Rightarrow> 's \<times> bool" where
  "queryIntervalOverlap INil start fin yield s = (s, True)"
| "queryIntervalOverlap (INode l a r h m i) start fin yield s =
     (let (s1, go1) = (if intervalMayReachStart l start
                       then queryIntervalOverlap l start fin yield s else (s, True)) in
      if \<not> go1 then (s1, False)
      else
        let (s2, go2) = (if resourceOverlaps a start fin then yield a s1 else (s1, True)) in
        if \<not> go2 then (s2, False)
        else if bytes_Compare (res_start a) fin < 0
        then queryIntervalOverlap r start fin yield s2
        else (s2, True))"

definition spanContains :: "resource \<Rightarrow> bytes \<Rightarrow> bool" where
  "spanContains r point \<longleftrightarrow>
     \<not> res_point r \<and> bytes_Compare (res_start r) point \<le> 0 \<and> bytes_Compare point (res_end r) < 0"

fun queryContainingSpans ::
  "intervalNode \<Rightarrow> bytes \<Rightarrow> (resource \<Rightarrow> 's \<Rightarrow> 's \<times> bool) \<Rightarrow> 's \<Rightarrow> 's \<times> bool" where
  "queryContainingSpans INil point yield s = (s, True)"
| "queryContainingSpans (INode l a r h m i) point yield s =
     (let (s1, go1) = (if intervalMayReachStart l point
                       then queryContainingSpans l point yield s else (s, True)) in
      if \<not> go1 then (s1, False)
      else
        let (s2, go2) = (if spanContains a point then yield a s1 else (s1, True)) in
        if \<not> go2 then (s2, False)
        else if bytes_Compare (res_start a) point \<le> 0
        then queryContainingSpans r point yield s2
        else (s2, True))"

section \<open>The order on resources\<close>

instantiation resource :: linorder
begin

definition less_resource :: "resource \<Rightarrow> resource \<Rightarrow> bool" where
  "less_resource x y \<longleftrightarrow> resourceCompare (res_start x) (res_point x) (res_end x) y < 0"

definition less_eq_resource :: "resource \<Rightarrow> resource \<Rightarrow> bool" where
  "less_eq_resource x y \<longleftrightarrow> x < y \<or> x = y"

instance
proof
  fix x y z :: resource
  show "x < y \<longleftrightarrow> x \<le> y \<and> \<not> y \<le> x"
    by (auto simp: less_resource_def less_eq_resource_def resourceCompare_def Let_def split: if_splits)
  show "x \<le> x" by (simp add: less_eq_resource_def)
  show "x \<le> z" if "x \<le> y" and "y \<le> z"
    using that by (auto simp: less_eq_resource_def less_resource_def resourceCompare_def Let_def split: if_splits)
  show "x = y" if "x \<le> y" and "y \<le> x"
    using that by (auto simp: less_eq_resource_def less_resource_def resourceCompare_def Let_def split: if_splits)
  show "x \<le> y \<or> y \<le> x"
    by (cases x; cases y) (auto simp: less_eq_resource_def less_resource_def resourceCompare_def Let_def)
qed

end

lemma resourceCompare_order [simp]:
  "resourceCompare (res_start x) (res_point x) (res_end x) y < 0 \<longleftrightarrow> x < y"
  "0 < resourceCompare (res_start x) (res_point x) (res_end x) y \<longleftrightarrow> y < x"
  "resourceCompare (res_start x) (res_point x) (res_end x) y = 0 \<longleftrightarrow> x = y"
  by (cases x; cases y; auto simp: less_resource_def resourceCompare_def Let_def)+

lemma resource_less_start: "x < y \<Longrightarrow> res_start x \<le> res_start y"
  by (auto simp: less_resource_def resourceCompare_def Let_def split: if_splits)

section \<open>The set of resources and its order\<close>

fun inorder :: "intervalNode \<Rightarrow> resource list" where
  "inorder INil = []"
| "inorder (INode l a r h m i) = inorder l @ a # inorder r"

lemma inorder_refresh [simp]: "inorder (refreshInterval t) = inorder t"
  by (cases t) (simp_all add: Let_def)

declare refreshInterval.simps(2) [simp del]

lemma inorder_rotateLeft [simp]: "inorder (rotateIntervalLeft t) = inorder t"
  by (induction t rule: rotateIntervalLeft.induct) simp_all

lemma inorder_rotateRight [simp]: "inorder (rotateIntervalRight t) = inorder t"
  by (induction t rule: rotateIntervalRight.induct) simp_all

lemma inorder_balance [simp]: "inorder (balanceInterval (INode l a r h m i)) = inorder l @ a # inorder r"
proof -
  obtain h' m' i' where "refreshInterval (INode l a r h m i) = INode l a r h' m' i'"
    by (simp add: refreshInterval.simps Let_def)
  then show ?thesis by (simp add: balanceInterval_def Let_def)
qed

lemma insort_sorted_append:
  fixes x y :: "'a::linorder"
  assumes "sorted_wrt (<) (xs @ y # ys)" "x \<noteq> y"
  shows "insort x (xs @ y # ys) = (if x < y then insort x xs @ y # ys else xs @ y # insort x ys)"
  using assms by (induction xs) (auto simp: insort_is_Cons sorted_wrt_append)

lemma inorder_insert:
  "sorted_wrt (<) (inorder t) \<Longrightarrow> x \<notin> set (inorder t) \<Longrightarrow>
     inorder (insertInterval t x) = insort x (inorder t)"
  by (induction t) (auto simp: insort_sorted_append sorted_wrt_append)

lemma inorder_min: "t \<noteq> INil \<Longrightarrow> minInterval t = Some (hd (inorder t))"
  by (induction t) (auto simp: hd_append dest: sym [of "[]"] elim: inorder.elims)

lemma inorder_eq_Nil [simp]: "inorder t = [] \<longleftrightarrow> t = INil"
  by (cases t) simp_all

lemma remove1_sorted_append:
  fixes x y :: "'a::linorder"
  assumes "sorted_wrt (<) (xs @ y # ys)"
  shows "remove1 x (xs @ y # ys) =
    (if x < y then remove1 x xs @ y # ys else if x = y then xs @ ys else xs @ y # remove1 x ys)"
  using assms by (auto simp: remove1_append sorted_wrt_append remove1_idem dest: order.strict_trans)

lemma inorder_delete:
  "sorted_wrt (<) (inorder t) \<Longrightarrow> inorder (deleteInterval t x) = remove1 x (inorder t)"
proof (induction t arbitrary: x)
  case (INode l a r h m i)
  have l: "sorted_wrt (<) (inorder l)" and r: "sorted_wrt (<) (inorder r)"
    using INode.prems by (auto simp: sorted_wrt_append)
  consider "x < a" | "x = a" | "a < x" by (cases x a rule: linorder_cases)
  then show ?case
  proof cases
    case 2
    show ?thesis
    proof (cases "l = INil \<or> r = INil")
      case False
      then obtain s where s: "minInterval r = Some s" "inorder r = s # tl (inorder r)"
        using inorder_min [of r] by (metis inorder_eq_Nil list.collapse)
      then have "remove1 s (inorder r) = tl (inorder r)" by (metis remove1.simps(2))
      then show ?thesis
        using 2 False s INode.IH(2) [OF r, of s] INode.prems
        by (simp add: Let_def remove1_sorted_append flip: s(2))
    qed (use 2 INode.prems in \<open>auto simp: Let_def remove1_sorted_append\<close>)
  qed (use INode l r in \<open>auto simp: Let_def remove1_sorted_append\<close>)
qed simp

lemma findInterval_spec:
  "sorted_wrt (<) (inorder t) \<Longrightarrow>
     findInterval t st pt fin = (if Resource st fin pt \<in> set (inorder t) then Some (Resource st fin pt) else None)"
proof (induction t)
  case (INode l a r h m i)
  have cmp: "resourceCompare st pt fin a < 0 \<longleftrightarrow> Resource st fin pt < a"
    "resourceCompare st pt fin a = 0 \<longleftrightarrow> Resource st fin pt = a"
    using resourceCompare_order(1,3) [of "Resource st fin pt" a] by simp_all
  show ?case
    using INode by (cases "Resource st fin pt" a rule: linorder_cases)
      (auto simp: Let_def cmp sorted_wrt_append)
qed simp

section \<open>Heights and upper ends\<close>

fun aug_ok :: "intervalNode \<Rightarrow> bool" where
  "aug_ok INil \<longleftrightarrow> True"
| "aug_ok (INode l a r h m i) \<longleftrightarrow>
     refreshInterval (INode l a r h m i) = INode l a r h m i \<and> aug_ok l \<and> aug_ok r"

fun avl :: "intervalNode \<Rightarrow> bool" where
  "avl INil \<longleftrightarrow> True"
| "avl (INode l a r h m i) \<longleftrightarrow> \<bar>intervalHeight l - intervalHeight r\<bar> \<le> 1 \<and> avl l \<and> avl r"

text \<open>A node built by a refresh; it does not depend on the fields it overwrites.\<close>

definition mk_node :: "intervalNode \<Rightarrow> resource \<Rightarrow> intervalNode \<Rightarrow> intervalNode" where
  "mk_node l a r = refreshInterval (INode l a r 0 [] False)"

lemma refresh_mk_node [simp]: "refreshInterval (INode l a r h m i) = mk_node l a r"
  by (simp add: mk_node_def refreshInterval.simps)

lemma mk_node_simps [simp]:
  "inorder (mk_node l a r) = inorder l @ a # inorder r"
  "intervalHeight (mk_node l a r) = 1 + max (intervalHeight l) (intervalHeight r)"
  "leftOf (mk_node l a r) = l" "rightOf (mk_node l a r) = r" "mk_node l a r \<noteq> INil"
  "aug_ok (mk_node l a r) \<longleftrightarrow> aug_ok l \<and> aug_ok r"
  "avl (mk_node l a r) \<longleftrightarrow> \<bar>intervalHeight l - intervalHeight r\<bar> \<le> 1 \<and> avl l \<and> avl r"
  by (auto simp: mk_node_def refreshInterval.simps Let_def simp del: refresh_mk_node)

lemma rotate_mk_node [simp]:
  "rotateIntervalLeft (INode l a (mk_node rl b rr) h m i) = mk_node (mk_node l a rl) b rr"
  "rotateIntervalRight (INode (mk_node ll b lr) a r h m i) = mk_node ll b (mk_node lr a r)"
  by (simp_all add: mk_node_def refreshInterval.simps(2) Let_def del: refresh_mk_node)

lemma aug_ok_height:
  "aug_ok (INode l a r h m i) \<Longrightarrow> h = 1 + max (intervalHeight l) (intervalHeight r)"
  by (auto dest: arg_cong [where f = intervalHeight])

lemma aug_ok_rotateLeft [simp]: "aug_ok t \<Longrightarrow> aug_ok (rotateIntervalLeft t)"
  by (induction t rule: rotateIntervalLeft.induct) simp_all

lemma aug_ok_rotateRight [simp]: "aug_ok t \<Longrightarrow> aug_ok (rotateIntervalRight t)"
  by (induction t rule: rotateIntervalRight.induct) simp_all

text \<open>Rotations refresh what they move, so only the children's augmentation matters.\<close>

lemma aug_ok_rotate_children:
  "aug_ok l \<Longrightarrow> aug_ok r \<Longrightarrow> r \<noteq> INil \<Longrightarrow> aug_ok (rotateIntervalLeft (INode l a r h m i))"
  "aug_ok l \<Longrightarrow> aug_ok r \<Longrightarrow> l \<noteq> INil \<Longrightarrow> aug_ok (rotateIntervalRight (INode l a r h m i))"
  by (cases r; simp) (cases l; simp)

lemma height_nonneg: "aug_ok t \<Longrightarrow> 0 \<le> intervalHeight t"
  by (induction t) (auto dest!: arg_cong [where f = intervalHeight])

lemma rotate_neq_INil [simp]:
  "rotateIntervalLeft t = INil \<longleftrightarrow> t = INil" "rotateIntervalRight t = INil \<longleftrightarrow> t = INil"
  using inorder_rotateLeft [of t] inorder_rotateRight [of t] by (metis inorder_eq_Nil)+

lemma balance_cases:
  "balanceInterval (INode l a r h m i) =
     (let n = mk_node l a r in
      if intervalHeight l - intervalHeight r > 1 then
        rotateIntervalRight (INode
          (if intervalHeight (leftOf l) < intervalHeight (rightOf l) then rotateIntervalLeft l else l)
          a r (i_height n) (i_maxEnd n) (i_maxInclusive n))
      else if intervalHeight l - intervalHeight r < -1 then
        rotateIntervalLeft (INode l a
          (if intervalHeight (rightOf r) < intervalHeight (leftOf r) then rotateIntervalRight r else r)
          (i_height n) (i_maxEnd n) (i_maxInclusive n))
      else n)"
  by (simp add: balanceInterval_def mk_node_def refreshInterval.simps(2) Let_def del: refresh_mk_node)

lemma aug_ok_balance:
  assumes "aug_ok l" "aug_ok r"
  shows "aug_ok (balanceInterval (INode l a r h m i))"
proof -
  have "l \<noteq> INil" if "intervalHeight l - intervalHeight r > 1"
    using that height_nonneg [OF assms(2)] by auto
  moreover have "r \<noteq> INil" if "intervalHeight l - intervalHeight r < -1"
    using that height_nonneg [OF assms(1)] by auto
  ultimately show ?thesis
    using assms by (auto simp: balance_cases Let_def intro!: aug_ok_rotate_children)
qed

lemma balance_small:
  "\<bar>intervalHeight l - intervalHeight r\<bar> \<le> 1 \<Longrightarrow> balanceInterval (INode l a r h m i) = mk_node l a r"
proof -
  assume "\<bar>intervalHeight l - intervalHeight r\<bar> \<le> 1"
  then have "\<not> 1 < intervalHeight l - intervalHeight r" "\<not> intervalHeight l - intervalHeight r < -1"
    by linarith+
  then show ?thesis unfolding balance_cases Let_def by presburger
qed

definition grown :: "int \<Rightarrow> intervalNode \<Rightarrow> bool" where
  "grown k t \<longleftrightarrow> avl t \<and> intervalHeight t \<in> {k, k + 1}"

lemma avl_balance_left:
  assumes "aug_ok l" "aug_ok r" "avl l" "avl r" "intervalHeight l = intervalHeight r + 2"
  shows "grown (intervalHeight l) (balanceInterval (INode l a r h m i))"
proof -
  obtain ll b lr lh lm li where l: "l = INode ll b lr lh lm li"
    using assms height_nonneg [of r] by (cases l) auto
  have lh: "lh = 1 + max (intervalHeight ll) (intervalHeight lr)"
    using assms(1) aug_ok_height l by blast
  show ?thesis
  proof (cases "intervalHeight ll < intervalHeight lr")
    case False
    then have "balanceInterval (INode l a r h m i) = mk_node ll b (mk_node lr a r)"
      using assms(5) l by (simp add: balance_cases)
    then show ?thesis using False l lh assms(3-5) by (simp add: grown_def) linarith
  next
    case True
    then obtain x c y k n j where lr: "lr = INode x c y k n j"
      using l assms(1) height_nonneg [of ll] by (cases lr) auto
    have k: "k = 1 + max (intervalHeight x) (intervalHeight y)"
      using assms(1) l lr aug_ok_height by (metis aug_ok.simps(2))
    have "balanceInterval (INode l a r h m i) = mk_node (mk_node ll b x) c (mk_node y a r)"
      using True assms(5) l lr by (simp add: balance_cases)
    then show ?thesis using True l lr lh k assms(3-5) by (simp add: grown_def) linarith
  qed
qed

lemma avl_balance_right:
  assumes "aug_ok l" "aug_ok r" "avl l" "avl r" "intervalHeight r = intervalHeight l + 2"
  shows "grown (intervalHeight r) (balanceInterval (INode l a r h m i))"
proof -
  obtain rl b rr rh rm ri where r: "r = INode rl b rr rh rm ri"
    using assms height_nonneg [of l] by (cases r) auto
  have rh: "rh = 1 + max (intervalHeight rl) (intervalHeight rr)"
    using assms(2) aug_ok_height r by blast
  show ?thesis
  proof (cases "intervalHeight rr < intervalHeight rl")
    case False
    then have "balanceInterval (INode l a r h m i) = mk_node (mk_node l a rl) b rr"
      using assms(5) r by (simp add: balance_cases)
    then show ?thesis using False r rh assms(3-5) by (simp add: grown_def) linarith
  next
    case True
    then obtain x c y k n j where rl: "rl = INode x c y k n j"
      using r assms(2) height_nonneg [of rr] by (cases rl) auto
    have k: "k = 1 + max (intervalHeight x) (intervalHeight y)"
      using assms(2) r rl aug_ok_height by (metis aug_ok.simps(2))
    have "balanceInterval (INode l a r h m i) = mk_node (mk_node l a x) c (mk_node y b rr)"
      using True assms(5) r rl by (simp add: balance_cases)
    then show ?thesis using True r rl rh k assms(3-5) by (simp add: grown_def) linarith
  qed
qed

lemma avl_balance:
  assumes "aug_ok l" "aug_ok r" "avl l" "avl r" "\<bar>intervalHeight l - intervalHeight r\<bar> \<le> 2"
  shows "avl (balanceInterval (INode l a r h m i))"
    "intervalHeight (balanceInterval (INode l a r h m i)) \<in>
      {max (intervalHeight l) (intervalHeight r), 1 + max (intervalHeight l) (intervalHeight r)}"
    "\<bar>intervalHeight l - intervalHeight r\<bar> \<le> 1 \<longrightarrow>
      intervalHeight (balanceInterval (INode l a r h m i)) = 1 + max (intervalHeight l) (intervalHeight r)"
proof -
  consider "intervalHeight l = intervalHeight r + 2" | "intervalHeight r = intervalHeight l + 2"
    | "\<bar>intervalHeight l - intervalHeight r\<bar> \<le> 1" using assms(5) by linarith
  then have "grown (max (intervalHeight l) (intervalHeight r)) (balanceInterval (INode l a r h m i))"
    by cases (use assms avl_balance_left avl_balance_right in
        \<open>auto simp: balance_small grown_def max_def\<close>)
  then show "avl (balanceInterval (INode l a r h m i))"
    "intervalHeight (balanceInterval (INode l a r h m i)) \<in>
      {max (intervalHeight l) (intervalHeight r), 1 + max (intervalHeight l) (intervalHeight r)}"
    by (auto simp: grown_def)
qed (simp add: balance_small)

lemma aug_ok_insert [simp]: "aug_ok t \<Longrightarrow> aug_ok (insertInterval t x)"
  by (induction t) (auto simp: aug_ok_balance mk_node_def refreshInterval.simps raiseUpper_def
      simp del: refresh_mk_node)

lemma aug_ok_delete [simp]: "aug_ok t \<Longrightarrow> aug_ok (deleteInterval t x)"
  by (induction t arbitrary: x) (auto simp: aug_ok_balance Let_def split: option.splits)

lemma avl_balance_arith:
  fixes p q p' q' k :: int
  assumes "\<bar>p - q\<bar> \<le> 1" "k \<in> {max p' q', 1 + max p' q'}" "\<bar>p' - q'\<bar> \<le> 1 \<longrightarrow> k = 1 + max p' q'"
  shows "p' \<in> {p, p + 1} \<and> q' = q \<or> p' = p \<and> q' \<in> {q, q + 1} \<Longrightarrow>
      k \<in> {1 + max p q, 1 + max p q + 1}"
    "p' \<in> {p - 1, p} \<and> q' = q \<or> p' = p \<and> q' \<in> {q - 1, q} \<Longrightarrow> k \<in> {max p q, 1 + max p q}"
proof -
  consider "p = q - 1" | "p = q" | "p = q + 1" using assms(1) by linarith
  note pq = this
  show "k \<in> {1 + max p q, 1 + max p q + 1}" if "p' \<in> {p, p + 1} \<and> q' = q \<or> p' = p \<and> q' \<in> {q, q + 1}"
    using pq by cases (use that assms(2,3) in \<open>auto simp: max_def\<close>)
  show "k \<in> {max p q, 1 + max p q}" if "p' \<in> {p - 1, p} \<and> q' = q \<or> p' = p \<and> q' \<in> {q - 1, q}"
    using pq by cases (use that assms(2,3) in \<open>auto simp: max_def\<close>)
qed

lemma avl_balance_grown:
  assumes "aug_ok (INode l a r h m i)" "avl (INode l a r h m i)" "aug_ok l'" "aug_ok r'"
    "grown (intervalHeight l) l' \<and> r' = r \<or> l' = l \<and> grown (intervalHeight r) r'"
  shows "grown h (balanceInterval (INode l' b r' h m i))"
proof -
  have "\<bar>intervalHeight l' - intervalHeight r'\<bar> \<le> 2" "avl l'" "avl r'"
    using assms(2,5) by (auto simp: grown_def)
  note bal = avl_balance [OF assms(3,4) this(2,3,1), of b h m i]
  show ?thesis
    using avl_balance_arith(1) [OF _ bal(2,3), of "intervalHeight l" "intervalHeight r"] bal(1) assms(2,5)
      aug_ok_height [OF assms(1)]
    by (auto simp: grown_def)
qed

lemma avl_balance_shrunk:
  assumes "aug_ok (INode l a r h m i)" "avl (INode l a r h m i)" "aug_ok l'" "aug_ok r'"
    "grown (intervalHeight l - 1) l' \<and> r' = r \<or> l' = l \<and> grown (intervalHeight r - 1) r'"
  shows "grown (h - 1) (balanceInterval (INode l' b r' h m i))"
proof -
  have "\<bar>intervalHeight l' - intervalHeight r'\<bar> \<le> 2" "avl l'" "avl r'"
    using assms(2,5) by (auto simp: grown_def)
  note bal = avl_balance [OF assms(3,4) this(2,3,1), of b h m i]
  show ?thesis
    using avl_balance_arith(2) [OF _ bal(2,3), of "intervalHeight l" "intervalHeight r"] bal(1) assms(2,5)
      aug_ok_height [OF assms(1)]
    by (auto simp: grown_def)
qed

lemma avl_insert: "aug_ok t \<Longrightarrow> avl t \<Longrightarrow> grown (intervalHeight t) (insertInterval t x)"
proof (induction t)
  case (INode l a r h m i)
  then show ?case
    using avl_balance_grown [OF INode.prems, of "insertInterval l x" r a]
      avl_balance_grown [OF INode.prems, of l "insertInterval r x" a] by simp
qed (simp add: grown_def)

lemma avl_delete: "aug_ok t \<Longrightarrow> avl t \<Longrightarrow> grown (intervalHeight t - 1) (deleteInterval t x)"
proof (induction t arbitrary: x)
  case (INode l a r h m i)
  note h = aug_ok_height [OF INode.prems(1)] and nn = height_nonneg [of l] height_nonneg [of r]
  have "grown (h - 1) r" if "l = INil" using that INode.prems h nn by (auto simp: grown_def)
  moreover have "grown (h - 1) l" if "r = INil" using that INode.prems h nn by (auto simp: grown_def)
  ultimately show ?case
    using INode avl_balance_shrunk [OF INode.prems, of "deleteInterval l x" r a]
      avl_balance_shrunk [OF INode.prems, of l "deleteInterval r x" a]
      avl_balance_shrunk [OF INode.prems, of l "deleteInterval r s" s for s]
    by (auto simp: Let_def inorder_min)
qed (simp add: grown_def)

section \<open>Queries\<close>

text \<open>What the conflict engine stores: a point has its key as both ends, a span is not empty.\<close>

definition res_wf :: "resource \<Rightarrow> bool" where
  "res_wf x \<longleftrightarrow> (if res_point x then res_end x = res_start x else res_start x < res_end x)"

text \<open>The keys a resource stands for.\<close>

definition res_keys :: "resource \<Rightarrow> bytes set" where
  "res_keys x = (if res_point x then {res_start x} else {res_start x ..< res_end x})"

definition index_inv :: "intervalNode \<Rightarrow> bool" where
  "index_inv t \<longleftrightarrow> sorted_wrt (<) (inorder t) \<and> (\<forall>x \<in> set (inorder t). res_wf x) \<and> aug_ok t \<and> avl t"

lemma upperGreater_trans:
  "\<not> upperGreater a p b q \<Longrightarrow> \<not> upperGreater b q c r \<Longrightarrow> \<not> upperGreater a p c r"
  by (auto simp: upperGreater_def Let_def split: if_splits)

lemma raiseUpper_ge:
  "\<not> upperGreater (fst u) (snd u) (fst (raiseUpper u c)) (snd (raiseUpper u c))"
  "c \<noteq> INil \<Longrightarrow> \<not> upperGreater (i_maxEnd c) (i_maxInclusive c) (fst (raiseUpper u c)) (snd (raiseUpper u c))"
  by (auto simp: raiseUpper_def upperGreater_def Let_def split: if_splits)

lemma upper_bound:
  "aug_ok t \<Longrightarrow> x \<in> set (inorder t) \<Longrightarrow>
     \<not> upperGreater (res_end x) (res_point x) (i_maxEnd t) (i_maxInclusive t)"
proof (induction t)
  case (INode l a r h m i)
  define v where "v = raiseUpper (res_end a, res_point a) l"
  have m: "m = fst (raiseUpper v r)" "i = snd (raiseUpper v r)"
    using INode.prems(1) by (auto simp: v_def mk_node_def refreshInterval.simps Let_def simp del: refresh_mk_node)
  note ge = raiseUpper_ge [where u = "(res_end a, res_point a)" and c = l, folded v_def]
    raiseUpper_ge [where u = v and c = r, folded m]
  consider "x = a" | "x \<in> set (inorder l)" "l \<noteq> INil" | "x \<in> set (inorder r)" "r \<noteq> INil"
    using INode.prems(2) by fastforce
  then show ?case
  proof cases
    case 1
    then show ?thesis using upperGreater_trans [OF ge(1,3)] by simp
  next
    case 2
    then show ?thesis
      using upperGreater_trans [OF upperGreater_trans [OF INode.IH(1) ge(2)] ge(3)] INode.prems(1) by simp
  next
    case 3
    then show ?thesis using upperGreater_trans [OF INode.IH(2) ge(4)] INode.prems(1) by simp
  qed
qed simp

lemma not_reach:
  assumes "aug_ok t" "\<not> intervalMayReachStart t st" "x \<in> set (inorder t)" "res_wf x"
  shows "\<not> resourceOverlaps x st fin" "\<not> spanContains x st"
proof -
  have "t \<noteq> INil" using assms(3) by auto
  then show "\<not> resourceOverlaps x st fin" "\<not> spanContains x st"
    using assms(2,4) upper_bound [OF assms(1,3)]
    by (auto simp: intervalMayReachStart_def upperGreater_def resourceOverlaps_def spanContains_def res_wf_def
        Let_def split: if_splits)
qed

lemma queryIntervalOverlap_filter:
  "sorted_wrt (<) (inorder t) \<Longrightarrow> \<forall>x \<in> set (inorder t). res_wf x \<Longrightarrow> aug_ok t \<Longrightarrow>
   queryIntervalOverlap t st fin f s = yield_all f (filter (\<lambda>x. resourceOverlaps x st fin) (inorder t)) s"
proof (induction t arbitrary: s)
  case (INode l a r h m i)
  have pl: "filter (\<lambda>x. resourceOverlaps x st fin) (inorder l) = []" if "\<not> intervalMayReachStart l st"
    using that not_reach(1) INode.prems by (auto simp: filter_empty_conv)
  have pr: "filter (\<lambda>x. resourceOverlaps x st fin) (inorder r) = []" if "\<not> res_start a < fin"
    using that INode.prems(1) resource_less_start [of a]
    by (fastforce simp: filter_empty_conv resourceOverlaps_def sorted_wrt_append)
  have "queryIntervalOverlap l st fin f s = yield_all f (filter (\<lambda>x. resourceOverlaps x st fin) (inorder l)) s"
    "queryIntervalOverlap r st fin f s' = yield_all f (filter (\<lambda>x. resourceOverlaps x st fin) (inorder r)) s'" for s'
    using INode by (auto simp: sorted_wrt_append)
  then show ?case
    using pl pr by (auto simp: yield_all_append Let_def split: prod.splits)
qed simp

lemma queryContainingSpans_filter:
  "sorted_wrt (<) (inorder t) \<Longrightarrow> \<forall>x \<in> set (inorder t). res_wf x \<Longrightarrow> aug_ok t \<Longrightarrow>
   queryContainingSpans t pt f s = yield_all f (filter (\<lambda>x. spanContains x pt) (inorder t)) s"
proof (induction t arbitrary: s)
  case (INode l a r h m i)
  have pl: "filter (\<lambda>x. spanContains x pt) (inorder l) = []" if "\<not> intervalMayReachStart l pt"
    using that not_reach(2) INode.prems by (auto simp: filter_empty_conv)
  have pr: "filter (\<lambda>x. spanContains x pt) (inorder r) = []" if "\<not> res_start a \<le> pt"
    using that INode.prems(1) resource_less_start [of a]
    by (fastforce simp: filter_empty_conv spanContains_def sorted_wrt_append)
  have "queryContainingSpans l pt f s = yield_all f (filter (\<lambda>x. spanContains x pt) (inorder l)) s"
    "queryContainingSpans r pt f s' = yield_all f (filter (\<lambda>x. spanContains x pt) (inorder r)) s'" for s'
    using INode by (auto simp: sorted_wrt_append)
  then show ?case
    using pl pr by (auto simp: yield_all_append Let_def split: prod.splits)
qed simp

lemma resourceOverlaps_iff:
  "res_wf x \<Longrightarrow> st < fin \<Longrightarrow> resourceOverlaps x st fin \<longleftrightarrow> res_keys x \<inter> {st ..< fin} \<noteq> {}"
proof -
  assume "res_wf x" "st < fin"
  moreover have "max (res_start x) st \<in> res_keys x \<inter> {st ..< fin}"
    if "\<not> res_point x" "res_start x < fin" "st < res_end x"
    using that \<open>res_wf x\<close> \<open>st < fin\<close> by (auto simp: res_keys_def res_wf_def max_def)
  ultimately show ?thesis
    by (auto simp: resourceOverlaps_def res_keys_def)
qed

lemma spanContains_iff: "spanContains x pt \<longleftrightarrow> \<not> res_point x \<and> pt \<in> res_keys x"
  by (auto simp: spanContains_def res_keys_def)

lemma index_inv_insert:
  "index_inv t \<Longrightarrow> res_wf x \<Longrightarrow> x \<notin> set (inorder t) \<Longrightarrow> index_inv (insertInterval t x)"
  using avl_insert [of t x]
  by (simp add: index_inv_def inorder_insert set_insort_key grown_def sorted_distinct_strict
      sorted_insort distinct_insort strict_sorted_iff)

lemma index_inv_delete: "index_inv t \<Longrightarrow> index_inv (deleteInterval t x)"
  using avl_delete [of t x]
  by (auto simp: index_inv_def inorder_delete grown_def strict_sorted_iff sorted_remove1
      dest: set_remove1_subset [THEN subsetD])

section \<open>Height\<close>

lemma avl_size:
  "aug_ok t \<Longrightarrow> avl t \<Longrightarrow> 2 ^ (nat (intervalHeight t) div 2) \<le> length (inorder t) + 1"
proof (induction t)
  case (INode l a r h m i)
  define p q where "p = nat (intervalHeight l)" and "q = nat (intervalHeight r)"
  have "nat h = 1 + max p q" and pq: "max p q \<le> min p q + 1"
    using INode.prems aug_ok_height [OF INode.prems(1)] height_nonneg [of l] height_nonneg [of r]
    by (auto simp: p_def q_def max_def min_def nat_add_distrib)
  then have k: "nat h div 2 \<le> 1 + min p q div 2" by linarith
  have "(2::nat) ^ (min p q div 2) \<le> 2 ^ (p div 2)" "(2::nat) ^ (min p q div 2) \<le> 2 ^ (q div 2)"
    by (auto intro!: power_increasing div_le_mono)
  then have "2 * (2::nat) ^ (min p q div 2) \<le> 2 ^ (p div 2) + 2 ^ (q div 2)" by linarith
  moreover have "(2::nat) ^ (nat h div 2) \<le> 2 ^ (1 + min p q div 2)"
    using k by (intro power_increasing) simp_all
  moreover have "2 ^ (p div 2) \<le> length (inorder l) + 1" "2 ^ (q div 2) \<le> length (inorder r) + 1"
    using INode by (simp_all add: p_def q_def)
  ultimately have "2 ^ (nat h div 2) \<le> length (inorder l) + 1 + (length (inorder r) + 1)"
    by (simp del: power_increasing_iff)
  then show ?case by simp
qed simp

section \<open>The interface of the index\<close>

locale resource_index =
  fixes mt :: 't
    and ins :: "'t \<Rightarrow> resource \<Rightarrow> 't"
    and del :: "'t \<Rightarrow> resource \<Rightarrow> 't"
    and look :: "'t \<Rightarrow> bytes \<Rightarrow> bool \<Rightarrow> bytes \<Rightarrow> resource option"
    and elems :: "'t \<Rightarrow> resource list"
    and inv :: "'t \<Rightarrow> bool"
  assumes inv_mt: "inv mt" "elems mt = []"
    and ins_law: "inv t \<Longrightarrow> res_wf x \<Longrightarrow> x \<notin> set (elems t) \<Longrightarrow>
          inv (ins t x) \<and> elems (ins t x) = insort x (elems t)"
    and del_law: "inv t \<Longrightarrow> inv (del t x) \<and> elems (del t x) = remove1 x (elems t)"
    and look_law: "inv t \<Longrightarrow>
          look t st pt fin = (if Resource st fin pt \<in> set (elems t) then Some (Resource st fin pt) else None)"
    and elems_sorted: "inv t \<Longrightarrow> sorted_wrt (<) (elems t)"
begin

text \<open>How the engine adds a resource: it looks the key up and inserts only when it is absent.\<close>

definition intern :: "resource \<Rightarrow> 't \<Rightarrow> 't" where
  "intern x t = (case look t (res_start x) (res_point x) (res_end x) of Some _ \<Rightarrow> t | None \<Rightarrow> ins t x)"

lemma intern_inv: "inv t \<Longrightarrow> res_wf x \<Longrightarrow> inv (intern x t)"
  by (cases x) (auto simp: intern_def look_law ins_law)

lemma intern_set: "inv t \<Longrightarrow> res_wf x \<Longrightarrow> set (elems (intern x t)) = insert x (set (elems t))"
  by (cases x) (auto simp: intern_def look_law ins_law set_insort_key)

lemma del_set: "inv t \<Longrightarrow> set (elems (del t x)) = set (elems t) - {x}"
  using elems_sorted [of t] by (auto simp: del_law strict_sorted_iff)

lemma intern_fold:
  "inv t \<Longrightarrow> \<forall>x \<in> set xs. res_wf x \<Longrightarrow>
     inv (fold intern xs t) \<and> set (elems (fold intern xs t)) = set (elems t) \<union> set xs"
  by (induction xs arbitrary: t) (auto simp: intern_inv intern_set)

lemma elems_canonical:
  "inv t \<Longrightarrow> elems t = sorted_list_of_set (set (elems t))"
  using elems_sorted [of t] by (simp add: strict_sorted_iff sorted_list_of_set_sort_remdups distinct_remdups_id
      sorted_sort_id)

end

interpretation avl_index: resource_index INil insertInterval deleteInterval findInterval inorder index_inv
  by unfold_locales
    (auto simp: index_inv_insert index_inv_delete inorder_insert inorder_delete findInterval_spec
      index_inv_def [of INil], auto simp: index_inv_def inorder_insert inorder_delete findInterval_spec)

section \<open>Properties\<close>

text \<open>
  C20. The interval index stays an ordered, balanced tree with correct upper ends under the
  engine's way of adding entries (find, insert when absent) and under deletion, and its
  contents change by exactly that entry: the in-order traversal is the sorted list of what
  was added and not removed.
\<close>

theorem index_update_correct:
  assumes "index_inv t" "res_wf x"
  defines "added \<equiv> (case findInterval t (res_start x) (res_point x) (res_end x) of
      Some _ \<Rightarrow> t | None \<Rightarrow> insertInterval t x)"
  shows "index_inv added \<and> index_inv (deleteInterval t x) \<and>
    inorder added = sorted_list_of_set (insert x (set (inorder t))) \<and>
    inorder (deleteInterval t x) = sorted_list_of_set (set (inorder t) - {x})"
  unfolding added_def using assms(1,2) avl_index.intern_inv avl_index.intern_set avl_index.del_set avl_index.del_law
    avl_index.elems_canonical unfolding avl_index.intern_def by metis

theorem index_update_correct_witness:
  "index_inv (insertInterval INil (Resource [1] [1] True))"
  using index_update_correct [of INil "Resource [1] [1] True"]
  by (simp add: index_inv_def [of INil] res_wf_def)

text \<open>
  C15. Overlap queries are complete and exact: pruning by the stored upper ends and by the start
  order loses no entry. On a well-formed tree the query yields, in key order and until the
  callback stops it, exactly the resources whose keys meet the queried half-open range, and
  the containment query exactly the spans that contain the point.
\<close>

theorem index_queries_exact:
  assumes "index_inv t" "st < fin"
  shows "queryIntervalOverlap t st fin f s =
      yield_all f (filter (\<lambda>x. res_keys x \<inter> {st ..< fin} \<noteq> {}) (inorder t)) s \<and>
    queryContainingSpans t pt f s =
      yield_all f (filter (\<lambda>x. \<not> res_point x \<and> pt \<in> res_keys x) (inorder t)) s"
proof -
  have "filter (\<lambda>x. resourceOverlaps x st fin) (inorder t) =
      filter (\<lambda>x. res_keys x \<inter> {st ..< fin} \<noteq> {}) (inorder t)"
    using assms by (intro filter_cong) (auto simp: index_inv_def resourceOverlaps_iff)
  then show ?thesis
    using assms(1) by (simp add: index_inv_def queryIntervalOverlap_filter queryContainingSpans_filter
        spanContains_iff)
qed

theorem index_queries_exact_witness:
  "queryIntervalOverlap (insertInterval INil (Resource [1] [4] False)) [2] [3] (\<lambda>x s. (s @ [x], True)) [] =
     ([Resource [1] [4] False], True)"
proof -
  have "res_keys (Resource [1] [4] False) \<inter> {[2] ..< [3]} \<noteq> {}"
    by (simp flip: resourceOverlaps_iff add: resourceOverlaps_iff [symmetric] res_wf_def)
      (simp add: resourceOverlaps_def)
  moreover have "index_inv (insertInterval INil (Resource [1] [4] False))"
    by (rule index_inv_insert) (simp_all add: index_inv_def res_wf_def)
  ultimately show ?thesis
    using index_queries_exact [of "insertInterval INil (Resource [1] [4] False)" "[2]" "[3]"
        "\<lambda>x s. (s @ [x], True)" "[]" "[]"] by simp
qed



end
