(* ===== verification/ConflictEngine.thy ===== *)
theory ConflictEngine
  imports LaneIndex IntervalIndex "HOL-Library.AList_Mapping"
begin

text \<open>
  The conflict engine of \<^verbatim>\<open>epaxos/conflict_engine.go\<close>: per lane a tree of resident slots and the
  watermarks of what was retired, and per resource (a point or a span of keys) the posting sets of
  the instances that touch it.

  A \<^verbatim>\<open>*resourceEntry\<close> is a resource key in the interval index of its configuration; the \<^verbatim>\<open>lanes\<close> map
  that the pointer leads to is in the store \<open>eng_lanes\<close>, addressed by configuration and key. A Go map
  is a partial function, or a mapping where the code ranges over it or asks for its size; a range
  whose order can be seen takes the order of the keys as a parameter. The
  scratch set of \<^verbatim>\<open>eachFootprintResource\<close> is the list of resources already seen by the call.
\<close>

section \<open>The code\<close>

record keyLane =
  kl_postings :: postingSet
  kl_retiredFloor :: InstanceNum

type_synonym keyLanes = "(instanceLane, keyLane) mapping"

record conflictEngine =
  eng_laneIndex :: "instanceLane \<rightharpoonup> laneIndex"
  eng_points :: "ConfID \<rightharpoonup> (bytes, resource) mapping"
  eng_intervals :: "ConfID \<rightharpoonup> intervalNode"
  eng_lanes :: "ConfID \<Rightarrow> resource \<Rightarrow> keyLanes"
  eng_resident :: int

definition zero_engine :: conflictEngine where
  "zero_engine = \<lparr>eng_laneIndex = Map.empty, eng_points = Map.empty, eng_intervals = Map.empty,
     eng_lanes = (\<lambda>_ _. Mapping.empty), eng_resident = 0\<rparr>"

text \<open>\<^verbatim>\<open>resource.lanes[lane]\<close>.\<close>

definition eng_store :: "conflictEngine \<Rightarrow> ConfID \<Rightarrow> resource \<Rightarrow> instanceLane \<rightharpoonup> keyLane" where
  "eng_store e conf r lane = Mapping.lookup (eng_lanes e conf r) lane"

text \<open>Reading an absent key of a map of pointers gives nil.\<close>

definition intervalsAt :: "conflictEngine \<Rightarrow> ConfID \<Rightarrow> intervalNode" where
  "intervalsAt e conf = (case eng_intervals e conf of None \<Rightarrow> INil | Some t \<Rightarrow> t)"

definition pointAt :: "conflictEngine \<Rightarrow> ConfID \<Rightarrow> bytes \<Rightarrow> resource option" where
  "pointAt e conf key = (case eng_points e conf of None \<Rightarrow> None | Some m \<Rightarrow> Mapping.lookup m key)"

definition ensureLane :: "conflictEngine \<Rightarrow> instanceLane \<Rightarrow> conflictEngine \<times> laneIndex" where
  "ensureLane e lane =
     (case eng_laneIndex e lane of
        Some index \<Rightarrow> (e, index)
      | None \<Rightarrow> (e\<lparr>eng_laneIndex := (eng_laneIndex e)(lane \<mapsto> zero_laneIndex)\<rparr>, zero_laneIndex))"

definition putLane :: "conflictEngine \<Rightarrow> instanceLane \<Rightarrow> laneIndex \<Rightarrow> conflictEngine" where
  "putLane e lane index = e\<lparr>eng_laneIndex := (eng_laneIndex e)(lane \<mapsto> index)\<rparr>"

text \<open>
  \<^verbatim>\<open>ensureResource\<close> returns a pointer to a key lane that its callers write through; the model
  returns the key lane, and \<open>putKeyLane\<close> is the write.
\<close>

definition putKeyLane :: "conflictEngine \<Rightarrow> ConfID \<Rightarrow> resource \<Rightarrow> instanceLane \<Rightarrow> keyLane \<Rightarrow> conflictEngine" where
  "putKeyLane e conf r lane entry =
     e\<lparr>eng_lanes := (eng_lanes e)(conf := (eng_lanes e conf)(r := Mapping.update lane entry (eng_lanes e conf r)))\<rparr>"

definition ensureEntry :: "conflictEngine \<Rightarrow> ConfID \<Rightarrow> bytes \<Rightarrow> bytes \<Rightarrow> bool \<Rightarrow> conflictEngine \<times> resource" where
  "ensureEntry e conf start fin point =
     (case findInterval (intervalsAt e conf) start point fin of
        Some resource \<Rightarrow> (e, resource)
      | None \<Rightarrow>
          (let resource = Resource start fin point;
               e = e\<lparr>eng_lanes := (eng_lanes e)(conf := (eng_lanes e conf)(resource := Mapping.empty)),
                     eng_intervals := (eng_intervals e)(conf \<mapsto> insertInterval (intervalsAt e conf) resource)\<rparr>
           in (if point
               then e\<lparr>eng_points := (eng_points e)(conf \<mapsto>
                      Mapping.update start resource (case eng_points e conf of None \<Rightarrow> Mapping.empty | Some m \<Rightarrow> m))\<rparr>
               else e, resource)))"

definition ensureResource :: "conflictEngine \<Rightarrow> ConfID \<Rightarrow> bytes \<Rightarrow> bytes \<Rightarrow> bool \<Rightarrow> instanceLane \<Rightarrow>
    conflictEngine \<times> resource \<times> keyLane" where
  "ensureResource e conf start fin point lane =
     (let (e, resource) = ensureEntry e conf start fin point in
      case eng_store e conf resource lane of
        Some entry \<Rightarrow> (e, resource, entry)
      | None \<Rightarrow>
          (let entry = \<lparr>kl_postings = None, kl_retiredFloor = 0\<rparr>
           in (putKeyLane e conf resource lane entry, resource, entry)))"

text \<open>The resources of a footprint, in the order in which the loops of the engine take them.\<close>

definition footprintResources :: "Footprint \<Rightarrow> (bytes \<times> bytes \<times> bool) list" where
  "footprintResources fp =
     map (\<lambda>p. (p, p, True)) (fp_Points fp) @ map (\<lambda>s. (span_Start s, span_End s, False)) (fp_Spans fp)"

definition insertPosting :: "ConfID \<Rightarrow> instanceLane \<Rightarrow> InstanceNum \<Rightarrow> bytes \<times> bytes \<times> bool \<Rightarrow> conflictEngine \<Rightarrow> conflictEngine" where
  "insertPosting conf lane inst res e =
     (let (start, fin, point) = res;
          (e, resource, entry) = ensureResource e conf start fin point lane
      in putKeyLane e conf resource lane (entry\<lparr>kl_postings := postingSet_insert (kl_postings entry) inst\<rparr>))"

definition resourceEntryEmpty :: "keyLanes \<Rightarrow> bool" where
  "resourceEntryEmpty lanes \<longleftrightarrow>
     (\<forall>lane \<in> Mapping.keys lanes.
        case Mapping.lookup lanes lane of
          None \<Rightarrow> True
        | Some entry \<Rightarrow> \<not> (kl_postings entry \<noteq> None \<or> kl_retiredFloor entry \<noteq> 0))"

definition dropPoint :: "(ConfID \<rightharpoonup> (bytes, resource) mapping) \<Rightarrow> ConfID \<Rightarrow> bytes \<Rightarrow> (ConfID \<rightharpoonup> (bytes, resource) mapping)" where
  "dropPoint points conf start =
     (case points conf of
        None \<Rightarrow> points
      | Some m \<Rightarrow> (let m' = Mapping.delete start m
                   in if Mapping.is_empty m' then points(conf := None) else points(conf \<mapsto> m')))"

definition dropResource :: "ConfID \<Rightarrow> resource \<Rightarrow> bytes \<Rightarrow> bool \<Rightarrow> conflictEngine \<Rightarrow> conflictEngine" where
  "dropResource conf resource start point e =
     (let t = deleteInterval (intervalsAt e conf) resource;
          e = e\<lparr>eng_intervals := (if t = INil then (eng_intervals e)(conf := None) else (eng_intervals e)(conf \<mapsto> t))\<rparr>
      in if point then e\<lparr>eng_points := dropPoint (eng_points e) conf start\<rparr> else e)"

definition removeResourcePosting :: "ConfID \<Rightarrow> instanceLane \<Rightarrow> InstanceNum \<Rightarrow> bytes \<times> bytes \<times> bool \<Rightarrow> conflictEngine \<Rightarrow> conflictEngine" where
  "removeResourcePosting conf lane inst res e =
     (let (start, fin, point) = res in
      case findInterval (intervalsAt e conf) start point fin of
        None \<Rightarrow> e
      | Some resource \<Rightarrow>
          (case eng_store e conf resource lane of
             None \<Rightarrow> e
           | Some entry \<Rightarrow>
               (let entry = entry\<lparr>kl_postings := fst (postingSet_remove (kl_postings entry) inst)\<rparr>;
                    lanes = Mapping.update lane entry (eng_lanes e conf resource);
                    lanes = (if kl_postings entry = None \<and> kl_retiredFloor entry = 0 then Mapping.delete lane lanes else lanes);
                    e = e\<lparr>eng_lanes := (eng_lanes e)(conf := (eng_lanes e conf)(resource := lanes))\<rparr>
                in if \<not> resourceEntryEmpty lanes then e else dropResource conf resource start point e)))"

definition engine_remove :: "conflictEngine \<Rightarrow> InstanceRef \<Rightarrow> InstanceRecord \<Rightarrow> conflictEngine" where
  "engine_remove e ref rec =
     (let lane = laneFor ref in
      case eng_laneIndex e lane of
        None \<Rightarrow> e
      | Some index \<Rightarrow>
          (let (t, removed) = laneTree_remove (li_resident index) (ref_Instance ref) in
           if \<not> removed then e
           else
             let e = putLane e lane (index\<lparr>li_resident := t\<rparr>);
                 e = e\<lparr>eng_resident := eng_resident e - 1\<rparr>
             in if \<not> recordConflictEligible rec \<or> recordHasGlobalConflictScope rec then e
                else fold (removeResourcePosting (ref_Conf ref) lane (ref_Instance ref))
                       (footprintResources (cmd_Footprint (r_Command rec))) e))"

definition engine_apply :: "conflictEngine \<Rightarrow> InstanceRecord option \<Rightarrow> InstanceRecord \<Rightarrow> conflictEngine" where
  "engine_apply e prev rec =
     (let e = (case prev of None \<Rightarrow> e | Some p \<Rightarrow> engine_remove e (r_Ref p) p);
          lane = laneFor (r_Ref rec);
          (e, index) = ensureLane e lane;
          existed = (laneTree_slot (li_resident index) (ref_Instance (r_Ref rec)) \<noteq> None);
          e = putLane e lane (index\<lparr>li_resident := laneTree_set (li_resident index) (ref_Instance (r_Ref rec)) (slotForRecord rec)\<rparr>);
          e = (if \<not> existed then e\<lparr>eng_resident := eng_resident e + 1\<rparr> else e)
      in if \<not> recordConflictEligible rec \<or> recordHasGlobalConflictScope rec then e
         else fold (insertPosting (ref_Conf (r_Ref rec)) lane (ref_Instance (r_Ref rec)))
                (footprintResources (cmd_Footprint (r_Command rec))) e)"

subsection \<open>Queries\<close>

definition engine_prefixMaxSeq :: "conflictEngine \<Rightarrow> instanceLane \<Rightarrow> InstanceNum \<Rightarrow> u64" where
  "engine_prefixMaxSeq e lane through =
     (case eng_laneIndex e lane of
        None \<Rightarrow> 0
      | Some index \<Rightarrow> max (laneTree_prefixMaxSeq (li_resident index) through) (retiredPrefixMaxSeq index through))"

definition engine_walkDesc :: "conflictEngine \<Rightarrow> instanceLane \<Rightarrow> InstanceNum \<Rightarrow>
    (InstanceNum \<times> laneSlot \<Rightarrow> 's \<Rightarrow> 's \<times> bool) \<Rightarrow> 's \<Rightarrow> 's" where
  "engine_walkDesc e lane from yield s =
     (case eng_laneIndex e lane of None \<Rightarrow> s | Some index \<Rightarrow> fst (laneTree_walkDesc (li_resident index) from yield s))"

definition keyMax :: "conflictEngine \<Rightarrow> ConfID \<Rightarrow> bytes \<Rightarrow> instanceLane \<Rightarrow> InstanceNum \<times> InstanceNum" where
  "keyMax e conf key lane =
     (case pointAt e conf key of
        None \<Rightarrow> (0, 0)
      | Some resource \<Rightarrow>
          (case eng_store e conf resource lane of
             None \<Rightarrow> (0, 0)
           | Some entry \<Rightarrow> (postingSet_max (kl_postings entry), kl_retiredFloor entry)))"

definition unique :: "(resource \<Rightarrow> 's \<Rightarrow> 's \<times> bool) \<Rightarrow> resource \<Rightarrow> resource list \<times> 's \<Rightarrow> (resource list \<times> 's) \<times> bool" where
  "unique yield r st =
     (let (seen, s) = st in
      if r \<in> set seen then (st, True) else let (s', go) = yield r s in ((r # seen, s'), go))"

definition eachFootprintResource :: "conflictEngine \<Rightarrow> ConfID \<Rightarrow> Footprint \<Rightarrow>
    (resource \<Rightarrow> 's \<Rightarrow> 's \<times> bool) \<Rightarrow> 's \<Rightarrow> 's" where
  "eachFootprintResource e conf fp yield s =
     (let (st, go) = yield_all (\<lambda>point st.
            let (st, go) = (case pointAt e conf point of None \<Rightarrow> (st, True) | Some r \<Rightarrow> unique yield r st)
            in if \<not> go then (st, False) else queryContainingSpans (intervalsAt e conf) point (unique yield) st)
          (fp_Points fp) ([], s)
      in if \<not> go then snd st
         else snd (fst (yield_all (\<lambda>span st.
                queryIntervalOverlap (intervalsAt e conf) (span_Start span) (span_End span) (unique yield) st)
              (fp_Spans fp) st)))"

definition footprintMax :: "conflictEngine \<Rightarrow> ConfID \<Rightarrow> Footprint \<Rightarrow> instanceLane \<Rightarrow> InstanceNum \<times> InstanceNum" where
  "footprintMax e conf fp lane =
     eachFootprintResource e conf fp (\<lambda>resource (resident, retired).
       case eng_store e conf resource lane of
         None \<Rightarrow> ((resident, retired), True)
       | Some entry \<Rightarrow> ((max resident (postingSet_max (kl_postings entry)), max retired (kl_retiredFloor entry)), True))
       (0, 0)"

text \<open>
  The slot of an instance in the lane's tree. The source reads the tree through the lane's index
  without a test for nil; the invariant below gives every posting a lane index.
\<close>

definition residentSlot :: "conflictEngine \<Rightarrow> instanceLane \<Rightarrow> InstanceNum \<Rightarrow> laneSlot option" where
  "residentSlot e lane inst =
     (case eng_laneIndex e lane of None \<Rightarrow> None | Some index \<Rightarrow> laneTree_slot (li_resident index) inst)"

definition walkFootprintDesc :: "conflictEngine \<Rightarrow> ConfID \<Rightarrow> Footprint \<Rightarrow> instanceLane \<Rightarrow> InstanceNum \<Rightarrow>
    (InstanceNum \<times> laneSlot \<Rightarrow> 's \<Rightarrow> 's \<times> bool) \<Rightarrow> 's \<Rightarrow> 's" where
  "walkFootprintDesc e conf fp lane from yield s =
     snd (eachFootprintResource e conf fp (\<lambda>resource st.
       case eng_store e conf resource lane of
         None \<Rightarrow> (st, True)
       | Some entry \<Rightarrow>
           (case kl_postings entry of
              None \<Rightarrow> (st, True)
            | Some (l, root) \<Rightarrow>
                (let limit = (if from = 0 then postingSet_max (kl_postings entry) else from);
                     (st, _) = walkPostingDesc l root 0 limit True (\<lambda>inst (seen, s).
                       if inst \<in> set seen then ((seen, s), True)
                       else case residentSlot e lane inst of
                           None \<Rightarrow> ((inst # seen, s), True)
                         | Some slot \<Rightarrow> let (s', go) = yield (inst, slot) s in ((inst # seen, s'), go)) st
                 in (st, True)))) ([] :: InstanceNum list, s))"

definition walkGlobalDesc :: "conflictEngine \<Rightarrow> instanceLane \<Rightarrow> InstanceNum \<Rightarrow>
    (InstanceNum \<times> laneSlot \<Rightarrow> 's \<Rightarrow> 's \<times> bool) \<Rightarrow> 's \<Rightarrow> 's" where
  "walkGlobalDesc e lane from yield s =
     (case eng_laneIndex e lane of
        None \<Rightarrow> s
      | Some index \<Rightarrow>
          (case li_resident index of
             None \<Rightarrow> s
           | Some (l, root) \<Rightarrow>
               if from = 0 then s else fst (walkGlobalRadixDesc l root 0 from (radixLevel from \<le> l) yield s)))"

text \<open>Ranges over maps: \<open>order\<close> lists the keys in the order of the range.\<close>

definition lanes :: "conflictEngine \<Rightarrow> instanceLane list \<Rightarrow> ConfID \<Rightarrow> (instanceLane \<Rightarrow> 's \<Rightarrow> 's \<times> bool) \<Rightarrow> 's \<Rightarrow> 's" where
  "lanes e order conf yield s = fst (yield_all (\<lambda>lane s. if lane_conf lane = conf then yield lane s else (s, True)) order s)"

definition footprintLaneSet :: "conflictEngine \<Rightarrow> instanceLane list \<Rightarrow> (resource \<Rightarrow> instanceLane list) \<Rightarrow> ConfID \<Rightarrow> Footprint \<Rightarrow>
    (instanceLane \<Rightarrow> 's \<Rightarrow> 's \<times> bool) \<Rightarrow> 's \<Rightarrow> 's" where
  "footprintLaneSet e order resourceOrder conf fp yield s =
     (if fp_All fp then lanes e order conf yield s
      else snd (eachFootprintResource e conf fp (\<lambda>resource st.
        yield_all (\<lambda>lane (seen, s).
            if lane \<in> set seen then ((seen, s), True)
            else let (s', go) = yield lane s in ((lane # seen, s'), go))
          (resourceOrder resource) st) ([] :: instanceLane list, s)))"

definition maxEligibleAny :: "conflictEngine \<Rightarrow> instanceLane \<Rightarrow> InstanceNum \<times> InstanceNum" where
  "maxEligibleAny e lane =
     (case eng_laneIndex e lane of
        None \<Rightarrow> (0, 0)
      | Some index \<Rightarrow>
          (case li_resident index of None \<Rightarrow> 0 | Some (l, root) \<Rightarrow> node_maxEligibleAny (radix_agg root), li_retiredEligibleAny index))"

definition engine_globalMax :: "conflictEngine \<Rightarrow> instanceLane \<Rightarrow> InstanceNum \<times> InstanceNum" where
  "engine_globalMax e lane =
     (case eng_laneIndex e lane of
        None \<Rightarrow> (0, 0)
      | Some index \<Rightarrow>
          (case li_resident index of None \<Rightarrow> 0 | Some (l, root) \<Rightarrow> node_globalMax (radix_agg root), li_retiredGlobal index))"

subsection \<open>Retirement\<close>

definition raiseFloor :: "ConfID \<Rightarrow> instanceLane \<Rightarrow> InstanceNum \<Rightarrow> bytes \<times> bytes \<times> bool \<Rightarrow> conflictEngine \<Rightarrow> conflictEngine" where
  "raiseFloor conf lane inst res e =
     (let (start, fin, point) = res;
          (e, resource, entry) = ensureResource e conf start fin point lane
      in putKeyLane e conf resource lane (entry\<lparr>kl_retiredFloor := max (kl_retiredFloor entry) inst\<rparr>))"

definition laneIndexAt :: "conflictEngine \<Rightarrow> instanceLane \<Rightarrow> laneIndex" where
  "laneIndexAt e lane = (case eng_laneIndex e lane of None \<Rightarrow> zero_laneIndex | Some index \<Rightarrow> index)"

definition foldRecord :: "conflictEngine \<Rightarrow> InstanceRecord \<Rightarrow> conflictEngine" where
  "foldRecord e rec =
     (let lane = laneFor (r_Ref rec);
          inst = ref_Instance (r_Ref rec);
          (e, _) = ensureLane e lane;
          e = engine_remove e (r_Ref rec) rec;
          index = laneIndexAt e lane
      in if inst \<le> li_folded index then e
         else
           let index = index\<lparr>li_pendingFold := postingSet_insert (li_pendingFold index) inst\<rparr>
           in if \<not> recordConflictEligible rec then putLane e lane index
              else
                let index = index\<lparr>li_retiredEligibleAny := max (li_retiredEligibleAny index) inst\<rparr>;
                    (e, index) =
                      (if recordHasGlobalConflictScope rec
                       then (e, index\<lparr>li_retiredGlobal := max (li_retiredGlobal index) inst\<rparr>)
                       else (fold (raiseFloor (ref_Conf (r_Ref rec)) lane inst)
                               (footprintResources (cmd_Footprint (r_Command rec))) e, index))
                in putLane e lane (addRetiredSeq index inst (r_Seq rec)))"

definition canAdvanceFold :: "conflictEngine \<Rightarrow> instanceLane \<Rightarrow> InstanceNum \<Rightarrow> bool" where
  "canAdvanceFold e lane through =
     (case eng_laneIndex e lane of
        None \<Rightarrow> through = 0
      | Some index \<Rightarrow>
          if through \<le> li_folded index then through = 0 \<or> through = li_folded index
          else allPending (li_pendingFold index) (li_folded index + 1) through)"

definition advanceFold :: "conflictEngine \<Rightarrow> instanceLane \<Rightarrow> InstanceNum \<Rightarrow> conflictEngine option" where
  "advanceFold e lane through =
     (let (e, index) = ensureLane e lane in
      if through < li_folded index then None
      else if through = li_folded index then Some e
      else if \<not> allPending (li_pendingFold index) (li_folded index + 1) through then None
      else case removePending (li_pendingFold index) (li_folded index + 1) through of
          None \<Rightarrow> None
        | Some s \<Rightarrow> Some (putLane e lane (index\<lparr>li_pendingFold := s, li_folded := through\<rparr>)))"

definition foldedThrough :: "conflictEngine \<Rightarrow> instanceLane \<Rightarrow> InstanceNum" where
  "foldedThrough e lane = (case eng_laneIndex e lane of None \<Rightarrow> 0 | Some index \<Rightarrow> li_folded index)"

definition residentCount :: "conflictEngine \<Rightarrow> int" where
  "residentCount e = eng_resident e"

subsection \<open>The self check\<close>

datatype engineError =
    LaneError instanceLane verifyError
  | PendingFoldError instanceLane verifyError
  | BreakpointCapExceeded instanceLane
  | BreakpointsNotIncreasing instanceLane
  | ResidentCount int int
  | LaneConfigurationMismatch resource
  | PostingError resource instanceLane verifyError
  | PostingLacksSlot resource instanceLane

definition verifyLane :: "instanceLane \<Rightarrow> laneIndex \<Rightarrow> engineError option" where
  "verifyLane lane index =
     (case verifyTree lane_ops (li_resident index) of
        Some err \<Rightarrow> Some (LaneError lane err)
      | None \<Rightarrow>
          (case verifyTree posting_ops (li_pendingFold index) of
             Some err \<Rightarrow> Some (PendingFoldError lane err)
           | None \<Rightarrow>
               if length (li_retiredSeq index) > retiredSeqBreakpointCap then Some (BreakpointCapExceeded lane)
               else if list_ex (\<lambda>idx. bp_through (li_retiredSeq index ! (idx - 1)) \<ge> bp_through (li_retiredSeq index ! idx) \<or>
                        bp_maxSeq (li_retiredSeq index ! (idx - 1)) \<ge> bp_maxSeq (li_retiredSeq index ! idx))
                      [1..<length (li_retiredSeq index)]
               then Some (BreakpointsNotIncreasing lane)
               else None))"

definition verifyPostings :: "conflictEngine \<Rightarrow> ConfID \<Rightarrow> resource \<Rightarrow> instanceLane \<Rightarrow> engineError option" where
  "verifyPostings e conf x lane =
     (case eng_store e conf x lane of
        None \<Rightarrow> None
      | Some entry \<Rightarrow>
          if lane_conf lane \<noteq> conf then Some (LaneConfigurationMismatch x)
          else case verifyTree posting_ops (kl_postings entry) of
              Some err \<Rightarrow> Some (PostingError x lane err)
            | None \<Rightarrow>
                (let valid = (case kl_postings entry of
                    None \<Rightarrow> True
                  | Some (l, root) \<Rightarrow> fst (walkPostingDesc l root 0 (NOT 0) False (\<lambda>inst valid.
                      case residentSlot e lane inst of
                        None \<Rightarrow> (False, False)
                      | Some slot \<Rightarrow> if \<not> eligible slot \<or> global slot then (False, False) else (valid, True)) True))
                 in if \<not> valid then Some (PostingLacksSlot x lane) else None))"

fun verifyResource :: "conflictEngine \<Rightarrow> (resource \<Rightarrow> instanceLane list) \<Rightarrow> ConfID \<Rightarrow> intervalNode \<Rightarrow> engineError option" where
  "verifyResource e order conf INil = None"
| "verifyResource e order conf (INode l x r h m i) =
     (case verifyResource e order conf l of
        Some err \<Rightarrow> Some err
      | None \<Rightarrow>
          (case first_Some (verifyPostings e conf x) (order x) of
             Some err \<Rightarrow> Some err
           | None \<Rightarrow> verifyResource e order conf r))"

text \<open>\<open>laneOrder\<close>, \<open>confOrder\<close> and \<open>order\<close> are the orders of the ranges over the three maps.\<close>

definition verify :: "conflictEngine \<Rightarrow> instanceLane list \<Rightarrow> ConfID list \<Rightarrow> (ConfID \<Rightarrow> resource \<Rightarrow> instanceLane list) \<Rightarrow>
    engineError option" where
  "verify e laneOrder confOrder order =
     (case first_Some (\<lambda>lane. verifyLane lane (laneIndexAt e lane)) laneOrder of
        Some err \<Rightarrow> Some err
      | None \<Rightarrow>
          (let resident = sum_list (map (\<lambda>lane. case li_resident (laneIndexAt e lane) of
                 None \<Rightarrow> 0 | Some (l, root) \<Rightarrow> int (node_count (radix_agg root))) laneOrder)
           in if resident \<noteq> eng_resident e then Some (ResidentCount resident (eng_resident e))
              else first_Some (\<lambda>conf. verifyResource e (order conf) conf (intervalsAt e conf)) confOrder))"

section \<open>The resources\<close>

text \<open>
  The invariant of the resource part: each configuration has a well-formed index, which holds
  exactly the resources with a stored lane; a stored lane belongs to the configuration and has
  postings or a floor; and the map of points agrees with the index.
\<close>

abbreviation indexed :: "conflictEngine \<Rightarrow> ConfID \<Rightarrow> resource set" where
  "indexed e conf \<equiv> set (inorder (intervalsAt e conf))"

definition entry_wf :: "keyLane \<Rightarrow> bool" where
  "entry_wf entry \<longleftrightarrow> posting_wf (kl_postings entry) \<and> (kl_postings entry \<noteq> None \<or> kl_retiredFloor entry \<noteq> 0)"

definition res_inv :: "conflictEngine \<Rightarrow> bool" where
  "res_inv e \<longleftrightarrow>
     (\<forall>conf. index_inv (intervalsAt e conf)) \<and>
     (\<forall>conf x. x \<in> indexed e conf \<longleftrightarrow> eng_store e conf x \<noteq> Map.empty) \<and>
     (\<forall>conf x lane entry. eng_store e conf x lane = Some entry \<longrightarrow> lane_conf lane = conf \<and> entry_wf entry) \<and>
     (\<forall>conf key. pointAt e conf key =
        (if Resource key key True \<in> indexed e conf then Some (Resource key key True) else None))"

lemma res_invD:
  assumes "res_inv e"
  shows "index_inv (intervalsAt e conf)" "x \<in> indexed e conf \<longleftrightarrow> eng_store e conf x \<noteq> Map.empty"
    and "eng_store e conf x lane = Some entry \<Longrightarrow> lane_conf lane = conf \<and> entry_wf entry"
    and "pointAt e conf key = (if Resource key key True \<in> indexed e conf then Some (Resource key key True) else None)"
  using assms by (simp_all add: res_inv_def)

lemma store_updates [simp]:
  "eng_store (e\<lparr>eng_lanes := (eng_lanes e)(conf := (eng_lanes e conf)(r := m))\<rparr>) =
     (eng_store e)(conf := (eng_store e conf)(r := Mapping.lookup m))"
  "eng_store (e\<lparr>eng_laneIndex := li\<rparr>) = eng_store e" "eng_store (e\<lparr>eng_points := pts\<rparr>) = eng_store e"
  "eng_store (e\<lparr>eng_intervals := iv\<rparr>) = eng_store e" "eng_store (e\<lparr>eng_resident := n\<rparr>) = eng_store e"
  "eng_store (putLane e lane index) = eng_store e"
  "eng_store (putKeyLane e conf r lane entry) = (eng_store e)(conf := (eng_store e conf)(r := (eng_store e conf r)(lane \<mapsto> entry)))"
  by (simp_all add: fun_eq_iff eng_store_def putLane_def putKeyLane_def lookup_update')

lemma view_updates [simp]:
  "intervalsAt (e\<lparr>eng_lanes := st\<rparr>) = intervalsAt e" "intervalsAt (e\<lparr>eng_laneIndex := li\<rparr>) = intervalsAt e"
  "intervalsAt (e\<lparr>eng_points := pts\<rparr>) = intervalsAt e" "intervalsAt (e\<lparr>eng_resident := n\<rparr>) = intervalsAt e"
  "intervalsAt (putKeyLane e conf r lane entry) = intervalsAt e" "intervalsAt (putLane e lane index) = intervalsAt e"
  "pointAt (e\<lparr>eng_lanes := st\<rparr>) = pointAt e" "pointAt (e\<lparr>eng_laneIndex := li\<rparr>) = pointAt e"
  "pointAt (e\<lparr>eng_intervals := iv\<rparr>) = pointAt e" "pointAt (e\<lparr>eng_resident := n\<rparr>) = pointAt e"
  "pointAt (putKeyLane e conf r lane entry) = pointAt e" "pointAt (putLane e lane index) = pointAt e"
  by (simp_all add: fun_eq_iff intervalsAt_def pointAt_def putKeyLane_def putLane_def)

lemma lookup_delete_if: "Mapping.lookup (Mapping.delete k m) k' = (if k' = k then None else Mapping.lookup m k')"
  by simp

lemma lookup_is_empty: "Mapping.is_empty (Mapping.delete k m) \<Longrightarrow> k' \<noteq> k \<Longrightarrow> Mapping.lookup m k' = None"
  by (auto simp: Mapping.is_empty_def keys_dom_lookup fun_eq_iff lookup_delete_if dest: spec [where x = k'])

lemma lanes_lookup [simp]: "Mapping.lookup (eng_lanes e conf r) = eng_store e conf r"
  by (simp add: fun_eq_iff eng_store_def)

lemma view_put:
  "eng_intervals e' = (eng_intervals e)(conf \<mapsto> t) \<Longrightarrow> intervalsAt e' = (intervalsAt e)(conf := t)"
  "eng_intervals e' = (eng_intervals e)(conf := None) \<Longrightarrow> intervalsAt e' = (intervalsAt e)(conf := INil)"
  "eng_points e' = (eng_points e)(conf \<mapsto> Mapping.update k r (case eng_points e conf of None \<Rightarrow> Mapping.empty | Some m \<Rightarrow> m)) \<Longrightarrow>
     pointAt e' = (pointAt e)(conf := (pointAt e conf)(k \<mapsto> r))"
  "eng_points e' = dropPoint (eng_points e) conf k \<Longrightarrow> pointAt e' = (pointAt e)(conf := (pointAt e conf)(k := None))"
  by (auto simp: fun_eq_iff intervalsAt_def pointAt_def dropPoint_def Let_def lookup_update' lookup_delete_if lookup_is_empty
      split: option.splits if_splits)

lemma find_indexed:
  "res_inv e \<Longrightarrow> findInterval (intervalsAt e conf) start point fin =
     (if Resource start fin point \<in> indexed e conf then Some (Resource start fin point) else None)"
  using res_invD(1) [of e conf] by (simp add: index_inv_def findInterval_spec)

lemma res_inv_store_cong:
  "res_inv e \<Longrightarrow> eng_store e' = eng_store e \<Longrightarrow> intervalsAt e' = intervalsAt e \<Longrightarrow> pointAt e' = pointAt e \<Longrightarrow> res_inv e'"
  by (simp add: res_inv_def)

text \<open>
  \<open>ensureEntry\<close> keeps everything except that the resource may now be indexed without a lane, which
  the write that follows repairs.
\<close>

lemma ensureEntry_laws:
  assumes "res_inv e" "res_wf (Resource start fin point)"
  defines "x \<equiv> Resource start fin point"
  shows "snd (ensureEntry e conf start fin point) = x"
    "eng_store (fst (ensureEntry e conf start fin point)) = eng_store e"
    "eng_laneIndex (fst (ensureEntry e conf start fin point)) = eng_laneIndex e"
    "eng_resident (fst (ensureEntry e conf start fin point)) = eng_resident e"
    "index_inv (intervalsAt (fst (ensureEntry e conf start fin point)) c)"
    "indexed (fst (ensureEntry e conf start fin point)) c = (if c = conf then insert x (indexed e c) else indexed e c)"
    "pointAt (fst (ensureEntry e conf start fin point)) c key =
       (if Resource key key True \<in> indexed (fst (ensureEntry e conf start fin point)) c
        then Some (Resource key key True) else None)"
proof -
  note find = find_indexed [OF assms(1), of conf start point fin, folded x_def]
  let ?e = "fst (ensureEntry e conf start fin point)"
  show "snd (ensureEntry e conf start fin point) = x" "eng_laneIndex ?e = eng_laneIndex e" "eng_resident ?e = eng_resident e"
    by (auto simp: ensureEntry_def find Let_def x_def)
  show "eng_store ?e = eng_store e"
    using res_invD(2) [OF assms(1), of x conf] by (auto simp: ensureEntry_def find Let_def fun_eq_iff simp flip: x_def)
  have "intervalsAt ?e = (if x \<in> indexed e conf then intervalsAt e else (intervalsAt e)(conf := insertInterval (intervalsAt e conf) x))"
    by (auto simp: ensureEntry_def find Let_def simp flip: x_def intro!: view_put(1))
  then have iv: "intervalsAt ?e c = (if c = conf \<and> x \<notin> indexed e conf then insertInterval (intervalsAt e conf) x else intervalsAt e c)" for c
    by simp
  note inv = res_invD(1) [OF assms(1)]
  have ins: "index_inv (insertInterval (intervalsAt e conf) x) \<and> inorder (insertInterval (intervalsAt e conf) x) = insort x (inorder (intervalsAt e conf))"
    if "x \<notin> indexed e conf"
    using that inv [of conf] assms(2) by (simp add: index_inv_insert x_def inorder_insert index_inv_def [of "intervalsAt e conf"])
  show "index_inv (intervalsAt ?e c)" using inv ins by (simp add: iv)
  show ind: "indexed ?e c = (if c = conf then insert x (indexed e c) else indexed e c)" for c
    using ins by (auto simp: iv set_insort_key)
  have "pointAt ?e = (if x \<notin> indexed e conf \<and> point then (pointAt e)(conf := (pointAt e conf)(start \<mapsto> x)) else pointAt e)"
    by (auto simp: ensureEntry_def find Let_def simp flip: x_def intro!: view_put(3)) (simp add: x_def)
  then show "pointAt ?e c key = (if Resource key key True \<in> indexed ?e c then Some (Resource key key True) else None)"
    using assms(2) res_invD(4) [OF assms(1), of c key] by (auto simp: ind res_wf_def x_def)
qed

text \<open>\<open>entryOr\<close> is the key lane that \<^verbatim>\<open>ensureResource\<close> finds or makes.\<close>

definition entryOr :: "conflictEngine \<Rightarrow> ConfID \<Rightarrow> resource \<Rightarrow> instanceLane \<Rightarrow> keyLane" where
  "entryOr e conf x lane =
     (case eng_store e conf x lane of None \<Rightarrow> \<lparr>kl_postings = None, kl_retiredFloor = 0\<rparr> | Some entry \<Rightarrow> entry)"

definition writeEntry :: "ConfID \<Rightarrow> instanceLane \<Rightarrow> (keyLane \<Rightarrow> keyLane) \<Rightarrow> bytes \<times> bytes \<times> bool \<Rightarrow> conflictEngine \<Rightarrow> conflictEngine" where
  "writeEntry conf lane f res e =
     (let (start, fin, point) = res;
          (e, resource, entry) = ensureResource e conf start fin point lane
      in putKeyLane e conf resource lane (f entry))"

lemma writeEntry_uses:
  "insertPosting conf lane inst = writeEntry conf lane (\<lambda>entry. entry\<lparr>kl_postings := postingSet_insert (kl_postings entry) inst\<rparr>)"
  "raiseFloor conf lane inst = writeEntry conf lane (\<lambda>entry. entry\<lparr>kl_retiredFloor := max (kl_retiredFloor entry) inst\<rparr>)"
  by (simp_all add: fun_eq_iff insertPosting_def raiseFloor_def writeEntry_def)

definition key_of :: "bytes \<times> bytes \<times> bool \<Rightarrow> resource" where
  "key_of res = (case res of (start, fin, point) \<Rightarrow> Resource start fin point)"

lemma writeEntry_laws:
  assumes "res_inv e" "res_wf (key_of res)" "lane_conf lane = conf" "entry_wf (f (entryOr e conf (key_of res) lane))"
  shows "eng_store (writeEntry conf lane f res e) c x l =
      (if c = conf \<and> x = key_of res \<and> l = lane then Some (f (entryOr e conf x l)) else eng_store e c x l)"
    "eng_laneIndex (writeEntry conf lane f res e) = eng_laneIndex e"
    "eng_resident (writeEntry conf lane f res e) = eng_resident e"
    "res_inv (writeEntry conf lane f res e)"
proof -
  obtain start fin point where res: "res = (start, fin, point)" by (cases res)
  let ?x = "Resource start fin point"
  have k: "key_of res = ?x" by (simp add: key_of_def res)
  define e1 where "e1 = fst (ensureEntry e conf start fin point)"
  note en = ensureEntry_laws [OF assms(1) assms(2) [unfolded k], of conf, folded e1_def]
  have pair: "ensureEntry e conf start fin point = (e1, ?x)" using en(1) by (simp add: e1_def prod_eq_iff)
  let ?e' = "writeEntry conf lane f res e"
  have w: "?e' = putKeyLane (fst (ensureResource e conf start fin point lane)) conf ?x lane (f (entryOr e conf ?x lane))"
    by (auto simp: writeEntry_def res ensureResource_def pair entryOr_def en(2) Let_def split: option.split)
  have st: "eng_store ?e' = (eng_store e)(conf := (eng_store e conf)(?x := (eng_store e conf ?x)(lane \<mapsto> f (entryOr e conf ?x lane))))"
    by (auto simp: w ensureResource_def pair en(2) Let_def fun_eq_iff split: option.split)
  then show store: "eng_store ?e' c x l = (if c = conf \<and> x = key_of res \<and> l = lane then Some (f (entryOr e conf x l)) else eng_store e c x l)" for c x l
    by (simp add: k)
  show "eng_laneIndex ?e' = eng_laneIndex e" "eng_resident ?e' = eng_resident e"
    by (auto simp: w putKeyLane_def ensureResource_def pair en(3,4) Let_def split: option.split)
  have view: "intervalsAt ?e' = intervalsAt e1" "pointAt ?e' = pointAt e1"
    by (auto simp: w ensureResource_def pair Let_def split: option.split)
  show "res_inv ?e'"
    unfolding res_inv_def
  proof (intro conjI allI impI)
    show "x \<in> indexed ?e' c \<longleftrightarrow> eng_store ?e' c x \<noteq> Map.empty" for c x
      using en(6) [of c] res_invD(2) [OF assms(1), of x c] by (auto simp: view st)
    show "lane_conf l = c" "entry_wf entry" if "eng_store ?e' c x l = Some entry" for c x l entry
      using that assms(3,4) res_invD(3) [OF assms(1), of c x l entry] by (auto simp: store k split: if_splits)
  qed (simp_all only: view en(5,7))
qed

text \<open>What the removal of a posting leaves of a key lane.\<close>

definition unpost :: "InstanceNum \<Rightarrow> keyLane \<Rightarrow> keyLane option" where
  "unpost inst entry =
     (let entry = entry\<lparr>kl_postings := fst (postingSet_remove (kl_postings entry) inst)\<rparr>
      in if kl_postings entry = None \<and> kl_retiredFloor entry = 0 then None else Some entry)"

lemma unpost_wf: "entry_wf entry \<Longrightarrow> unpost inst entry = Some entry' \<Longrightarrow> entry_wf entry'"
  using posting_remove_laws(1) [of "kl_postings entry" inst]
  by (auto simp: unpost_def entry_wf_def Let_def simp del: tree_wf_simps split: if_splits)

lemma empty_lanes:
  assumes "\<And>lane entry. Mapping.lookup m lane = Some entry \<Longrightarrow> entry_wf entry"
  shows "resourceEntryEmpty m \<longleftrightarrow> Mapping.lookup m = Map.empty"
proof
  assume "resourceEntryEmpty m"
  then have "Mapping.lookup m lane \<noteq> Some entry" for lane entry
    using assms [of lane entry] by (auto simp: resourceEntryEmpty_def keys_dom_lookup entry_wf_def dest!: bspec [where x = lane])
  then show "Mapping.lookup m = Map.empty" by (auto simp: fun_eq_iff) (metis option.exhaust)
qed (simp add: resourceEntryEmpty_def keys_dom_lookup)

lemma dropResource_views:
  "eng_store (dropResource conf r start point e) = eng_store e"
  "eng_laneIndex (dropResource conf r start point e) = eng_laneIndex e"
  "eng_resident (dropResource conf r start point e) = eng_resident e"
  "intervalsAt (dropResource conf r start point e) = (intervalsAt e)(conf := deleteInterval (intervalsAt e conf) r)"
  "pointAt (dropResource conf r start point e) =
     (if point then (pointAt e)(conf := (pointAt e conf)(start := None)) else pointAt e)"
proof -
  let ?t = "deleteInterval (intervalsAt e conf) r"
  have iv: "intervalsAt (e\<lparr>eng_intervals := (if ?t = INil then (eng_intervals e)(conf := None) else (eng_intervals e)(conf \<mapsto> ?t))\<rparr>) =
      (intervalsAt e)(conf := ?t)"
    by (cases "?t = INil") (auto intro!: view_put(1) view_put(2) simp del: fun_upd_apply)
  show "intervalsAt (dropResource conf r start point e) = (intervalsAt e)(conf := ?t)"
    using iv by (simp add: dropResource_def Let_def)
  show "pointAt (dropResource conf r start point e) = (if point then (pointAt e)(conf := (pointAt e conf)(start := None)) else pointAt e)"
    by (auto simp: dropResource_def Let_def intro!: view_put(4))
qed (simp_all add: dropResource_def Let_def)

lemma removeResourcePosting_eq:
  assumes "res_inv e" "eng_store e conf (Resource start fin point) lane = Some entry"
  defines "k \<equiv> Resource start fin point"
  obtains lanes where "Mapping.lookup lanes = (eng_store e conf k)(lane := unpost inst entry)"
    "removeResourcePosting conf lane inst (start, fin, point) e =
      (let e1 = e\<lparr>eng_lanes := (eng_lanes e)(conf := (eng_lanes e conf)(k := lanes))\<rparr>
       in if Mapping.lookup lanes \<noteq> Map.empty then e1 else dropResource conf k start point e1)"
proof -
  note st = assms(2) [folded k_def]
  have "k \<in> indexed e conf" using res_invD(2) [OF assms(1), of k conf] st by auto
  then have find: "findInterval (intervalsAt e conf) start point fin = Some k"
    using find_indexed [OF assms(1)] by (simp add: k_def)
  let ?y = "entry\<lparr>kl_postings := fst (postingSet_remove (kl_postings entry) inst)\<rparr>"
  define m where "m = (let lanes = Mapping.update lane ?y (eng_lanes e conf k)
    in if kl_postings ?y = None \<and> kl_retiredFloor ?y = 0 then Mapping.delete lane lanes else lanes)"
  have m: "Mapping.lookup m = (eng_store e conf k)(lane := unpost inst entry)"
    by (simp add: m_def unpost_def Let_def fun_eq_iff lookup_update' lookup_delete_if)
  have "entry_wf en" if "Mapping.lookup m l = Some en" for l en
    using that res_invD(3) [OF assms(1), of conf k l en] res_invD(3) [OF assms(1) st] unpost_wf [of entry inst en]
    by (auto simp: m split: if_splits)
  then have empty: "resourceEntryEmpty m \<longleftrightarrow> Mapping.lookup m = Map.empty" by (rule empty_lanes)
  have "removeResourcePosting conf lane inst (start, fin, point) e =
      (let e1 = e\<lparr>eng_lanes := (eng_lanes e)(conf := (eng_lanes e conf)(k := m))\<rparr>
       in if Mapping.lookup m \<noteq> Map.empty then e1 else dropResource conf k start point e1)"
    unfolding removeResourcePosting_def Let_def prod.case find option.case st m_def [unfolded Let_def, symmetric] empty by simp
  with m show thesis by (rule that)
qed

lemma removeResourcePosting_absent:
  assumes "res_inv e" "eng_store e conf (Resource start fin point) lane = None"
  shows "removeResourcePosting conf lane inst (start, fin, point) e = e"
  using assms(2) by (simp add: removeResourcePosting_def find_indexed [OF assms(1)])

lemma removed_lane_inv:
  fixes e :: conflictEngine and inst :: InstanceNum
  assumes inv: "res_inv e" and wf: "res_wf (Resource start fin point)" and st: "eng_store e conf (Resource start fin point) lane = Some entry"
    and m_def: "m = (eng_store e conf (Resource start fin point))(lane := unpost inst entry)" and lookup: "Mapping.lookup ls = m"
  defines "e1 \<equiv> e\<lparr>eng_lanes := (eng_lanes e)(conf := (eng_lanes e conf)(Resource start fin point := ls))\<rparr>"
  shows "res_inv (if m \<noteq> Map.empty then e1 else dropResource conf (Resource start fin point) start point e1)"
proof -
  let ?k = "Resource start fin point"
  let ?e' = "if m \<noteq> Map.empty then e1 else dropResource conf ?k start point e1"
  note old = res_invD [OF inv]
  have k: "?k \<in> indexed e conf" using old(2) [of ?k conf] st by auto
  have iv: "intervalsAt ?e' = (if m \<noteq> Map.empty then intervalsAt e else (intervalsAt e)(conf := deleteInterval (intervalsAt e conf) ?k))"
    by (simp add: e1_def dropResource_views)
  have sto: "eng_store ?e' = (eng_store e)(conf := (eng_store e conf)(?k := m))" by (simp add: e1_def dropResource_views lookup)
  have ind: "indexed ?e' c = (if c = conf \<and> m = Map.empty then indexed e c - {?k} else indexed e c)" for c
    using avl_index.del_set [OF old(1)] by (simp add: iv)
  have pt: "pointAt ?e' c key = (if c = conf \<and> m = Map.empty \<and> point \<and> key = start then None else pointAt e c key)" for c key
    by (simp add: e1_def dropResource_views)
  show ?thesis
    unfolding res_inv_def
  proof (intro conjI allI impI)
    show "index_inv (intervalsAt ?e' c)" for c using old(1) index_inv_delete by (simp add: iv)
    show "x \<in> indexed ?e' c \<longleftrightarrow> eng_store ?e' c x \<noteq> Map.empty" for c x
      unfolding ind sto using old(2) [of x c] k by auto
    show "lane_conf l = c" "entry_wf en" if "eng_store ?e' c x l = Some en" for c x l en
      using that [unfolded sto, unfolded m_def] old(3) [of c x l en] old(3) [OF st] unpost_wf [of entry inst en]
      by (auto split: if_splits)
    show "pointAt ?e' c key = (if Resource key key True \<in> indexed ?e' c then Some (Resource key key True) else None)" for c key
      unfolding ind pt using old(4) [of c key] wf by (auto simp: res_wf_def)
  qed
qed

lemma removeResourcePosting_laws:
  assumes "res_inv e" "res_wf (key_of res)"
  shows "eng_store (removeResourcePosting conf lane inst res e) c x l =
      (if c = conf \<and> x = key_of res \<and> l = lane then Option.bind (eng_store e c x l) (unpost inst) else eng_store e c x l)"
    "eng_laneIndex (removeResourcePosting conf lane inst res e) = eng_laneIndex e"
    "eng_resident (removeResourcePosting conf lane inst res e) = eng_resident e"
    "res_inv (removeResourcePosting conf lane inst res e)"
proof -
  obtain start fin point where res: "res = (start, fin, point)" by (cases res)
  define k where "k = Resource start fin point"
  have key: "key_of res = k" by (simp add: k_def key_of_def res)
  let ?e' = "removeResourcePosting conf lane inst res e"
  have "(\<forall>c x l. eng_store ?e' c x l =
      (if c = conf \<and> x = k \<and> l = lane then Option.bind (eng_store e c x l) (unpost inst) else eng_store e c x l)) \<and>
      eng_laneIndex ?e' = eng_laneIndex e \<and> eng_resident ?e' = eng_resident e \<and> res_inv ?e'"
  proof (cases "eng_store e conf k lane")
    case None
    then have "?e' = e" using removeResourcePosting_absent [OF assms(1)] by (simp add: res k_def)
    then show ?thesis using None assms(1) by simp
  next
    case (Some entry)
    obtain lanes where m: "Mapping.lookup lanes = (eng_store e conf k)(lane := unpost inst entry)"
      and eq: "?e' = (let e1 = e\<lparr>eng_lanes := (eng_lanes e)(conf := (eng_lanes e conf)(k := lanes))\<rparr>
        in if Mapping.lookup lanes \<noteq> Map.empty then e1 else dropResource conf k start point e1)"
      using removeResourcePosting_eq [OF assms(1) Some [unfolded k_def], of inst] unfolding res k_def [symmetric] .
    define e1 where "e1 = e\<lparr>eng_lanes := (eng_lanes e)(conf := (eng_lanes e conf)(k := lanes))\<rparr>"
    have e': "?e' = (if Mapping.lookup lanes \<noteq> Map.empty then e1 else dropResource conf k start point e1)"
      using eq by (simp only: Let_def e1_def)
    have st: "eng_store ?e' = (eng_store e)(conf := (eng_store e conf)(k := Mapping.lookup lanes))"
      by (simp add: e' e1_def dropResource_views)
    then have "eng_store ?e' c x l =
        (if c = conf \<and> x = k \<and> l = lane then Option.bind (eng_store e c x l) (unpost inst) else eng_store e c x l)" for c x l
      using Some by (simp add: m)
    moreover have "eng_laneIndex ?e' = eng_laneIndex e" "eng_resident ?e' = eng_resident e"
      by (simp_all add: e' e1_def dropResource_views)
    moreover have "res_inv ?e'"
      unfolding e' e1_def k_def by (rule removed_lane_inv [OF assms(1) _ Some [unfolded k_def] m [unfolded k_def] refl]) (use assms(2) key k_def in simp)
    ultimately show ?thesis by blast
  qed
  then show "eng_store ?e' c x l = (if c = conf \<and> x = key_of res \<and> l = lane then Option.bind (eng_store e c x l) (unpost inst) else eng_store e c x l)"
    "eng_laneIndex ?e' = eng_laneIndex e" "eng_resident ?e' = eng_resident e" "res_inv ?e'"
    unfolding key by blast+
qed

section \<open>Steps on the resources of a footprint\<close>

text \<open>What a resource and a lane hold: the posted instances and the floor of the retired ones.\<close>

definition view :: "conflictEngine \<Rightarrow> ConfID \<Rightarrow> resource \<Rightarrow> instanceLane \<Rightarrow> InstanceNum set \<times> InstanceNum" where
  "view e conf x lane =
     (case eng_store e conf x lane of None \<Rightarrow> ({}, 0) | Some entry \<Rightarrow> (members (kl_postings entry), kl_retiredFloor entry))"

abbreviation fp_resources :: "Footprint \<Rightarrow> resource set" where
  "fp_resources fp \<equiv> key_of ` set (footprintResources fp)"

abbreviation fp_wf :: "Footprint \<Rightarrow> bool" where
  "fp_wf fp \<equiv> spans_nonempty (fp_Spans fp)"

lemma fp_wf_keys: "fp_wf fp \<Longrightarrow> res \<in> set (footprintResources fp) \<Longrightarrow> res_wf (key_of res)"
  by (auto simp: spans_nonempty_def footprintResources_def key_of_def res_wf_def)

text \<open>
  The three loops over the resources of a footprint (post, unpost, raise the floor) share a
  contract: each step changes the view at its own resource and lane only, and doing it twice is
  doing it once.
\<close>

locale resource_step =
  fixes step :: "ConfID \<Rightarrow> instanceLane \<Rightarrow> InstanceNum \<Rightarrow> bytes \<times> bytes \<times> bool \<Rightarrow> conflictEngine \<Rightarrow> conflictEngine"
    and effect :: "InstanceNum \<Rightarrow> InstanceNum set \<times> InstanceNum \<Rightarrow> InstanceNum set \<times> InstanceNum"
  assumes step_inv: "res_inv e \<Longrightarrow> res_wf (key_of res) \<Longrightarrow> inst \<noteq> 0 \<Longrightarrow> res_inv (step (lane_conf lane) lane inst res e)"
    and step_view: "res_inv e \<Longrightarrow> res_wf (key_of res) \<Longrightarrow> inst \<noteq> 0 \<Longrightarrow> view (step (lane_conf lane) lane inst res e) c x l =
      (if c = lane_conf lane \<and> x = key_of res \<and> l = lane then effect inst (view e c x l) else view e c x l)"
    and step_lanes: "res_inv e \<Longrightarrow> res_wf (key_of res) \<Longrightarrow> inst \<noteq> 0 \<Longrightarrow>
      eng_laneIndex (step (lane_conf lane) lane inst res e) = eng_laneIndex e \<and>
      eng_resident (step (lane_conf lane) lane inst res e) = eng_resident e"
    and effect_idem: "effect inst (effect inst v) = effect inst v"
begin

lemma fold_steps:
  assumes "res_inv e" "\<forall>res \<in> set rs. res_wf (key_of res)" "inst \<noteq> 0"
  shows "res_inv (fold (step (lane_conf lane) lane inst) rs e) \<and>
    eng_laneIndex (fold (step (lane_conf lane) lane inst) rs e) = eng_laneIndex e \<and>
    eng_resident (fold (step (lane_conf lane) lane inst) rs e) = eng_resident e \<and>
    view (fold (step (lane_conf lane) lane inst) rs e) c x l =
      (if c = lane_conf lane \<and> x \<in> key_of ` set rs \<and> l = lane then effect inst (view e c x l) else view e c x l)"
  using assms
proof (induction rs arbitrary: e)
  case (Cons r rs)
  have wf: "res_wf (key_of r)" using Cons.prems(2) by simp
  show ?case
    using Cons.IH [OF step_inv [OF Cons.prems(1) wf Cons.prems(3), of lane]] Cons.prems(2,3)
      step_view [OF Cons.prems(1) wf Cons.prems(3), of lane c x l] step_lanes [OF Cons.prems(1) wf Cons.prems(3), of lane]
    by (auto simp: effect_idem)
qed simp

end

lemma view_entry: "view e c x l = (members (kl_postings (entryOr e c x l)), kl_retiredFloor (entryOr e c x l))"
  by (auto simp: view_def entryOr_def split: option.split)

lemma posting_entry: "res_inv e \<Longrightarrow> posting_wf (kl_postings (entryOr e c x l))"
  using res_invD(3) [of e c x l] by (auto simp: entryOr_def entry_wf_def split: option.split)

lemma insertPosting_wf:
  assumes "res_inv e"
  shows "entry_wf (entryOr e c x l\<lparr>kl_postings := postingSet_insert (kl_postings (entryOr e c x l)) inst\<rparr>)"
proof -
  note wf = posting_entry [OF assms, of c x l]
  have "postingSet_insert (kl_postings (entryOr e c x l)) inst \<noteq> None"
    using members_simps(3) [OF posting_insert_laws(1) [OF wf]] posting_insert_laws(2) [OF wf] by blast
  then show ?thesis using posting_insert_laws(1) [OF wf] by (simp add: entry_wf_def)
qed

interpretation posting_step: resource_step insertPosting "\<lambda>inst v. (insert inst (fst v), snd v)"
proof
  fix e res inst lane c x l
  assume inv: "res_inv e" and wf: "res_wf (key_of res)"
  note laws = writeEntry_laws [OF inv wf refl, of "\<lambda>entry. entry\<lparr>kl_postings := postingSet_insert (kl_postings entry) inst\<rparr>" lane,
      OF insertPosting_wf [OF inv], folded writeEntry_uses]
  show "res_inv (insertPosting (lane_conf lane) lane inst res e)" by (rule laws(4))
  show "eng_laneIndex (insertPosting (lane_conf lane) lane inst res e) = eng_laneIndex e \<and>
      eng_resident (insertPosting (lane_conf lane) lane inst res e) = eng_resident e" by (simp add: laws(2,3))
  show "view (insertPosting (lane_conf lane) lane inst res e) c x l =
      (if c = lane_conf lane \<and> x = key_of res \<and> l = lane then (insert inst (fst (view e c x l)), snd (view e c x l)) else view e c x l)"
    using posting_entry [OF inv, of c x l] by (auto simp: view_entry entryOr_def [of "insertPosting _ _ _ _ _"] laws(1)) (simp_all add: entryOr_def)
qed simp

lemma raiseFloor_wf:
  assumes "res_inv e" "inst \<noteq> 0"
  shows "entry_wf (entryOr e c x l\<lparr>kl_retiredFloor := max (kl_retiredFloor (entryOr e c x l)) inst\<rparr>)"
proof -
  have "max (kl_retiredFloor (entryOr e c x l)) inst \<noteq> 0"
    using assms(2) by (metis max.cobounded2 word_le_0_iff)
  then show ?thesis using posting_entry [OF assms(1), of c x l] by (simp add: entry_wf_def)
qed

interpretation floor_step: resource_step raiseFloor "\<lambda>inst v. (fst v, max (snd v) inst)"
proof
  fix e res inst lane c x l
  assume inv: "res_inv e" and wf: "res_wf (key_of res)" and pos: "inst \<noteq> (0 :: InstanceNum)"
  note laws = writeEntry_laws [OF inv wf refl, of "\<lambda>entry. entry\<lparr>kl_retiredFloor := max (kl_retiredFloor entry) inst\<rparr>" lane,
      OF raiseFloor_wf [OF inv pos], folded writeEntry_uses]
  show "res_inv (raiseFloor (lane_conf lane) lane inst res e)" by (rule laws(4))
  show "eng_laneIndex (raiseFloor (lane_conf lane) lane inst res e) = eng_laneIndex e \<and>
      eng_resident (raiseFloor (lane_conf lane) lane inst res e) = eng_resident e" by (simp add: laws(2,3))
  show "view (raiseFloor (lane_conf lane) lane inst res e) c x l =
      (if c = lane_conf lane \<and> x = key_of res \<and> l = lane then (fst (view e c x l), max (snd (view e c x l)) inst) else view e c x l)"
    by (auto simp: view_entry entryOr_def [of "raiseFloor _ _ _ _ _"] laws(1)) (simp_all add: entryOr_def)
qed simp

lemma unpost_view:
  assumes "entry_wf entry"
  shows "(case unpost inst entry of None \<Rightarrow> ({}, 0) | Some en \<Rightarrow> (members (kl_postings en), kl_retiredFloor en)) =
    (members (kl_postings entry) - {inst}, kl_retiredFloor entry)"
proof -
  have wf: "posting_wf (kl_postings entry)" using assms by (simp add: entry_wf_def)
  note laws = posting_remove_laws [OF wf, of inst]
  have "members (kl_postings entry) - {inst} = {}" if "fst (postingSet_remove (kl_postings entry) inst) = None"
    using laws(2) that by simp
  then show ?thesis using laws(2) by (auto simp: unpost_def Let_def)
qed

interpretation removal_step: resource_step removeResourcePosting "\<lambda>inst v. (fst v - {inst}, snd v)"
proof
  fix e res inst lane c x l
  assume inv: "res_inv e" and wf: "res_wf (key_of res)"
  note laws = removeResourcePosting_laws [OF inv wf]
  show "res_inv (removeResourcePosting (lane_conf lane) lane inst res e)" by (rule laws(4))
  show "eng_laneIndex (removeResourcePosting (lane_conf lane) lane inst res e) = eng_laneIndex e \<and>
      eng_resident (removeResourcePosting (lane_conf lane) lane inst res e) = eng_resident e" by (simp add: laws(2,3))
  show "view (removeResourcePosting (lane_conf lane) lane inst res e) c x l =
      (if c = lane_conf lane \<and> x = key_of res \<and> l = lane then (fst (view e c x l) - {inst}, snd (view e c x l)) else view e c x l)"
    using res_invD(3) [OF inv, of c x l]
    by (cases "c = lane_conf lane \<and> x = key_of res \<and> l = lane"; cases "eng_store e c x l") (auto simp: view_def laws(1) unpost_view)
qed auto

section \<open>The engine against the records\<close>

text \<open>
  The ghost state of the invariant: the records the node keeps, by reference, and the list of the
  records that were folded away beyond the watermark of their lane.
\<close>

type_synonym residents = "InstanceRef \<rightharpoonup> InstanceRecord"

abbreviation rec_inst :: "InstanceRecord \<Rightarrow> InstanceNum" where
  "rec_inst rec \<equiv> ref_Instance (r_Ref rec)"

abbreviation rec_lane :: "InstanceRecord \<Rightarrow> instanceLane" where
  "rec_lane rec \<equiv> laneFor (r_Ref rec)"

definition rec_ok :: "InstanceRecord \<Rightarrow> bool" where
  "rec_ok rec \<longleftrightarrow> rec_inst rec \<noteq> 0 \<and> fp_wf (cmd_Footprint (r_Command rec))"

text \<open>A record posts a resource when it is eligible, not global, and its footprint names the resource.\<close>

definition touches :: "InstanceRecord \<Rightarrow> resource \<Rightarrow> bool" where
  "touches rec x \<longleftrightarrow> recordConflictEligible rec \<and> \<not> recordHasGlobalConflictScope rec \<and>
     x \<in> fp_resources (cmd_Footprint (r_Command rec))"

definition postedBy :: "residents \<Rightarrow> ConfID \<Rightarrow> resource \<Rightarrow> instanceLane \<Rightarrow> InstanceNum set" where
  "postedBy recs conf x lane = {inst. lane_conf lane = conf \<and> (\<exists>rec. recs (refOf lane inst) = Some rec \<and> touches rec x)}"

definition retiredMax :: "InstanceRecord list \<Rightarrow> instanceLane \<Rightarrow> (InstanceRecord \<Rightarrow> bool) \<Rightarrow> InstanceNum" where
  "retiredMax ret lane P = maxOver rec_inst (\<lambda>rec. rec_lane rec = lane \<and> P rec) (set ret)"

definition retiredHistory :: "InstanceRecord list \<Rightarrow> instanceLane \<Rightarrow> (InstanceNum \<times> u64) list" where
  "retiredHistory ret lane =
     map (\<lambda>rec. (rec_inst rec, r_Seq rec)) (filter (\<lambda>rec. rec_lane rec = lane \<and> recordConflictEligible rec) ret)"

definition lane_inv :: "laneIndex \<Rightarrow> residents \<Rightarrow> InstanceRecord list \<Rightarrow> instanceLane \<Rightarrow> bool" where
  "lane_inv index recs ret lane \<longleftrightarrow>
     lane_wf (li_resident index) \<and>
     (\<forall>inst. laneTree_slot (li_resident index) inst = map_option slotForRecord (recs (refOf lane inst))) \<and>
     posting_wf (li_pendingFold index) \<and>
     members (li_pendingFold index) = {inst. li_folded index < inst \<and> (\<exists>rec \<in> set ret. r_Ref rec = refOf lane inst)} \<and>
     (\<forall>inst. 0 < inst \<and> inst \<le> li_folded index \<longrightarrow> (\<exists>rec \<in> set ret. r_Ref rec = refOf lane inst)) \<and>
     li_retiredEligibleAny index = retiredMax ret lane recordConflictEligible \<and>
     li_retiredGlobal index = retiredMax ret lane (\<lambda>rec. recordConflictEligible rec \<and> recordHasGlobalConflictScope rec) \<and>
     stairs_inv index (retiredHistory ret lane)"

definition engine_inv :: "conflictEngine \<Rightarrow> residents \<Rightarrow> InstanceRecord list \<Rightarrow> bool" where
  "engine_inv e recs ret \<longleftrightarrow>
     res_inv e \<and>
     (\<forall>lane. lane_inv (laneIndexAt e lane) recs ret lane) \<and>
     (\<forall>conf x lane. view e conf x lane =
        (postedBy recs conf x lane, if lane_conf lane = conf then retiredMax ret lane (\<lambda>rec. touches rec x) else 0)) \<and>
     finite (dom recs) \<and> eng_resident e = int (card (dom recs)) \<and>
     (\<forall>ref rec. recs ref = Some rec \<longrightarrow> r_Ref rec = ref \<and> rec_ok rec) \<and>
     (\<forall>rec \<in> set ret. rec_ok rec)"

lemma engine_views [simp]:
  "laneIndexAt (putLane e lane i) l = (if l = lane then i else laneIndexAt e l)"
  "laneIndexAt (e\<lparr>eng_resident := n\<rparr>) = laneIndexAt e"
  "view (putLane e lane i) = view e" "view (e\<lparr>eng_resident := n\<rparr>) = view e"
  "eng_resident (putLane e lane i) = eng_resident e"
  by (simp_all add: laneIndexAt_def putLane_def view_def fun_eq_iff)

lemma res_inv_lanes [simp]:
  "res_inv (putLane e lane i) = res_inv e" "res_inv (e\<lparr>eng_resident := n\<rparr>) = res_inv e"
  by (simp_all add: res_inv_def)

lemma lane_inv_other:
  "l \<noteq> laneFor ref \<Longrightarrow> lane_inv index (recs(ref := v)) ret l = lane_inv index recs ret l"
  by (simp add: lane_inv_def)

lemma lane_inv_slot:
  assumes "lane_inv index recs ret (laneFor ref)" "lane_wf t"
    and "laneTree_slot t = (laneTree_slot (li_resident index))(ref_Instance ref := map_option slotForRecord v)"
  shows "lane_inv (index\<lparr>li_resident := t\<rparr>) (recs(ref := v)) ret (laneFor ref)"
  using assms by (simp add: lane_inv_def stairs_inv_def)

lemma postedBy_remove:
  assumes "recs ref = Some rec"
  shows "postedBy (recs(ref := None)) c x l =
    (if c = ref_Conf ref \<and> l = laneFor ref \<and> touches rec x then postedBy recs c x l - {ref_Instance ref} else postedBy recs c x l)"
  using assms by (auto simp: postedBy_def)

lemma postedBy_add:
  assumes "recs ref = None"
  shows "postedBy (recs(ref \<mapsto> rec)) c x l =
    (if c = ref_Conf ref \<and> l = laneFor ref \<and> touches rec x then insert (ref_Instance ref) (postedBy recs c x l) else postedBy recs c x l)"
  using assms by (auto simp: postedBy_def)

lemma engine_invD:
  assumes "engine_inv e recs ret"
  shows "res_inv e" "lane_inv (laneIndexAt e lane) recs ret lane" "finite (dom recs)" "eng_resident e = int (card (dom recs))"
    and "view e conf x lane =
      (postedBy recs conf x lane, if lane_conf lane = conf then retiredMax ret lane (\<lambda>rec. touches rec x) else 0)"
    and "recs ref = Some rec \<Longrightarrow> r_Ref rec = ref \<and> rec_ok rec" "rec \<in> set ret \<Longrightarrow> rec_ok rec"
  using assms by (simp_all add: engine_inv_def)

lemma lane_invD:
  assumes "lane_inv index recs ret lane"
  shows "lane_wf (li_resident index)" "laneTree_slot (li_resident index) inst = map_option slotForRecord (recs (refOf lane inst))"
  using assms by (simp_all add: lane_inv_def)

text \<open>A change of one record, given what it does to its lane and to the postings.\<close>

lemma engine_inv_change:
  assumes "engine_inv e recs ret" "res_inv e'"
    and "\<And>l. laneIndexAt e' l = (if l = laneFor ref then index else laneIndexAt e l)"
    and "lane_inv index (recs(ref := v)) ret (laneFor ref)"
    and "\<And>c x l. view e' c x l = (postedBy (recs(ref := v)) c x l, snd (view e c x l))"
    and "eng_resident e' = int (card (dom (recs(ref := v))))"
    and "\<And>rec. v = Some rec \<Longrightarrow> r_Ref rec = ref \<and> rec_ok rec"
  shows "engine_inv e' (recs(ref := v)) ret"
proof -
  note inv = engine_invD [OF assms(1)]
  have "lane_inv (laneIndexAt e' l) (recs(ref := v)) ret l" for l
    using assms(4) inv(2) [of l] lane_inv_other [of l ref] by (simp add: assms(3))
  moreover have "finite (dom (recs(ref := v)))" using inv(3) by simp
  moreover have "r_Ref rec = r \<and> rec_ok rec" if "(recs(ref := v)) r = Some rec" for r rec
    using that inv(6) [of r rec] assms(7) by (auto split: if_splits)
  ultimately show ?thesis
    unfolding engine_inv_def using assms(2,5,6) inv(5,7) by simp
qed

text \<open>Removing a record that is not resident changes nothing.\<close>

lemma engine_remove_absent:
  assumes "engine_inv e recs ret" "recs ref = None"
  shows "engine_remove e ref rec = e"
proof -
  note inv = lane_invD [OF engine_invD(2) [OF assms(1), of "laneFor ref"]]
  have "\<not> snd (laneTree_remove (li_resident (laneIndexAt e (laneFor ref))) (ref_Instance ref))"
    using lane_remove_laws(3) [OF inv(1)] inv(2) [of "ref_Instance ref"] assms(2) by simp
  then show ?thesis
    by (auto simp: engine_remove_def laneIndexAt_def Let_def case_prod_unfold split: option.split)
qed

lemma engine_remove_inv:
  assumes "engine_inv e recs ret" "recs ref = Some rec"
  shows "engine_inv (engine_remove e ref rec) (recs(ref := None)) ret"
proof -
  let ?lane = "laneFor ref" and ?inst = "ref_Instance ref"
  define index where "index = laneIndexAt e ?lane"
  note inv = engine_invD [OF assms(1)] and li = engine_invD(2) [OF assms(1), of ?lane, folded index_def]
  note lane = lane_invD [OF li] and rm = lane_remove_laws [OF lane_invD(1) [OF li], of ?inst]
  define t where "t = fst (laneTree_remove (li_resident index) ?inst)"
  have ok: "rec_ok rec" using inv(6) assms(2) by blast
  have removed: "laneTree_remove (li_resident index) ?inst = (t, True)"
    using rm(3) lane(2) [of ?inst] assms(2) by (simp add: t_def prod_eq_iff)
  have some: "eng_laneIndex e ?lane = Some index"
  proof (rule ccontr)
    assume "eng_laneIndex e ?lane \<noteq> Some index"
    then have "index = zero_laneIndex" by (auto simp: index_def laneIndexAt_def split: option.splits)
    then show False using removed rm(3) by (simp add: zero_laneIndex_def laneTree_slot_def)
  qed
  define e1 where "e1 = (putLane e ?lane (index\<lparr>li_resident := t\<rparr>))\<lparr>eng_resident := eng_resident e - 1\<rparr>"
  have e': "engine_remove e ref rec =
      (if \<not> recordConflictEligible rec \<or> recordHasGlobalConflictScope rec then e1
       else fold (removeResourcePosting (lane_conf ?lane) ?lane ?inst) (footprintResources (cmd_Footprint (r_Command rec))) e1)"
    by (simp add: engine_remove_def some removed Let_def e1_def)
  have wf1: "res_inv e1" using inv(1) by (simp add: e1_def)
  note fold = removal_step.fold_steps [OF wf1, of "footprintResources (cmd_Footprint (r_Command rec))" ?inst ?lane]
  have keys: "\<forall>res \<in> set (footprintResources (cmd_Footprint (r_Command rec))). res_wf (key_of res)"
    using ok fp_wf_keys by (auto simp: rec_ok_def)
  have pos: "?inst \<noteq> 0" using ok inv(6) [OF assms(2)] by (simp add: rec_ok_def)
  show ?thesis
  proof (rule engine_inv_change [OF assms(1), where index = "index\<lparr>li_resident := t\<rparr>"])
    show "res_inv (engine_remove e ref rec)" using wf1 fold [OF keys pos] by (simp add: e')
    show "laneIndexAt (engine_remove e ref rec) l = (if l = ?lane then index\<lparr>li_resident := t\<rparr> else laneIndexAt e l)" for l
      using fold [OF keys pos] by (simp add: e' laneIndexAt_def) (simp add: e1_def putLane_def)
    show "lane_inv (index\<lparr>li_resident := t\<rparr>) (recs(ref := None)) ret ?lane"
      using rm by (intro lane_inv_slot li) (simp_all add: t_def)
    have "view (engine_remove e ref rec) c x l =
        (if c = ref_Conf ref \<and> l = ?lane \<and> touches rec x then (fst (view e c x l) - {?inst}, snd (view e c x l)) else view e c x l)" for c x l
      using fold [OF keys pos, of c x l] by (auto simp: e' touches_def) (auto simp: e1_def)
    then show "view (engine_remove e ref rec) c x l = (postedBy (recs(ref := None)) c x l, snd (view e c x l))" for c x l
      by (simp add: postedBy_remove [of recs ref rec, OF assms(2)] inv(5))
    have "card (dom recs) > 0" using assms(2) inv(3) by (auto simp: card_gt_0_iff)
    then show "eng_resident (engine_remove e ref rec) = int (card (dom (recs(ref := None))))"
      using fold [OF keys pos] inv(3,4) assms(2) by (simp add: e' e1_def card_Diff_singleton domI)
  qed simp
qed

text \<open>
  Applying a record: the caller passes the record it replaces. The first record of an instance
  replaces nothing, or the zero record of a fresh instance, which is not resident.
\<close>

definition replaces :: "residents \<Rightarrow> InstanceRecord option \<Rightarrow> InstanceRecord \<Rightarrow> bool" where
  "replaces recs prev rec \<longleftrightarrow>
     (case prev of
        None \<Rightarrow> recs (r_Ref rec) = None
      | Some p \<Rightarrow> recs (r_Ref rec) = recs (r_Ref p) \<and> (recs (r_Ref p) = None \<or> recs (r_Ref p) = Some p))"

lemma engine_add_inv:
  assumes "engine_inv e recs ret" "recs (r_Ref rec) = None" "rec_ok rec"
  shows "engine_inv (engine_apply e None rec) (recs(r_Ref rec \<mapsto> rec)) ret"
proof -
  let ?ref = "r_Ref rec"
  let ?lane = "laneFor ?ref" and ?inst = "ref_Instance ?ref"
  define index where "index = laneIndexAt e ?lane"
  note inv = engine_invD [OF assms(1)] and li = engine_invD(2) [OF assms(1), of ?lane, folded index_def]
  note lane = lane_invD [OF li]
  define t where "t = laneTree_set (li_resident index) ?inst (slotForRecord rec)"
  define e1 where "e1 = (putLane e ?lane (index\<lparr>li_resident := t\<rparr>))\<lparr>eng_resident := eng_resident e + 1\<rparr>"
  have absent: "laneTree_slot (li_resident index) ?inst = None" using lane(2) [of ?inst] assms(2) by simp
  have e': "engine_apply e None rec =
      (if \<not> recordConflictEligible rec \<or> recordHasGlobalConflictScope rec then e1
       else fold (insertPosting (lane_conf ?lane) ?lane ?inst) (footprintResources (cmd_Footprint (r_Command rec))) e1)"
    using absent
    by (auto simp: engine_apply_def ensureLane_def e1_def t_def index_def laneIndexAt_def putLane_def Let_def split: option.splits)
  have wf1: "res_inv e1" using inv(1) by (simp add: e1_def)
  have keys: "\<forall>res \<in> set (footprintResources (cmd_Footprint (r_Command rec))). res_wf (key_of res)"
    using assms(3) fp_wf_keys by (auto simp: rec_ok_def)
  have pos: "?inst \<noteq> 0" using assms(3) by (simp add: rec_ok_def)
  note fold = posting_step.fold_steps [OF wf1 keys pos, of ?lane]
  show ?thesis
  proof (rule engine_inv_change [OF assms(1), where index = "index\<lparr>li_resident := t\<rparr>"])
    show "res_inv (engine_apply e None rec)" using wf1 fold by (simp add: e')
    show "laneIndexAt (engine_apply e None rec) l = (if l = ?lane then index\<lparr>li_resident := t\<rparr> else laneIndexAt e l)" for l
      using fold by (simp add: e' laneIndexAt_def) (simp add: e1_def putLane_def)
    show "lane_inv (index\<lparr>li_resident := t\<rparr>) (recs(?ref \<mapsto> rec)) ret ?lane"
      using lane(1) by (intro lane_inv_slot li) (simp_all add: t_def)
    have "view (engine_apply e None rec) c x l =
        (if c = ref_Conf ?ref \<and> l = ?lane \<and> touches rec x then (insert ?inst (fst (view e c x l)), snd (view e c x l)) else view e c x l)" for c x l
      using fold [of c x l] by (auto simp: e' touches_def) (auto simp: e1_def)
    then show "view (engine_apply e None rec) c x l = (postedBy (recs(?ref \<mapsto> rec)) c x l, snd (view e c x l))" for c x l
      by (simp add: postedBy_add [of recs ?ref rec, OF assms(2)] inv(5))
    show "eng_resident (engine_apply e None rec) = int (card (dom (recs(?ref \<mapsto> rec))))"
      using fold inv(3,4) assms(2) by (simp add: e' e1_def card_insert_if domIff)
  qed (use assms(3) in simp)
qed

lemma engine_apply_remove:
  "engine_apply e (Some p) rec = engine_apply (engine_remove e (r_Ref p) p) None rec"
  by (simp add: engine_apply_def)

lemma engine_apply_inv:
  assumes "engine_inv e recs ret" "replaces recs prev rec" "rec_ok rec"
  shows "engine_inv (engine_apply e prev rec) (recs(r_Ref rec \<mapsto> rec)) ret"
proof (cases prev)
  case None
  then show ?thesis using engine_add_inv [OF assms(1) _ assms(3)] assms(2) by (simp add: replaces_def)
next
  case (Some p)
  show ?thesis
  proof (cases "recs (r_Ref p)")
    case None
    then show ?thesis
      using Some assms engine_add_inv [OF assms(1) _ assms(3)] engine_remove_absent [OF assms(1) None]
      by (simp add: engine_apply_remove replaces_def)
  next
    case (Some p')
    then have p: "recs (r_Ref p) = Some p" "recs (r_Ref rec) = Some p" using \<open>prev = Some p\<close> assms(2) by (auto simp: replaces_def)
    have "r_Ref p = r_Ref rec" using engine_invD(6) [OF assms(1) p(2)] by simp
    then show ?thesis
      using engine_add_inv [OF engine_remove_inv [OF assms(1) p(1)] _ assms(3)] \<open>prev = Some p\<close>
      by (simp add: engine_apply_remove)
  qed
qed

section \<open>Folding records away\<close>

lemma removal_lanes: "eng_laneIndex (fold (removeResourcePosting conf lane inst) rs e) = eng_laneIndex e"
proof (induction rs arbitrary: e)
  case (Cons r rs)
  have "eng_laneIndex (removeResourcePosting conf lane inst r e) = eng_laneIndex e"
    by (simp add: removeResourcePosting_def dropResource_views Let_def split: prod.split option.split)
  then show ?case using Cons by simp
qed simp

lemma engine_remove_folded [simp]: "li_folded (laneIndexAt (engine_remove e ref rec) l) = li_folded (laneIndexAt e l)"
  by (auto simp: engine_remove_def laneIndexAt_def putLane_def removal_lanes Let_def split: option.split prod.split)

lemma ensureLane_inv:
  assumes "engine_inv e recs ret"
  shows "engine_inv (fst (ensureLane e lane)) recs ret"
proof -
  have "laneIndexAt (fst (ensureLane e lane)) = laneIndexAt e" "view (fst (ensureLane e lane)) = view e"
    "eng_resident (fst (ensureLane e lane)) = eng_resident e"
    by (auto simp: fun_eq_iff laneIndexAt_def ensureLane_def view_def split: option.split)
  moreover have "res_inv (fst (ensureLane e lane))"
    using engine_invD(1) [OF assms] by (rule res_inv_store_cong) (auto simp: ensureLane_def split: option.split)
  ultimately show ?thesis using assms by (simp add: engine_inv_def)
qed

lemma retiredMax_Cons:
  "retiredMax (rec # ret) lane P =
     (if rec_lane rec = lane \<and> P rec then max (retiredMax ret lane P) (rec_inst rec) else retiredMax ret lane P)"
  by (simp add: retiredMax_def maxOver_insert max.commute)

lemma retiredHistory_Cons:
  "retiredHistory (rec # ret) lane =
     (if rec_lane rec = lane \<and> recordConflictEligible rec then (rec_inst rec, r_Seq rec) # retiredHistory ret lane
      else retiredHistory ret lane)"
  by (simp add: retiredHistory_def)

lemma addRetiredSeq_fields [simp]:
  "li_resident (addRetiredSeq i t q) = li_resident i" "li_folded (addRetiredSeq i t q) = li_folded i"
  "li_retiredEligibleAny (addRetiredSeq i t q) = li_retiredEligibleAny i"
  "li_retiredGlobal (addRetiredSeq i t q) = li_retiredGlobal i"
  "li_pendingFold (addRetiredSeq i t q) = li_pendingFold i"
  by (simp_all add: addRetiredSeq_def Let_def)

lemma stairs_inv_fields [simp]:
  "stairs_inv (i\<lparr>li_pendingFold := s\<rparr>) h = stairs_inv i h" "stairs_inv (i\<lparr>li_retiredEligibleAny := n\<rparr>) h = stairs_inv i h"
  "stairs_inv (i\<lparr>li_retiredGlobal := n\<rparr>) h = stairs_inv i h" "stairs_inv (i\<lparr>li_folded := n\<rparr>) h = stairs_inv i h"
  by (simp_all add: stairs_inv_def)

text \<open>What \<^verbatim>\<open>foldRecord\<close> writes to the index of the lane of a record beyond its watermark.\<close>

definition foldedIndex :: "laneIndex \<Rightarrow> InstanceRecord \<Rightarrow> laneIndex" where
  "foldedIndex index rec =
     (let index = index\<lparr>li_pendingFold := postingSet_insert (li_pendingFold index) (rec_inst rec)\<rparr>
      in if \<not> recordConflictEligible rec then index
         else
           let index = index\<lparr>li_retiredEligibleAny := max (li_retiredEligibleAny index) (rec_inst rec)\<rparr>;
               index = (if recordHasGlobalConflictScope rec
                        then index\<lparr>li_retiredGlobal := max (li_retiredGlobal index) (rec_inst rec)\<rparr> else index)
           in addRetiredSeq index (rec_inst rec) (r_Seq rec))"

lemma foldedIndex_inv:
  assumes "lane_inv index recs ret (rec_lane rec)" "li_folded index < rec_inst rec"
  shows "lane_inv (foldedIndex index rec) recs (rec # ret) (rec_lane rec)"
proof -
  let ?i = "foldedIndex index rec"
  have wf: "posting_wf (li_pendingFold index)" using assms(1) by (simp add: lane_inv_def)
  have "li_folded ?i = li_folded index" "li_resident ?i = li_resident index"
    "li_pendingFold ?i = postingSet_insert (li_pendingFold index) (rec_inst rec)"
    by (simp_all add: foldedIndex_def Let_def)
  moreover have "li_retiredEligibleAny ?i = retiredMax (rec # ret) (rec_lane rec) recordConflictEligible"
    "li_retiredGlobal ?i = retiredMax (rec # ret) (rec_lane rec) (\<lambda>rec. recordConflictEligible rec \<and> recordHasGlobalConflictScope rec)"
    using assms(1) by (simp_all add: foldedIndex_def retiredMax_Cons lane_inv_def Let_def)
  moreover have "stairs_inv ?i (retiredHistory (rec # ret) (rec_lane rec))"
    using assms(1) by (simp add: foldedIndex_def retiredHistory_Cons lane_inv_def Let_def addRetiredSeq_inv)
  moreover have "members (postingSet_insert (li_pendingFold index) (rec_inst rec)) =
      {inst. li_folded index < inst \<and> (\<exists>r \<in> set (rec # ret). r_Ref r = refOf (rec_lane rec) inst)}"
    using assms wf by (auto simp: lane_inv_def) (metis refOf_eq)+
  ultimately show ?thesis using assms(1) wf by (simp add: lane_inv_def)
qed

lemma lane_inv_ret_other:
  assumes "l \<noteq> rec_lane rec"
  shows "lane_inv index recs (rec # ret) l = lane_inv index recs ret l"
proof -
  have "r_Ref rec \<noteq> refOf l inst" for inst using assms by (metis laneFor_refOf(1))
  then show ?thesis using assms by (simp add: lane_inv_def retiredMax_Cons retiredHistory_Cons)
qed

lemma foldRecord_eq:
  assumes "e1 = engine_remove (fst (ensureLane e (rec_lane rec))) (r_Ref rec) rec"
    and "\<not> rec_inst rec \<le> li_folded (laneIndexAt e1 (rec_lane rec))"
  shows "foldRecord e rec = putLane
    (if recordConflictEligible rec \<and> \<not> recordHasGlobalConflictScope rec
     then fold (raiseFloor (ref_Conf (r_Ref rec)) (rec_lane rec) (rec_inst rec)) (footprintResources (cmd_Footprint (r_Command rec))) e1
     else e1)
    (rec_lane rec) (foldedIndex (laneIndexAt e1 (rec_lane rec)) rec)"
  using assms(2) unfolding foldRecord_def foldedIndex_def Let_def case_prod_unfold assms(1) by simp

lemma foldRecord_below:
  assumes "rec_inst rec \<le> li_folded (laneIndexAt e (rec_lane rec))"
  shows "foldRecord e rec = engine_remove (fst (ensureLane e (rec_lane rec))) (r_Ref rec) rec"
proof -
  have "li_folded (laneIndexAt (fst (ensureLane e l)) l) = li_folded (laneIndexAt e l)" for l
    by (simp add: ensureLane_def laneIndexAt_def split: option.split)
  then show ?thesis using assms by (simp add: foldRecord_def Let_def case_prod_unfold)
qed

lemma foldRecord_removed:
  assumes "engine_inv e recs ret" "recs (r_Ref rec) \<in> {None, Some rec}"
  shows "engine_inv (engine_remove (fst (ensureLane e (rec_lane rec))) (r_Ref rec) rec) (recs(r_Ref rec := None)) ret"
proof (cases "recs (r_Ref rec)")
  case None
  then have "recs(r_Ref rec := None) = recs" by (simp add: fun_upd_idem)
  then show ?thesis
    using engine_remove_absent [OF ensureLane_inv [OF assms(1)] None] ensureLane_inv [OF assms(1)] by simp
next
  case (Some r)
  then show ?thesis using engine_remove_inv [OF ensureLane_inv [OF assms(1)]] assms(2) by auto
qed

lemma foldRecord_inv:
  assumes "engine_inv e recs ret" "recs (r_Ref rec) \<in> {None, Some rec}" "rec_ok rec"
  shows "engine_inv (foldRecord e rec) (recs(r_Ref rec := None))
    (if rec_inst rec \<le> foldedThrough e (rec_lane rec) then ret else rec # ret)"
proof -
  let ?lane = "rec_lane rec" and ?inst = "rec_inst rec" and ?recs = "recs(r_Ref rec := None)"
  let ?rs = "footprintResources (cmd_Footprint (r_Command rec))"
  define e1 where "e1 = engine_remove (fst (ensureLane e ?lane)) (r_Ref rec) rec"
  note inv1 = foldRecord_removed [OF assms(1,2), folded e1_def]
  have folded: "foldedThrough e ?lane = li_folded (laneIndexAt e ?lane)"
    by (simp add: foldedThrough_def laneIndexAt_def zero_laneIndex_def split: option.split)
  have same: "li_folded (laneIndexAt e1 ?lane) = li_folded (laneIndexAt e ?lane)"
    by (simp add: e1_def) (simp add: ensureLane_def laneIndexAt_def split: option.split)
  show ?thesis
  proof (cases "?inst \<le> foldedThrough e ?lane")
    case True
    then show ?thesis using inv1 foldRecord_below [of rec e] by (simp add: folded e1_def)
  next
    case False
    note inv = engine_invD [OF inv1]
    have keys: "\<forall>res \<in> set ?rs. res_wf (key_of res)" and pos: "?inst \<noteq> 0" using assms(3) fp_wf_keys by (auto simp: rec_ok_def)
    note fold = floor_step.fold_steps [OF inv(1) keys pos, of ?lane]
    let ?e2 = "if recordConflictEligible rec \<and> \<not> recordHasGlobalConflictScope rec
      then fold (raiseFloor (ref_Conf (r_Ref rec)) ?lane ?inst) ?rs e1 else e1"
    let ?i = "foldedIndex (laneIndexAt e1 ?lane) rec"
    have e': "foldRecord e rec = putLane ?e2 ?lane ?i" by (rule foldRecord_eq [OF e1_def]) (use False folded same in simp)
    have lanes: "laneIndexAt ?e2 = laneIndexAt e1" "eng_resident ?e2 = eng_resident e1" "res_inv ?e2"
      using fold inv(1) by (auto simp: fun_eq_iff laneIndexAt_def)
    have "lane_inv (laneIndexAt (foldRecord e rec) l) ?recs (rec # ret) l" for l
      using foldedIndex_inv [OF inv(2) [of ?lane]] inv(2) [of l] lane_inv_ret_other [of l rec] False folded same
      by (auto simp: e' lanes(1))
    moreover have "view (foldRecord e rec) c x l = (postedBy ?recs c x l,
        if lane_conf l = c then retiredMax (rec # ret) l (\<lambda>rec. touches rec x) else 0)" for c x l
    proof (cases "touches rec x")
      case True
      then show ?thesis using fold [of c x l] inv(5) [of c x l] by (auto simp: e' retiredMax_Cons touches_def)
    next
      case False
      then have "view ?e2 c x l = view e1 c x l" using fold [of c x l] by (auto simp: touches_def)
      then show ?thesis using inv(5) [of c x l] False by (simp add: e' retiredMax_Cons)
    qed
    moreover have "res_inv (foldRecord e rec)" "eng_resident (foldRecord e rec) = int (card (dom ?recs))"
      unfolding e' using lanes(2,3) inv(4) by simp_all
    moreover have "\<forall>r \<in> set (rec # ret). rec_ok r" using inv(7) assms(3) by simp
    ultimately have "engine_inv (foldRecord e rec) ?recs (rec # ret)"
      unfolding engine_inv_def using inv(3,6) by blast
    then show ?thesis using False by (simp only: if_False)
  qed
qed

lemma after_watermark:
  fixes f t :: u64
  assumes "f < t"
  shows "i \<in> {f + 1..t} \<longleftrightarrow> f < i \<and> i \<le> t"
proof -
  have "i \<in> {f..t} \<longleftrightarrow> i = f \<or> i \<in> {f + 1..t}" using atLeastAtMost_step(2) [OF assms] by blast
  moreover have "f \<notin> {f + 1..t}" by (rule atLeastAtMost_step(3) [OF assms])
  ultimately show ?thesis by (cases "i = f") (simp_all add: order.strict_iff_order)
qed

lemma canAdvanceFold_index:
  "canAdvanceFold e lane through =
     (let index = laneIndexAt e lane in
      if through \<le> li_folded index then through = 0 \<or> through = li_folded index
      else allPending (li_pendingFold index) (li_folded index + 1) through)"
proof (cases "eng_laneIndex e lane")
  case None
  have "allPending None 1 through = False"
    using postingSet_contains_members [of None 1] by (simp add: allPending.simps [of None 1 through])
  then show ?thesis using None by (simp add: canAdvanceFold_def laneIndexAt_def zero_laneIndex_def)
qed (simp add: canAdvanceFold_def laneIndexAt_def)

lemma advanceFold_index:
  "advanceFold e lane through =
     (let index = laneIndexAt e lane; e0 = fst (ensureLane e lane) in
      if through < li_folded index then None
      else if through = li_folded index then Some e0
      else if \<not> allPending (li_pendingFold index) (li_folded index + 1) through then None
      else case removePending (li_pendingFold index) (li_folded index + 1) through of
          None \<Rightarrow> None
        | Some s \<Rightarrow> Some (putLane e0 lane (index\<lparr>li_pendingFold := s, li_folded := through\<rparr>)))"
  by (simp add: advanceFold_def laneIndexAt_def ensureLane_def split: option.split)

lemma foldedThrough_index: "foldedThrough e lane = li_folded (laneIndexAt e lane)"
  by (simp add: foldedThrough_def laneIndexAt_def zero_laneIndex_def split: option.split)

text \<open>Moving the watermark over pending instances keeps the invariant of the lane.\<close>

lemma lane_inv_advance:
  assumes "lane_inv index recs ret lane" "li_folded index < through" "posting_wf s"
    and "{li_folded index + 1..through} \<subseteq> members (li_pendingFold index)"
    and "members s = members (li_pendingFold index) - {li_folded index + 1..through}"
  shows "lane_inv (index\<lparr>li_pendingFold := s, li_folded := through\<rparr>) recs ret lane"
proof -
  let ?R = "\<lambda>inst. \<exists>rec \<in> set ret. r_Ref rec = refOf lane inst"
  have pend: "inst \<in> members (li_pendingFold index) \<longleftrightarrow> li_folded index < inst \<and> ?R inst" for inst
    using assms(1) by (simp add: lane_inv_def)
  have "inst \<in> members s \<longleftrightarrow> through < inst \<and> ?R inst" for inst
    unfolding assms(5) Diff_iff after_watermark [OF assms(2)] pend using assms(2) by (auto simp: not_le)
  then have "members s = {inst. through < inst \<and> ?R inst}" by blast
  moreover have "?R inst" if "0 < inst" "inst \<le> through" for inst
  proof (cases "inst \<le> li_folded index")
    case True
    then show ?thesis using assms(1) that(1) by (simp add: lane_inv_def)
  next
    case False
    then have "inst \<in> {li_folded index + 1..through}" unfolding after_watermark [OF assms(2)] using that by (simp add: not_le)
    then show ?thesis using assms(4) pend by blast
  qed
  ultimately show ?thesis using assms(1,3) by (simp add: lane_inv_def)
qed

lemma canAdvanceFold_iff:
  assumes "engine_inv e recs ret" "foldedThrough e lane \<le> through"
  shows "canAdvanceFold e lane through \<longleftrightarrow>
    (\<forall>inst. 0 < inst \<and> inst \<le> through \<longrightarrow> (\<exists>rec \<in> set ret. r_Ref rec = refOf lane inst))"
proof -
  let ?R = "\<lambda>inst. \<exists>rec \<in> set ret. r_Ref rec = refOf lane inst"
  define index where "index = laneIndexAt e lane"
  note li = engine_invD(2) [OF assms(1), of lane, folded index_def]
  have pend: "inst \<in> members (li_pendingFold index) \<longleftrightarrow> li_folded index < inst \<and> ?R inst" for inst
    using li by (simp add: lane_inv_def)
  have low: "0 < inst \<Longrightarrow> inst \<le> li_folded index \<Longrightarrow> ?R inst" for inst using li by (simp add: lane_inv_def)
  show ?thesis
  proof (cases "through = li_folded index")
    case True
    then show ?thesis using low by (simp add: canAdvanceFold_index flip: index_def)
  next
    case False
    then have lt: "li_folded index < through" using assms(2) by (simp add: foldedThrough_index index_def)
    have wf: "posting_wf (li_pendingFold index)" using li by (simp add: lane_inv_def)
    have "canAdvanceFold e lane through \<longleftrightarrow> {li_folded index + 1..through} \<subseteq> members (li_pendingFold index)"
      using allPending_iff [OF wf atLeastAtMost_step(1) [OF lt]] not_le [THEN iffD2, OF lt]
      by (simp add: canAdvanceFold_index Let_def flip: index_def)
    also have "\<dots> \<longleftrightarrow> (\<forall>inst. li_folded index < inst \<and> inst \<le> through \<longrightarrow> ?R inst)"
      unfolding subset_iff after_watermark [OF lt] pend by blast
    also have "\<dots> \<longleftrightarrow> (\<forall>inst. 0 < inst \<and> inst \<le> through \<longrightarrow> ?R inst)"
    proof (intro iff_allI iffI impI)
      show "?R inst" if "li_folded index < inst \<and> inst \<le> through \<longrightarrow> ?R inst" "0 < inst \<and> inst \<le> through" for inst
        using that low [of inst] by (cases "inst \<le> li_folded index") (auto simp: not_le)
      show "?R inst" if "0 < inst \<and> inst \<le> through \<longrightarrow> ?R inst" "li_folded index < inst \<and> inst \<le> through" for inst
        using that order_le_less_trans [OF word_zero_le, of "li_folded index" inst] by simp
    qed
    finally show ?thesis .
  qed
qed

lemma advanceFold_total:
  assumes "engine_inv e recs ret" "foldedThrough e lane \<le> through" "canAdvanceFold e lane through"
  shows "\<exists>e'. advanceFold e lane through = Some e' \<and> engine_inv e' recs ret \<and> foldedThrough e' lane = through"
proof -
  define index where "index = laneIndexAt e lane"
  let ?e0 = "fst (ensureLane e lane)"
  note inv0 = ensureLane_inv [OF assms(1), of lane] and li = engine_invD(2) [OF assms(1), of lane, folded index_def]
  have at0: "laneIndexAt ?e0 = laneIndexAt e" by (auto simp: fun_eq_iff laneIndexAt_def ensureLane_def split: option.split)
  show ?thesis
  proof (cases "through = li_folded index")
    case True
    then show ?thesis using inv0 at0 by (simp add: advanceFold_index foldedThrough_index flip: index_def)
  next
    case False
    then have lt: "li_folded index < through" using assms(2) by (simp add: foldedThrough_index index_def)
    have wf: "posting_wf (li_pendingFold index)" using li by (simp add: lane_inv_def)
    have all: "allPending (li_pendingFold index) (li_folded index + 1) through"
      using assms(3) not_le [THEN iffD2, OF lt] by (simp add: canAdvanceFold_index Let_def flip: index_def)
    note sub = all [unfolded allPending_iff [OF wf atLeastAtMost_step(1) [OF lt]]]
    obtain s where s: "removePending (li_pendingFold index) (li_folded index + 1) through = Some s" "posting_wf s"
      "members s = members (li_pendingFold index) - {li_folded index + 1..through}"
      using removePending_all [OF wf atLeastAtMost_step(1) [OF lt] sub] by blast
    let ?i = "index\<lparr>li_pendingFold := s, li_folded := through\<rparr>"
    have adv: "advanceFold e lane through = Some (putLane ?e0 lane ?i)"
      using all s(1) False less_not_sym [OF lt] by (simp add: advanceFold_index Let_def flip: index_def)
    have "lane_inv (laneIndexAt (putLane ?e0 lane ?i) l) recs ret l" for l
      using lane_inv_advance [OF li lt s(2) sub s(3)] engine_invD(2) [OF inv0, of l] by simp
    then have "engine_inv (putLane ?e0 lane ?i) recs ret" using inv0 by (simp add: engine_inv_def)
    then show ?thesis using adv by (simp add: foldedThrough_index)
  qed
qed

end
