(* ===== verification/ConflictQueries.thy ===== *)
theory ConflictQueries
  imports ConflictEngine
begin

text \<open>
  What the queries of the conflict engine answer, over every sequence of updates: the engine that
  the updates of \<^verbatim>\<open>epaxos/conflict_engine.go\<close> reach is related to the records that are resident
  and retired, and \<^verbatim>\<open>footprintMax\<close>, \<^verbatim>\<open>maxEligibleAny\<close>, \<^verbatim>\<open>globalMax\<close>, \<^verbatim>\<open>prefixMaxSeq\<close> and the walks are
  compared with a search through those records.
\<close>

section \<open>Reachable engines\<close>

text \<open>
  A step of the engine with the records it stands for: the node applies a record in place of the
  one it holds, removes a record, folds an executed record away, and moves the watermark of a lane.
\<close>

inductive engine_reach :: "conflictEngine \<Rightarrow> residents \<Rightarrow> InstanceRecord list \<Rightarrow> bool" where
  reach_zero: "engine_reach zero_engine Map.empty []"
| reach_apply: "engine_reach e recs ret \<Longrightarrow> replaces recs prev rec \<Longrightarrow> rec_ok rec \<Longrightarrow>
    engine_reach (engine_apply e prev rec) (recs(r_Ref rec \<mapsto> rec)) ret"
| reach_remove: "engine_reach e recs ret \<Longrightarrow> recs ref = Some rec \<Longrightarrow>
    engine_reach (engine_remove e ref rec) (recs(ref := None)) ret"
| reach_fold: "engine_reach e recs ret \<Longrightarrow> recs (r_Ref rec) \<in> {None, Some rec} \<Longrightarrow> rec_ok rec \<Longrightarrow>
    engine_reach (foldRecord e rec) (recs(r_Ref rec := None))
      (if rec_inst rec \<le> foldedThrough e (rec_lane rec) then ret else rec # ret)"
| reach_advance: "engine_reach e recs ret \<Longrightarrow> advanceFold e lane through = Some e' \<Longrightarrow> engine_reach e' recs ret"

inductive_cases engine_reach_cases: "engine_reach e recs ret"

lemma zero_engine_inv: "engine_inv zero_engine Map.empty []"
proof -
  have "lane_inv (laneIndexAt zero_engine lane) Map.empty [] lane" for lane
    by (simp add: lane_inv_def laneIndexAt_def zero_engine_def zero_laneIndex_def laneTree_slot_def retiredMax_def
        retiredHistory_def stairs_inv_def stair_def retiredTruth_def)
      (metis leD word_zero_le order_less_le)
  moreover have store: "eng_store zero_engine = (\<lambda>_ _. Map.empty)"
    by (simp add: eng_store_def zero_engine_def fun_eq_iff)
  moreover have "intervalsAt zero_engine = (\<lambda>_. INil)" "pointAt zero_engine = (\<lambda>_ _. None)" "eng_resident zero_engine = 0"
    by (simp_all add: zero_engine_def intervalsAt_def pointAt_def fun_eq_iff)
  ultimately show ?thesis
    by (simp add: engine_inv_def res_inv_def index_inv_def view_def postedBy_def retiredMax_def)
qed

lemma engine_reach_inv: "engine_reach e recs ret \<Longrightarrow> engine_inv e recs ret"
proof (induction rule: engine_reach.induct)
  case (reach_advance e recs ret lane through e')
  have le: "foldedThrough e lane \<le> through"
    using reach_advance(2) by (auto simp: advanceFold_index foldedThrough_index Let_def not_less split: if_splits)
  have "canAdvanceFold e lane through"
  proof (cases "through = foldedThrough e lane")
    case True
    then show ?thesis by (simp add: canAdvanceFold_index foldedThrough_index Let_def)
  next
    case False
    then show ?thesis
      using reach_advance(2) le by (auto simp: advanceFold_index canAdvanceFold_index foldedThrough_index Let_def split: if_splits)
  qed
  then show ?case using advanceFold_total [OF reach_advance(3) le] reach_advance(2) by auto
qed (rule zero_engine_inv engine_apply_inv engine_remove_inv foldRecord_inv; assumption)+

section \<open>Queries\<close>

text \<open>The resources a query over a footprint meets, in order and with repetitions, and their first occurrences.\<close>

definition visited :: "conflictEngine \<Rightarrow> ConfID \<Rightarrow> Footprint \<Rightarrow> resource list" where
  "visited e conf fp =
     concat (map (\<lambda>p. filter (\<lambda>x. x = Resource p p True) (inorder (intervalsAt e conf)) @
        filter (\<lambda>x. \<not> res_point x \<and> p \<in> res_keys x) (inorder (intervalsAt e conf))) (fp_Points fp)) @
     concat (map (\<lambda>s. filter (\<lambda>x. res_keys x \<inter> span_keys s \<noteq> {}) (inorder (intervalsAt e conf))) (fp_Spans fp))"

fun fresh :: "'x list \<Rightarrow> 'x list \<Rightarrow> 'x list" where
  "fresh seen [] = []"
| "fresh seen (x # xs) = (if x \<in> set seen then fresh seen xs else x # fresh (x # seen) xs)"

lemma set_fresh: "set (fresh seen xs) = set xs - set seen"
  by (induction seen xs rule: fresh.induct) auto

lemma yield_all_unique:
  "snd (fst (yield_all (unique f) xs (seen, s))) = fst (yield_all f (fresh seen xs) s) \<and>
   snd (yield_all (unique f) xs (seen, s)) = snd (yield_all f (fresh seen xs) s)"
  by (induction seen xs arbitrary: s rule: fresh.induct) (simp_all add: unique_def case_prod_unfold Let_def)

lemma filter_point:
  "sorted_wrt (<) (xs :: resource list) \<Longrightarrow> filter (\<lambda>y. y = x) xs = (if x \<in> set xs then [x] else [])"
  by (induction xs) (auto simp: filter_empty_conv)

lemma eachFootprintResource_visited:
  assumes "res_inv e" "fp_wf fp"
  shows "eachFootprintResource e conf fp yield s = fst (yield_all yield (fresh [] (visited e conf fp)) s)"
proof -
  let ?t = "intervalsAt e conf" and ?u = "unique yield"
  have inv: "sorted_wrt (<) (inorder ?t)" "\<forall>x \<in> set (inorder ?t). res_wf x" "aug_ok ?t"
    using res_invD(1) [OF assms(1), of conf] by (auto simp: index_inv_def)
  let ?p = "\<lambda>p. filter (\<lambda>x. x = Resource p p True) (inorder ?t) @ filter (\<lambda>x. \<not> res_point x \<and> p \<in> res_keys x) (inorder ?t)"
  let ?s = "\<lambda>s. filter (\<lambda>x. res_keys x \<inter> span_keys s \<noteq> {}) (inorder ?t)"
  have point: "(let (st, go) = (case pointAt e conf p of None \<Rightarrow> (st, True) | Some r \<Rightarrow> ?u r st)
      in if \<not> go then (st, False) else queryContainingSpans ?t p ?u st) = yield_all ?u (?p p) st" for p st
    unfolding queryContainingSpans_filter [OF inv] yield_all_append filter_point [OF inv(1)] res_invD(4) [OF assms(1)] spanContains_iff
    by (simp add: case_prod_unfold Let_def)
  have span: "queryIntervalOverlap ?t (span_Start s) (span_End s) ?u st = yield_all ?u (?s s) st" if "s \<in> set (fp_Spans fp)" for s st
  proof -
    have "span_Start s < span_End s" using that assms(2) by (simp add: spans_nonempty_def)
    moreover have "span_keys s = {span_Start s ..< span_End s}" by (auto simp: span_keys_def)
    ultimately have "filter (\<lambda>x. resourceOverlaps x (span_Start s) (span_End s)) (inorder ?t) = ?s s"
      using inv(2) by (intro filter_cong) (simp_all add: resourceOverlaps_iff)
    then show ?thesis unfolding queryIntervalOverlap_filter [OF inv] by simp
  qed
  have points: "yield_all (\<lambda>p st. let (st, go) = (case pointAt e conf p of None \<Rightarrow> (st, True) | Some r \<Rightarrow> ?u r st)
      in if \<not> go then (st, False) else queryContainingSpans ?t p ?u st) (fp_Points fp) st =
      yield_all ?u (concat (map ?p (fp_Points fp))) st" for st
    by (simp only: point yield_all_concat)
  have "yield_all (\<lambda>s st. queryIntervalOverlap ?t (span_Start s) (span_End s) ?u st) (fp_Spans fp) st =
      yield_all (\<lambda>s st. yield_all ?u (?s s) st) (fp_Spans fp) st" for st
    by (rule yield_all_cong) (rule span)
  then have spans: "yield_all (\<lambda>s st. queryIntervalOverlap ?t (span_Start s) (span_End s) ?u st) (fp_Spans fp) st =
      yield_all ?u (concat (map ?s (fp_Spans fp))) st" for st by (simp only: yield_all_concat)
  have "eachFootprintResource e conf fp yield s = snd (fst (yield_all ?u (visited e conf fp) ([], s)))"
    unfolding eachFootprintResource_def points spans visited_def yield_all_append [of ?u "concat (map ?p (fp_Points fp))"]
    by (simp only: case_prod_unfold Let_def) simp
  then show ?thesis using yield_all_unique [of yield] by simp
qed

lemma set_visited:
  assumes "res_inv e" "fp_wf fp"
  shows "set (visited e conf fp) = {x \<in> indexed e conf. res_keys x \<inter> (set (fp_Points fp) \<union> spans_keys (fp_Spans fp)) \<noteq> {}}"
proof -
  have wf: "res_wf x" if "x \<in> indexed e conf" for x using res_invD(1) [OF assms(1), of conf] that by (simp add: index_inv_def)
  have point: "x = Resource p p True \<or> \<not> res_point x \<and> p \<in> res_keys x \<longleftrightarrow> p \<in> res_keys x" if "x \<in> indexed e conf" for x p
    using wf [OF that] by (cases x) (auto simp: res_keys_def res_wf_def)
  have "x \<in> set (visited e conf fp) \<longleftrightarrow>
      x \<in> indexed e conf \<and> ((\<exists>p \<in> set (fp_Points fp). p \<in> res_keys x) \<or> (\<exists>s \<in> set (fp_Spans fp). res_keys x \<inter> span_keys s \<noteq> {}))" for x
    unfolding visited_def using point [of x] by auto
  then show ?thesis by (auto simp: spans_keys_def)
qed

text \<open>The greatest of a set of instances, zero when it is empty.\<close>

definition setMax :: "u64 set \<Rightarrow> u64" where
  "setMax A = Max (insert 0 A)"

lemma setMax_simps [simp]: "setMax {} = 0" "setMax {n} = n"
  by (simp_all add: setMax_def)

lemma setMax_Un: "finite A \<Longrightarrow> finite B \<Longrightarrow> setMax (A \<union> B) = max (setMax A) (setMax B)"
proof -
  assume "finite A" "finite B"
  then have "Max (insert 0 A \<union> insert 0 B) = max (Max (insert 0 A)) (Max (insert 0 B))" by (intro Max.union) auto
  then show ?thesis by (simp add: setMax_def)
qed

lemma maxOver_setMax: "maxOver f P A = setMax (f ` {x \<in> A. P x})"
  by (simp add: maxOver_def setMax_def)

lemma postings_max:
  assumes "res_inv e"
  shows "(case eng_store e conf x lane of None \<Rightarrow> ((a, b), True) | Some entry \<Rightarrow>
      ((max a (postingSet_max (kl_postings entry)), max b (kl_retiredFloor entry)), True)) =
    ((max a (setMax (fst (view e conf x lane))), max b (setMax {snd (view e conf x lane)})), True)"
  using res_invD(3) [OF assms, of conf x lane]
  by (auto simp: view_def setMax_def entry_wf_def postingSet_max_members split: option.split)

lemma finite_view: "res_inv e \<Longrightarrow> finite (fst (view e conf x lane))"
  using res_invD(3) [of e conf x lane] by (auto simp: view_def entry_wf_def split: option.split)

lemma fold_view_max:
  assumes "res_inv e"
  shows "fold (\<lambda>x (a, b). (max a (setMax (fst (view e conf x lane))), max b (setMax {snd (view e conf x lane)}))) xs (a, b) =
    (max a (setMax (\<Union>x \<in> set xs. fst (view e conf x lane))), max b (setMax ((\<lambda>x. snd (view e conf x lane)) ` set xs)))"
proof (induction xs arbitrary: a b)
  case (Cons y ys)
  have "setMax (insert n B) = max n (setMax B)" if "finite B" for n B using setMax_Un [of "{n}" B] that by simp
  then show ?case
    using Cons finite_view [OF assms] by (simp add: setMax_Un max.assoc)
qed simp

lemma footprintMax_view:
  fixes conf :: ConfID
  assumes "res_inv e" "fp_wf fp"
  defines "X \<equiv> {x \<in> indexed e conf. res_keys x \<inter> (set (fp_Points fp) \<union> spans_keys (fp_Spans fp)) \<noteq> {}}"
  shows "footprintMax e conf fp lane =
    (setMax (\<Union>x \<in> X. fst (view e conf x lane)), setMax ((\<lambda>x. snd (view e conf x lane)) ` X))"
proof -
  let ?xs = "fresh [] (visited e conf fp)"
  have "footprintMax e conf fp lane = fst (yield_all (\<lambda>x ab. ((max (fst ab) (setMax (fst (view e conf x lane))),
      max (snd ab) (setMax {snd (view e conf x lane)})), True)) ?xs (0, 0))"
    unfolding footprintMax_def eachFootprintResource_visited [OF assms(1,2)]
    by (simp only: case_prod_unfold postings_max [OF assms(1)])
  also have "\<dots> = fold (\<lambda>x (a, b). (max a (setMax (fst (view e conf x lane))), max b (setMax {snd (view e conf x lane)}))) ?xs (0, 0)"
    by (subst yield_all_True) (simp_all add: case_prod_unfold)
  also have "\<dots> = (setMax (\<Union>x \<in> X. fst (view e conf x lane)), setMax ((\<lambda>x. snd (view e conf x lane)) ` X))"
    unfolding fold_view_max [OF assms(1)] by (simp add: set_fresh set_visited [OF assms(1,2)] X_def)
  finally show ?thesis .
qed

text \<open>The keys of the resources of a footprint are those its points and spans name.\<close>

abbreviation named_keys :: "Footprint \<Rightarrow> bytes set" where
  "named_keys fp \<equiv> set (fp_Points fp) \<union> spans_keys (fp_Spans fp)"

lemma resource_keys: "(\<Union>x \<in> fp_resources fp. res_keys x) = named_keys fp"
proof -
  have "fp_resources fp = (\<lambda>p. Resource p p True) ` set (fp_Points fp) \<union> (\<lambda>s. Resource (span_Start s) (span_End s) False) ` set (fp_Spans fp)"
    by (simp add: footprintResources_def key_of_def image_Un image_image)
  moreover have "res_keys (Resource p p True) = {p}" "res_keys (Resource (span_Start s) (span_End s) False) = span_keys s" for p s
    by (auto simp: res_keys_def span_keys_def)
  ultimately show ?thesis by (auto simp: spans_keys_def)
qed

text \<open>A record that a footprint meets: eligible, not global, and with a key in common.\<close>

definition meets :: "Footprint \<Rightarrow> InstanceRecord \<Rightarrow> bool" where
  "meets fp rec \<longleftrightarrow> recordConflictEligible rec \<and> \<not> recordHasGlobalConflictScope rec \<and>
     named_keys (cmd_Footprint (r_Command rec)) \<inter> named_keys fp \<noteq> {}"

lemma meets_touches: "meets fp rec \<longleftrightarrow> (\<exists>x. touches rec x \<and> res_keys x \<inter> named_keys fp \<noteq> {})"
  unfolding meets_def touches_def resource_keys [symmetric, of "cmd_Footprint (r_Command rec)"] by blast

lemma view_indexed: "res_inv e \<Longrightarrow> view e conf x lane \<noteq> ({}, 0) \<Longrightarrow> x \<in> indexed e conf"
  using res_invD(2) [of e x conf] by (auto simp: view_def)

lemma setMax_UN: "finite X \<Longrightarrow> (\<And>x. x \<in> X \<Longrightarrow> finite (g x)) \<Longrightarrow> setMax ((\<lambda>x. setMax (g x)) ` X) = setMax (\<Union>x \<in> X. g x)"
proof (induction X rule: finite_induct)
  case (insert x X)
  have "setMax (insert n B) = max n (setMax B)" if "finite B" for n B using setMax_Un [of "{n}" B] that by simp
  then show ?case using insert by (simp add: setMax_Un)
qed simp

lemma footprintMax_meets:
  assumes "engine_inv e recs ret" "fp_wf fp"
  shows "footprintMax e (lane_conf lane) fp lane =
    (setMax {inst. \<exists>rec. recs (refOf lane inst) = Some rec \<and> meets fp rec},
     setMax (rec_inst ` {rec \<in> set ret. rec_lane rec = lane \<and> meets fp rec}))"
proof -
  let ?c = "lane_conf lane"
  define X where "X = {x \<in> indexed e ?c. res_keys x \<inter> named_keys fp \<noteq> {}}"
  define g where "g = (\<lambda>x. rec_inst ` {rec \<in> set ret. rec_lane rec = lane \<and> touches rec x})"
  note inv = engine_invD [OF assms(1)]
  have view: "view e ?c x lane = (postedBy recs ?c x lane, setMax (g x))" for x
    using inv(5) [of ?c x lane] by (simp add: retiredMax_def maxOver_setMax g_def)
  have fin: "finite X" "finite (g x)" for x by (simp_all add: X_def g_def)
  have resident: "x \<in> indexed e ?c" if "recs (refOf lane inst) = Some rec" "touches rec x" for inst rec x
    by (rule view_indexed [OF inv(1), of _ _ lane]) (use that in \<open>auto simp: view postedBy_def\<close>)
  have retired: "x \<in> indexed e ?c" if "rec \<in> set ret" "rec_lane rec = lane" "touches rec x" for rec x
  proof (rule view_indexed [OF inv(1), of _ _ lane])
    have "rec_inst rec \<in> g x" using that by (auto simp: g_def)
    then have "rec_inst rec \<le> setMax (g x)" using fin(2) by (simp add: setMax_def)
    moreover have "rec_inst rec \<noteq> 0" using inv(7) [OF that(1)] by (simp add: rec_ok_def)
    ultimately show "view e ?c x lane \<noteq> ({}, 0)" unfolding view by auto
  qed
  have "(\<Union>x \<in> X. postedBy recs ?c x lane) = {inst. \<exists>rec. recs (refOf lane inst) = Some rec \<and> meets fp rec}"
    unfolding X_def meets_touches postedBy_def using resident by blast
  moreover have "(\<Union>x \<in> X. g x) = rec_inst ` {rec \<in> set ret. rec_lane rec = lane \<and> meets fp rec}"
    unfolding X_def meets_touches g_def using retired by blast
  ultimately show ?thesis
    using footprintMax_view [OF inv(1) assms(2), of ?c lane] setMax_UN [OF fin] by (simp add: view flip: X_def)
qed

section \<open>The self check\<close>

lemma first_Some_None: "(\<And>x. x \<in> set xs \<Longrightarrow> f x = None) \<Longrightarrow> first_Some f xs = None"
  by (simp add: first_Some_def filter_empty_conv cong: filter_cong)

lemma verifyLane_None:
  assumes "lane_inv index recs ret lane"
  shows "verifyLane lane index = None"
proof -
  have s: "sorted_wrt steps (li_retiredSeq index)" "length (li_retiredSeq index) \<le> retiredSeqBreakpointCap"
    using assms stairs_invD(1,2) by (auto simp: lane_inv_def)
  have "steps (li_retiredSeq index ! (idx - 1)) (li_retiredSeq index ! idx)" if "1 \<le> idx" "idx < length (li_retiredSeq index)" for idx
    using s(1) that by (simp add: sorted_wrt_iff_nth_less)
  then have "\<not> list_ex (\<lambda>idx. bp_through (li_retiredSeq index ! (idx - 1)) \<ge> bp_through (li_retiredSeq index ! idx) \<or>
      bp_maxSeq (li_retiredSeq index ! (idx - 1)) \<ge> bp_maxSeq (li_retiredSeq index ! idx)) [1..<length (li_retiredSeq index)]"
    by (auto simp: list_ex_iff not_le)
  moreover have "verifyTree lane_ops (li_resident index) = None" "verifyTree posting_ops (li_pendingFold index) = None"
    using assms by (auto simp: lane_inv_def intro: verifyTree_wf)
  ultimately show ?thesis using s(2) unfolding verifyLane_def by simp
qed

lemma residentSlot_rec:
  "engine_inv e recs ret \<Longrightarrow> residentSlot e lane inst = map_option slotForRecord (recs (refOf lane inst))"
  using lane_invD(2) [OF engine_invD(2), of e recs ret lane inst]
  by (auto simp: residentSlot_def laneIndexAt_def zero_laneIndex_def laneTree_slot_def split: option.splits)

lemma yield_all_keep: "(\<And>x s. x \<in> set xs \<Longrightarrow> f x s = (s, True)) \<Longrightarrow> yield_all f xs s = (s, True)"
  by (induction xs) simp_all

lemma verifyPostings_None:
  assumes "engine_inv e recs ret"
  shows "verifyPostings e conf x lane = None"
proof (cases "eng_store e conf x lane")
  case (Some entry)
  note inv = engine_invD [OF assms]
  have lc: "lane_conf lane = conf" and wf: "posting_wf (kl_postings entry)"
    using res_invD(3) [OF inv(1) Some] by (simp_all add: entry_wf_def)
  have mem: "members (kl_postings entry) = postedBy recs conf x lane"
    using inv(5) [of conf x lane] by (simp add: view_def Some)
  let ?f = "\<lambda>inst valid. case residentSlot e lane inst of None \<Rightarrow> (False, False)
    | Some slot \<Rightarrow> if \<not> eligible slot \<or> global slot then (False, False) else (valid, True)"
  have "?f inst v = (v, True)" if "inst \<in> members (kl_postings entry)" for inst v
    using that unfolding mem by (auto simp: postedBy_def touches_def residentSlot_rec [OF assms])
  then have "walkPostingDesc l root 0 (NOT 0) False ?f True = (True, True)" if "kl_postings entry = Some (l, root)" for l root
    using that wf set_posting_entries [OF wf] unfolding walkPostingDesc_def
    by (subst walkDesc_entries [of posting_ops]) (auto intro!: yield_all_keep)
  then show ?thesis using lc verifyTree_wf [OF wf] by (auto simp: verifyPostings_def Some split: option.split)
qed (simp add: verifyPostings_def)

lemma verifyResource_None: "engine_inv e recs ret \<Longrightarrow> verifyResource e order conf t = None"
  by (induction t) (simp_all add: first_Some_None verifyPostings_None)

lemma length_entries_card:
  assumes "tree_wf ops t"
  shows "length (tree_entries t) = card (dom (treeSlot t))"
proof -
  have "sorted_wrt (>) (map fst (tree_entries t))"
    using tree_entries_descending [OF assms] by (simp add: sorted_wrt_map)
  moreover have "sorted_wrt (>) xs \<Longrightarrow> distinct xs" for xs :: "u64 list" by (induction xs) auto
  ultimately have "distinct (map fst (tree_entries t))" by blast
  then have "card (fst ` set (tree_entries t)) = length (tree_entries t)" using distinct_card by fastforce
  moreover have "fst ` set (tree_entries t) = dom (treeSlot t)"
    by (force simp: dom_def treeSlot_in_entries [OF assms, symmetric])
  ultimately show ?thesis by simp
qed

lemma lane_count:
  assumes "lane_inv index recs ret lane"
  shows "(case li_resident index of None \<Rightarrow> 0 | Some (l, root) \<Rightarrow> int (node_count (radix_agg root))) =
    int (card {ref \<in> dom recs. laneFor ref = lane})"
proof -
  let ?t = "li_resident index"
  have wf: "lane_wf ?t" and slot: "treeSlot ?t inst = map_option slotForRecord (recs (refOf lane inst))" for inst
    using lane_invD [OF assms] by (simp_all add: laneTree_slot_def)
  have "refOf lane ` dom (treeSlot ?t) = {ref \<in> dom recs. laneFor ref = lane}"
  proof (intro set_eqI iffI)
    fix ref assume "ref \<in> {ref \<in> dom recs. laneFor ref = lane}"
    then have "ref_Instance ref \<in> dom (treeSlot ?t)" "ref = refOf lane (ref_Instance ref)" by (auto simp: slot dom_def)
    then show "ref \<in> refOf lane ` dom (treeSlot ?t)" by (rule image_eqI [rotated])
  qed (auto simp: slot dom_def)
  moreover have "inj_on (refOf lane) A" for A by (auto simp: inj_on_def refOf_def)
  ultimately have card: "card {ref \<in> dom recs. laneFor ref = lane} = length (tree_entries ?t)"
    using card_image [of "refOf lane" "dom (treeSlot ?t)"] length_entries_card [OF wf] by simp
  show ?thesis
  proof (cases ?t)
    case (Some r)
    then show ?thesis
      using wf card lane.agg_count_entries [OF _ aligned_zero] by (cases r) (simp add: lane_ops_def)
  qed (use card in simp)
qed

lemma sum_lane_counts:
  assumes "engine_inv e recs ret" "distinct laneOrder" "set laneOrder = dom (eng_laneIndex e)"
  shows "sum_list (map (\<lambda>lane. case li_resident (laneIndexAt e lane) of
    None \<Rightarrow> 0 | Some (l, root) \<Rightarrow> int (node_count (radix_agg root))) laneOrder) = eng_resident e"
proof -
  note inv = engine_invD [OF assms(1)]
  have known: "laneFor ref \<in> set laneOrder" if "ref \<in> dom recs" for ref
  proof (rule ccontr)
    assume "laneFor ref \<notin> set laneOrder"
    then have "laneIndexAt e (laneFor ref) = zero_laneIndex" using assms(3) by (auto simp: laneIndexAt_def domIff)
    then show False
      using lane_invD(2) [OF inv(2) [of "laneFor ref"], of "ref_Instance ref"] that
      by (auto simp: zero_laneIndex_def laneTree_slot_def)
  qed
  have "sum_list (map (\<lambda>lane. int (card {ref \<in> dom recs. laneFor ref = lane})) laneOrder) =
      int (\<Sum>lane \<in> set laneOrder. card {ref \<in> dom recs. laneFor ref = lane})"
    using assms(2) by (simp add: sum_list_distinct_conv_sum_set)
  also have "(\<Sum>lane \<in> set laneOrder. card {ref \<in> dom recs. laneFor ref = lane}) =
      card (\<Union>lane \<in> set laneOrder. {ref \<in> dom recs. laneFor ref = lane})"
    using inv(3) by (intro card_UN_disjoint [symmetric]) auto
  also have "(\<Union>lane \<in> set laneOrder. {ref \<in> dom recs. laneFor ref = lane}) = dom recs" using known by auto
  finally show ?thesis using inv(4) by (simp add: lane_count [OF inv(2)])
qed

section \<open>Lane maxima\<close>

lemma lane_maxima:
  assumes "engine_inv e recs ret"
  shows "maxEligibleAny e lane =
      (setMax {inst. \<exists>rec. recs (refOf lane inst) = Some rec \<and> recordConflictEligible rec},
       setMax (rec_inst ` {rec \<in> set ret. rec_lane rec = lane \<and> recordConflictEligible rec}))"
    "engine_globalMax e lane =
      (setMax {inst. \<exists>rec. recs (refOf lane inst) = Some rec \<and> recordConflictEligible rec \<and> recordHasGlobalConflictScope rec},
       setMax (rec_inst ` {rec \<in> set ret. rec_lane rec = lane \<and> recordConflictEligible rec \<and> recordHasGlobalConflictScope rec}))"
proof -
  let ?i = "laneIndexAt e lane"
  note li = engine_invD(2) [OF assms, of lane]
  have wf: "lane_wf (li_resident ?i)" and slot: "treeSlot (li_resident ?i) inst = map_option slotForRecord (recs (refOf lane inst))" for inst
    using lane_invD [OF li] by (simp_all add: laneTree_slot_def)
  have entry: "x \<in> set (tree_entries (li_resident ?i)) \<longleftrightarrow> (\<exists>rec. recs (refOf lane (fst x)) = Some rec \<and> snd x = slotForRecord rec)" for x
    using treeSlot_in_entries [OF wf, of "fst x" "snd x"] slot [of "fst x"] by auto
  let ?s = "lane_summary (tree_entries (li_resident ?i))"
  have "fst ` {x \<in> set (tree_entries (li_resident ?i)). (eligible \<circ> snd) x} =
      {inst. \<exists>rec. recs (refOf lane inst) = Some rec \<and> recordConflictEligible rec}"
    by (force simp: entry image_iff)
  then have a: "node_maxEligibleAny ?s = setMax {inst. \<exists>rec. recs (refOf lane inst) = Some rec \<and> recordConflictEligible rec}"
    by (simp only: lane_summary_meaning maxOver_setMax)
  have "fst ` {x \<in> set (tree_entries (li_resident ?i)). eligible (snd x) \<and> global (snd x)} =
      {inst. \<exists>rec. recs (refOf lane inst) = Some rec \<and> recordConflictEligible rec \<and> recordHasGlobalConflictScope rec}"
    by (force simp: entry image_iff)
  then have g: "node_globalMax ?s =
      setMax {inst. \<exists>rec. recs (refOf lane inst) = Some rec \<and> recordConflictEligible rec \<and> recordHasGlobalConflictScope rec}"
    by (simp only: lane_summary_meaning maxOver_setMax)
  have any: "maxEligibleAny e lane = (node_maxEligibleAny ?s, li_retiredEligibleAny ?i)"
    "engine_globalMax e lane = (node_globalMax ?s, li_retiredGlobal ?i)"
    using lane_root_summary wf
    by (auto simp: maxEligibleAny_def engine_globalMax_def laneIndexAt_def zero_laneIndex_def lane_summary_def split: option.splits)
  show "maxEligibleAny e lane =
      (setMax {inst. \<exists>rec. recs (refOf lane inst) = Some rec \<and> recordConflictEligible rec},
       setMax (rec_inst ` {rec \<in> set ret. rec_lane rec = lane \<and> recordConflictEligible rec}))"
    using any(1) a li by (simp add: lane_inv_def retiredMax_def maxOver_setMax)
  show "engine_globalMax e lane =
      (setMax {inst. \<exists>rec. recs (refOf lane inst) = Some rec \<and> recordConflictEligible rec \<and> recordHasGlobalConflictScope rec},
       setMax (rec_inst ` {rec \<in> set ret. rec_lane rec = lane \<and> recordConflictEligible rec \<and> recordHasGlobalConflictScope rec}))"
    using any(2) g li by (simp add: lane_inv_def retiredMax_def maxOver_setMax)
qed

lemma prefixMaxSeq_index:
  "engine_prefixMaxSeq e lane through =
     max (laneTree_prefixMaxSeq (li_resident (laneIndexAt e lane)) through) (retiredPrefixMaxSeq (laneIndexAt e lane) through)"
  by (simp add: engine_prefixMaxSeq_def laneIndexAt_def zero_laneIndex_def laneTree_prefixMaxSeq_def retiredPrefixMaxSeq_def
      split: option.split)

lemma lane_entries:
  assumes "engine_inv e recs ret"
  shows "set (tree_entries (li_resident (laneIndexAt e lane))) =
    {(inst, slotForRecord rec) | inst rec. recs (refOf lane inst) = Some rec}"
proof -
  note li = lane_invD [OF engine_invD(2) [OF assms, of lane]]
  show ?thesis
    using treeSlot_in_entries [OF li(1)] li(2) by (auto simp: laneTree_slot_def)
qed

lemma bex_pairs: "(\<exists>x \<in> {(a, g b) | a b. Q a b}. P x) \<longleftrightarrow> (\<exists>a b. Q a b \<and> P (a, g b))"
  by blast

lemma prefix_truth:
  assumes "engine_inv e recs ret"
  shows "setMax ({r_Seq rec | rec inst. inst \<le> through \<and> recs (refOf lane inst) = Some rec \<and> recordConflictEligible rec} \<union>
      r_Seq ` {rec \<in> set ret. rec_lane rec = lane \<and> rec_inst rec \<le> through \<and> recordConflictEligible rec}) =
    max (laneTree_prefixMaxSeq (li_resident (laneIndexAt e lane)) through) (retiredTruth (retiredHistory ret lane) through)"
proof -
  let ?t = "li_resident (laneIndexAt e lane)"
  let ?A = "{r_Seq rec | rec inst. inst \<le> through \<and> recs (refOf lane inst) = Some rec \<and> recordConflictEligible rec}"
  let ?B = "r_Seq ` {rec \<in> set ret. rec_lane rec = lane \<and> rec_inst rec \<le> through \<and> recordConflictEligible rec}"
  have wf: "lane_wf ?t" by (rule lane_invD(1) [OF engine_invD(2) [OF assms]])
  let ?f = "filter (\<lambda>x. fst x \<le> through) (tree_entries ?t)"
  have A: "(slot_seq \<circ> snd) ` {x \<in> set ?f. (eligible \<circ> snd) x} = ?A"
  proof (rule set_eqI)
    have seq: "slot_seq (slotForRecord rec) = r_Seq rec" for rec by (simp add: slotForRecord_def)
    fix q
    have "q \<in> (slot_seq \<circ> snd) ` {x \<in> set ?f. (eligible \<circ> snd) x} \<longleftrightarrow> (\<exists>x \<in> set (tree_entries ?t). fst x \<le> through \<and> eligible (snd x) \<and> q = slot_seq (snd x))"
      by auto
    also have "\<dots> \<longleftrightarrow> q \<in> ?A"
      unfolding lane_entries [OF assms] bex_pairs by (simp add: seq) blast
    finally show "q \<in> (slot_seq \<circ> snd) ` {x \<in> set ?f. (eligible \<circ> snd) x} \<longleftrightarrow> q \<in> ?A" .
  qed
  then have "laneTree_prefixMaxSeq ?t through = setMax ?A"
    unfolding lane_prefixMaxSeq [OF wf] seqMax_def maxOver_setMax by simp
  moreover have "snd ` {x \<in> set (retiredHistory ret lane). fst x \<le> through} = ?B"
  proof (rule set_eqI)
    show "q \<in> snd ` {x \<in> set (retiredHistory ret lane). fst x \<le> through} \<longleftrightarrow> q \<in> ?B" for q
      unfolding image_iff by (auto simp: retiredHistory_def)
  qed
  then have "retiredTruth (retiredHistory ret lane) through = setMax ?B"
    unfolding retiredTruth_def maxOver_setMax by simp
  moreover have "finite ?A" unfolding A [symmetric] by simp
  ultimately show ?thesis by (simp add: setMax_Un)
qed

section \<open>Walks\<close>

lemma walkGlobalDesc_filter:
  assumes "engine_inv e recs ret"
  shows "walkGlobalDesc e lane fr yield s =
    fst (yield_all yield (filter global_entry (filter (\<lambda>x. fst x \<le> fr) (tree_entries (li_resident (laneIndexAt e lane))))) s)"
proof -
  let ?t = "li_resident (laneIndexAt e lane)"
  have wf: "lane_wf ?t" by (rule lane_invD(1) [OF engine_invD(2) [OF assms]])
  have no_zero: "0 \<notin> fst ` set (tree_entries ?t)"
  proof -
    have "recs (refOf lane 0) \<noteq> Some rec" for rec
      using engine_invD(6) [OF assms, of "refOf lane 0" rec] unfolding rec_ok_def by (metis laneFor_refOf(2))
    then show ?thesis unfolding lane_entries [OF assms] by auto
  qed
  show ?thesis
  proof (cases ?t)
    case None
    then show ?thesis by (auto simp: walkGlobalDesc_def laneIndexAt_def split: option.splits)
  next
    case (Some r)
    obtain l root where r: "r = (l, root)" by (cases r)
    have node: "node_wf lane_ops l 0 root" using wf Some r by simp
    have idx: "eng_laneIndex e lane = Some (laneIndexAt e lane)"
      using Some by (auto simp: laneIndexAt_def zero_laneIndex_def split: option.splits)
    have "walkGlobalRadixDesc l root 0 fr (in_range l 0 fr) yield s =
        walkDesc l root 0 fr (in_range l 0 fr) (global_only yield) s"
      by (rule walkGlobal_walk [OF node aligned_zero]) (use no_zero Some r in simp_all)
    also have "\<dots> = yield_all (global_only yield) (filter (\<lambda>x. fst x \<le> fr) (entries l 0 root)) s"
      by (subst walkDesc_entries [OF node aligned_zero]) (simp_all add: tree_entries_upto [OF node])
    finally have walk: "walkGlobalRadixDesc l root 0 fr (in_range l 0 fr) yield s =
        yield_all yield (filter global_entry (filter (\<lambda>x. fst x \<le> fr) (entries l 0 root))) s" by (simp only: yield_all_if)
    have "filter global_entry (filter (\<lambda>x. fst x \<le> 0) (entries l 0 root)) = []"
      using no_zero Some r by (force simp: filter_empty_conv image_iff)
    then show ?thesis
      using walk by (cases "fr = 0") (simp_all add: walkGlobalDesc_def idx Some r radixLevel_range del: filter_filter)
  qed
qed

lemma walkDesc_filter:
  assumes "engine_inv e recs ret"
  shows "engine_walkDesc e lane fr yield s =
    fst (yield_all yield (filter (\<lambda>x. fst x \<le> fr) (tree_entries (li_resident (laneIndexAt e lane)))) s)"
proof -
  have "fst (laneTree_walkDesc (li_resident (laneIndexAt e lane)) fr yield s) = engine_walkDesc e lane fr yield s"
    by (simp add: engine_walkDesc_def laneIndexAt_def zero_laneIndex_def laneTree_walkDesc_def treeWalkDesc_def split: option.split)
  moreover have "lane_wf (li_resident (laneIndexAt e lane))" by (rule lane_invD(1) [OF engine_invD(2) [OF assms]])
  ultimately show ?thesis by (simp add: laneTree_walkDesc_def treeWalkDesc_entries)
qed

lemma entries_descend:
  assumes "engine_inv e recs ret"
  shows "sorted_wrt (>) (map fst (filter P (tree_entries (li_resident (laneIndexAt e lane)))))"
  using sorted_wrt_filter [OF tree_entries_descending [OF lane_invD(1) [OF engine_invD(2) [OF assms]]]]
  by (simp add: sorted_wrt_map)

section \<open>An engine to look at\<close>

text \<open>Two commands of one replica: instance 1 writes the key \<open>[1]\<close>, and instance 64 the key \<open>[2]\<close>.\<close>

definition exRec :: "InstanceNum \<Rightarrow> bytes \<Rightarrow> InstanceRecord" where
  "exRec inst key = zero_record\<lparr>r_Ref := InstanceRef 1 inst 1, r_Status := StatusPreAccepted, r_Seq := 1, r_Kind := EntryCommand,
     r_Command := zero_command\<lparr>cmd_Footprint := \<lparr>fp_Points = [key], fp_Spans = [], fp_All = False\<rparr>\<rparr>\<rparr>"

definition exEngine :: conflictEngine where
  "exEngine = engine_apply (engine_apply zero_engine None (exRec 1 [1])) None (exRec 64 [2])"

definition exRecs :: residents where
  "exRecs = [InstanceRef 1 1 1 \<mapsto> exRec 1 [1], InstanceRef 1 64 1 \<mapsto> exRec 64 [2]]"

definition exLane :: instanceLane where
  "exLane = \<lparr>lane_conf = 1, lane_replica = 1\<rparr>"

definition exFp :: Footprint where
  "exFp = \<lparr>fp_Points = [[1], [2]], fp_Spans = [], fp_All = False\<rparr>"

lemma exRec_simps [simp]:
  "r_Ref (exRec inst key) = InstanceRef 1 inst 1" "r_Command (exRec inst key) =
     zero_command\<lparr>cmd_Footprint := \<lparr>fp_Points = [key], fp_Spans = [], fp_All = False\<rparr>\<rparr>"
  "inst \<noteq> 0 \<Longrightarrow> rec_ok (exRec inst key)"
  by (simp_all add: exRec_def rec_ok_def spans_nonempty_def)

lemma exEngine_reach: "engine_reach exEngine exRecs []"
proof -
  have "engine_reach (engine_apply zero_engine None (exRec 1 [1])) [InstanceRef 1 1 1 \<mapsto> exRec 1 [1]] []"
    using reach_apply [OF reach_zero, of None "exRec 1 [1]"] by (simp add: replaces_def)
  then show ?thesis
    using reach_apply [of "engine_apply zero_engine None (exRec 1 [1])" _ _ None "exRec 64 [2]"]
    by (simp add: replaces_def exEngine_def exRecs_def)
qed

lemma insertPosting_lanes [simp]:
  "eng_laneIndex (fold (insertPosting conf lane inst) rs e) = eng_laneIndex e"
proof (induction rs arbitrary: e)
  case (Cons r rs)
  have "eng_laneIndex (insertPosting conf lane inst r e) = eng_laneIndex e"
    by (cases r) (auto simp: insertPosting_def ensureResource_def ensureEntry_def putKeyLane_def Let_def split: option.splits)
  then show ?case using Cons by simp
qed simp

lemma engine_apply_lanes:
  "dom (eng_laneIndex (engine_apply e None rec)) = insert (rec_lane rec) (dom (eng_laneIndex e))"
  by (auto simp: engine_apply_def ensureLane_def putLane_def Let_def split: option.splits)

section \<open>Properties\<close>

text \<open>
  C11. Whatever sequence of updates a node makes, the self check of the engine passes: the summaries
  of every radix tree are those of its entries, the staircases increase and keep to their bound,
  the count of resident records is right, every stored lane belongs to its configuration, and every
  posting leads to an eligible resident record that is not global. The orders in which the three
  maps are ranged over do not matter.
\<close>

theorem verify_reachable:
  assumes "engine_reach e recs ret" "distinct laneOrder" "set laneOrder = dom (eng_laneIndex e)"
  shows "verify e laneOrder confOrder order = None"
proof -
  note inv = engine_reach_inv [OF assms(1)]
  have "first_Some (\<lambda>lane. verifyLane lane (laneIndexAt e lane)) laneOrder = None"
    using verifyLane_None engine_invD(2) [OF inv] by (intro first_Some_None) blast
  then show ?thesis
    using sum_lane_counts [OF inv assms(2,3)] unfolding verify_def
    by (simp add: first_Some_None verifyResource_None [OF inv])
qed

theorem verify_reachable_witness: "verify exEngine [exLane] [1] (\<lambda>_ _. [exLane]) = None"
proof (rule verify_reachable [OF exEngine_reach])
  show "set [exLane] = dom (eng_laneIndex exEngine)"
    unfolding exEngine_def engine_apply_lanes by (simp add: zero_engine_def exLane_def laneFor_def)
qed simp

text \<open>
  C3. \<^verbatim>\<open>footprintMax\<close> is a search through the records: for a lane of the configuration it gives
  the greatest resident instance and the greatest retired instance whose record is eligible, not
  global and shares a key with the footprint. For two valid footprints, neither of them the whole
  key space, sharing a key is what \<^verbatim>\<open>footprintsConflict\<close> decides.
\<close>

theorem footprintMax_exact:
  assumes "engine_reach e recs ret" "fp_wf fp"
  shows "footprintMax e (lane_conf lane) fp lane =
      (setMax {inst. \<exists>rec. recs (refOf lane inst) = Some rec \<and> meets fp rec},
       setMax (rec_inst ` {rec \<in> set ret. rec_lane rec = lane \<and> meets fp rec})) \<and>
    (fp_valid fp \<and> \<not> fp_All fp \<and> fp_valid (cmd_Footprint (r_Command rec)) \<and> \<not> fp_All (cmd_Footprint (r_Command rec)) \<longrightarrow>
      (meets fp rec \<longleftrightarrow> recordConflictEligible rec \<and> \<not> recordHasGlobalConflictScope rec \<and>
        footprintsConflict (cmd_Footprint (r_Command rec)) fp))"
  using footprintMax_meets [OF engine_reach_inv [OF assms(1)] assms(2)] footprintsConflict_iff
  by (auto simp: meets_def fp_keys_def)

theorem footprintMax_exact_witness:
  "footprintMax exEngine 1 exFp exLane = (setMax {inst. \<exists>rec. exRecs (refOf exLane inst) = Some rec \<and> meets exFp rec}, 0)"
  using footprintMax_exact [OF exEngine_reach, of exFp exLane] by (simp add: exFp_def spans_nonempty_def exLane_def)

text \<open>
  C17. \<^verbatim>\<open>prefixMaxSeq\<close> never answers below the greatest sequence number of an eligible record of the
  lane at or before the bound, resident or retired, and answers exactly that number unless the lane
  dropped steps of its staircase and the bound lies before the first step it kept.
\<close>

theorem prefixMaxSeq_covers:
  fixes lane through and recs :: residents and ret :: "InstanceRecord list"
  assumes "engine_reach e recs ret"
  defines "truth \<equiv> setMax ({r_Seq rec | rec inst. inst \<le> through \<and> recs (refOf lane inst) = Some rec \<and> recordConflictEligible rec} \<union>
    r_Seq ` {rec \<in> set ret. rec_lane rec = lane \<and> rec_inst rec \<le> through \<and> recordConflictEligible rec})"
  shows "truth \<le> engine_prefixMaxSeq e lane through \<and>
    (engine_prefixMaxSeq e lane through = truth \<or>
     li_seqCompressed (laneIndexAt e lane) \<and> through < bp_through (hd (li_retiredSeq (laneIndexAt e lane))))"
proof -
  have eq: "truth = max (laneTree_prefixMaxSeq (li_resident (laneIndexAt e lane)) through) (retiredTruth (retiredHistory ret lane) through)"
    unfolding truth_def by (rule prefix_truth [OF engine_reach_inv [OF assms(1)]])
  have st: "stairs_inv (laneIndexAt e lane) (retiredHistory ret lane)"
    using engine_invD(2) [OF engine_reach_inv [OF assms(1)], of lane] by (simp add: lane_inv_def)
  show ?thesis
    unfolding eq prefixMaxSeq_index using stairs_inv_ge [OF st, of through] stairs_inv_lookup(1) [OF st, of through]
    by (metis max.mono order_refl)
qed

theorem prefixMaxSeq_covers_witness:
  "setMax {r_Seq rec | rec inst. inst \<le> 64 \<and> exRecs (refOf exLane inst) = Some rec \<and> recordConflictEligible rec} \<le>
     engine_prefixMaxSeq exEngine exLane 64"
  using prefixMaxSeq_covers [OF exEngine_reach, of 64 exLane] by simp

text \<open>
  C18. \<^verbatim>\<open>walkDesc\<close> and \<^verbatim>\<open>walkGlobalDesc\<close> visit, from the greatest instance down, exactly the resident
  records of the lane up to the starting instance, and exactly those that are eligible and global;
  the second skips the subtrees whose summary shows no global record.
\<close>

theorem walks_exact:
  assumes "engine_reach e recs ret"
  shows "(\<exists>es. sorted_wrt (>) (map fst es) \<and>
      set es = {(inst, slotForRecord rec) | inst rec. inst \<le> fr \<and> recs (refOf lane inst) = Some rec} \<and>
      engine_walkDesc e lane fr yield s = fst (yield_all yield es s)) \<and>
    (\<exists>es. sorted_wrt (>) (map fst es) \<and>
      set es = {(inst, slotForRecord rec) | inst rec. inst \<le> fr \<and> recs (refOf lane inst) = Some rec \<and>
        recordConflictEligible rec \<and> recordHasGlobalConflictScope rec} \<and>
      walkGlobalDesc e lane fr yield s = fst (yield_all yield es s))"
proof (intro conjI exI)
  note inv = engine_reach_inv [OF assms]
  let ?es = "tree_entries (li_resident (laneIndexAt e lane))"
  show "sorted_wrt (>) (map fst (filter (\<lambda>x. fst x \<le> fr) ?es))" by (rule entries_descend [OF inv])
  show "sorted_wrt (>) (map fst (filter (\<lambda>x. fst x \<le> fr \<and> global_entry x) ?es))" by (rule entries_descend [OF inv])
  show "set (filter (\<lambda>x. fst x \<le> fr) ?es) = {(inst, slotForRecord rec) | inst rec. inst \<le> fr \<and> recs (refOf lane inst) = Some rec}"
    unfolding set_filter lane_entries [OF inv] by auto
  show "set (filter (\<lambda>x. fst x \<le> fr \<and> global_entry x) ?es) =
      {(inst, slotForRecord rec) | inst rec. inst \<le> fr \<and> recs (refOf lane inst) = Some rec \<and>
        recordConflictEligible rec \<and> recordHasGlobalConflictScope rec}"
    unfolding set_filter lane_entries [OF inv] by auto
  show "engine_walkDesc e lane fr yield s = fst (yield_all yield (filter (\<lambda>x. fst x \<le> fr) ?es) s)"
    by (rule walkDesc_filter [OF inv])
  show "walkGlobalDesc e lane fr yield s = fst (yield_all yield (filter (\<lambda>x. fst x \<le> fr \<and> global_entry x) ?es) s)"
    using walkGlobalDesc_filter [OF inv, of lane fr yield s] by (simp add: conj_commute conj_left_commute)
qed

theorem walks_exact_witness:
  "\<exists>es. set es = {(inst, slotForRecord rec) | inst rec. inst \<le> 64 \<and> exRecs (refOf exLane inst) = Some rec} \<and>
     engine_walkDesc exEngine exLane 64 (\<lambda>x s. (x # s, True)) [] = fst (yield_all (\<lambda>x s. (x # s, True)) es [])"
  using walks_exact [OF exEngine_reach, of 64 exLane "\<lambda>x s. (x # s, True)" "[]"] by blast

text \<open>
  C19. The fold watermark of a lane can always be moved over what has been folded: when the records
  of all instances up to a bound at or above the watermark have been folded, in whatever order,
  \<^verbatim>\<open>advanceFold\<close> does not panic, and the watermark is then at the bound. \<^verbatim>\<open>canAdvanceFold\<close> decides
  whether that is the case.
\<close>

theorem fold_advances:
  assumes "engine_reach e recs ret" "foldedThrough e lane \<le> through"
  shows "(canAdvanceFold e lane through \<longleftrightarrow>
      (\<forall>inst. 0 < inst \<and> inst \<le> through \<longrightarrow> (\<exists>rec \<in> set ret. r_Ref rec = refOf lane inst))) \<and>
    (canAdvanceFold e lane through \<longrightarrow>
      (\<exists>e'. advanceFold e lane through = Some e' \<and> engine_reach e' recs ret \<and> foldedThrough e' lane = through))"
proof -
  note inv = engine_reach_inv [OF assms(1)]
  show ?thesis
    using canAdvanceFold_iff [OF inv assms(2)] advanceFold_total [OF inv assms(2)] reach_advance [OF assms(1)] by blast
qed

theorem fold_advances_witness:
  "\<exists>e'. advanceFold (foldRecord exEngine (exRec 1 [1])) exLane 1 = Some e' \<and> foldedThrough e' exLane = 1"
proof -
  have "foldedThrough exEngine exLane = 0" by code_simp
  then have "engine_reach (foldRecord exEngine (exRec 1 [1])) (exRecs(InstanceRef 1 1 1 := None)) [exRec 1 [1]]"
    using reach_fold [OF exEngine_reach, of "exRec 1 [1]"] by (simp add: exRecs_def exLane_def laneFor_def)
  moreover have "canAdvanceFold (foldRecord exEngine (exRec 1 [1])) exLane 1" "foldedThrough (foldRecord exEngine (exRec 1 [1])) exLane \<le> 1"
    by code_simp+
  ultimately show ?thesis using fold_advances [of "foldRecord exEngine (exRec 1 [1])"] by blast
qed

text \<open>
  C40. \<^verbatim>\<open>walkFootprintDesc\<close> does not visit every conflicting record up to its starting point. In an
  engine where instance 1 writes one key and instance 64 another, the query for both keys starts at
  the greatest posting of either, 64, and visits 64 alone: the walk of the postings of the first key
  uses the digits of 64 as a limit in a tree that does not reach that far.
\<close>

theorem walkFootprintDesc_skips:
  "engine_reach exEngine exRecs [] \<and> meets exFp (exRec 1 [1]) \<and> exRecs (refOf exLane 1) = Some (exRec 1 [1]) \<and>
   fst (footprintMax exEngine 1 exFp exLane) = 64 \<and>
   walkFootprintDesc exEngine 1 exFp exLane 64 (\<lambda>x s. (s @ [fst x], True)) [] = [64]"
proof (intro conjI)
  show "engine_reach exEngine exRecs []" by (rule exEngine_reach)
  show "meets exFp (exRec 1 [1])"
    by (simp add: meets_def exFp_def recordConflictEligible_def recordHasGlobalConflictScope_def entryHasGlobalConflictScope_def
        exRec_def zero_record_def)
  show "exRecs (refOf exLane 1) = Some (exRec 1 [1])"
    by (simp add: exRecs_def refOf_def exLane_def)
  show "fst (footprintMax exEngine 1 exFp exLane) = 64" by code_simp
  show "walkFootprintDesc exEngine 1 exFp exLane 64 (\<lambda>x s. (s @ [fst x], True)) [] = [64]" by code_simp
qed

end
