(* ===== verification/VoteSet.thy ===== *)
theory VoteSet
  imports Quorum Records
begin

text \<open>
  \<^verbatim>\<open>epaxos/vote_set.go\<close>: votes of a configuration's replicas, one slot per voter, and what
  \<^verbatim>\<open>epaxos/node.go\<close> computes from them (\<^verbatim>\<open>attrsFromVotes\<close>). The fixed arrays \<^verbatim>\<open>[7]T\<close> are lists of
  length seven, the mask an 8-bit word; a nil receiver is \<open>None\<close>. A method that writes through
  its pointer returns the new value beside its result. A slot of seven or more panics in
  the source; no configuration of at most seven voters reaches that, and the list update
  does nothing there.
\<close>

section \<open>The code\<close>

type_synonym voterMask = u8

definition hasSlot :: "voterMask \<Rightarrow> nat \<Rightarrow> bool" where
  "hasSlot m slot \<longleftrightarrow> slot < 7 \<and> m AND push_bit slot 1 \<noteq> 0"

definition mask_add :: "voterMask option \<Rightarrow> ConfState \<Rightarrow> ReplicaID \<Rightarrow> voterMask option \<times> bool" where
  "mask_add mp conf sender =
     (case mp of
        None \<Rightarrow> (None, False)
      | Some m \<Rightarrow>
          if length (conf_Voters conf) < 1 \<or> length (conf_Voters conf) > 7 then (Some m, False)
          else
            let (slot, ok) = conf_Index conf sender in
            if \<not> ok \<or> hasSlot m slot then (Some m, False)
            else (Some (m OR push_bit slot 1), True))"

definition mask_has :: "voterMask \<Rightarrow> ConfState \<Rightarrow> ReplicaID \<Rightarrow> bool" where
  "mask_has m conf sender = (let (slot, ok) = conf_Index conf sender in ok \<and> hasSlot m slot)"

text \<open>Kernighan's loop: each turn clears the lowest bit that is set.\<close>

function mask_len :: "voterMask \<Rightarrow> nat" where
  "mask_len m = (if m \<noteq> 0 then 1 + mask_len (m AND (m - 1)) else 0)"
  by pat_completeness auto

record attrVote =
  av_seq :: u64
  av_deps :: "InstanceNum list"
  av_width :: u8
  av_depsCommitted :: u64
  av_fastPathEligible :: bool

definition zero_attrVote :: attrVote where
  "zero_attrVote = \<lparr>av_seq = 0, av_deps = replicate 7 0, av_width = 0, av_depsCommitted = 0,
     av_fastPathEligible = False\<rparr>"

definition newAttrVote ::
  "ConfState \<Rightarrow> u64 \<Rightarrow> InstanceNum list \<Rightarrow> u64 \<Rightarrow> bool \<Rightarrow> attrVote \<times> bool" where
  "newAttrVote conf seq deps depsCommitted fastPathEligible =
     (if length (conf_Voters conf) < 1 \<or> length (conf_Voters conf) > 7 \<or>
         length deps \<noteq> length (conf_Voters conf)
      then (zero_attrVote, False)
      else (\<lparr>av_seq = seq, av_deps = take 7 deps @ replicate (7 - length deps) 0,
              av_width = of_nat (length deps), av_depsCommitted = depsCommitted,
              av_fastPathEligible = fastPathEligible\<rparr>, True))"

definition vote_attributes :: "attrVote option \<Rightarrow> Attributes" where
  "vote_attributes vp =
     (case vp of
        None \<Rightarrow> zero_attrs
      | Some v \<Rightarrow>
          if av_width v = 0 \<or> av_width v > 7 then zero_attrs
          else \<lparr>at_Seq = av_seq v, at_Deps = take (unat (av_width v)) (av_deps v)\<rparr>)"

record attrVoteSet =
  avs_mask :: voterMask
  avs_votes :: "attrVote list"

definition attrVoteSet_add ::
  "attrVoteSet option \<Rightarrow> ConfState \<Rightarrow> ReplicaID \<Rightarrow> attrVote \<Rightarrow> attrVoteSet option \<times> bool" where
  "attrVoteSet_add sp conf sender vote =
     (case sp of
        None \<Rightarrow> (None, False)
      | Some s \<Rightarrow>
          if unat (av_width vote) \<noteq> length (conf_Voters conf) then (Some s, False)
          else
            let (slot, ok) = conf_Index conf sender in
            if \<not> ok \<or> hasSlot (avs_mask s) slot then (Some s, False)
            else (Some (s\<lparr>avs_votes := (avs_votes s)[slot := vote],
                        avs_mask := avs_mask s OR push_bit slot 1\<rparr>), True))"

definition attrVoteSet_has :: "attrVoteSet option \<Rightarrow> ConfState \<Rightarrow> ReplicaID \<Rightarrow> bool" where
  "attrVoteSet_has sp conf sender =
     (case sp of None \<Rightarrow> False | Some s \<Rightarrow> mask_has (avs_mask s) conf sender)"

definition attrVoteSet_get :: "attrVoteSet option \<Rightarrow> ConfState \<Rightarrow> ReplicaID \<Rightarrow> attrVote option" where
  "attrVoteSet_get sp conf sender =
     (case sp of
        None \<Rightarrow> None
      | Some s \<Rightarrow>
          let (slot, ok) = conf_Index conf sender in
          if \<not> ok \<or> \<not> hasSlot (avs_mask s) slot then None else Some (avs_votes s ! slot))"

definition attrVoteSet_len :: "attrVoteSet option \<Rightarrow> nat" where
  "attrVoteSet_len sp = (case sp of None \<Rightarrow> 0 | Some s \<Rightarrow> mask_len (avs_mask s))"

text \<open>The loop of \<^verbatim>\<open>each\<close>: the slots of the mask in voter order, until the callback stops it.\<close>

fun each_slot ::
  "(nat \<Rightarrow> 'v) \<Rightarrow> voterMask \<Rightarrow> nat \<Rightarrow> ReplicaID list \<Rightarrow> (ReplicaID \<Rightarrow> 'v \<Rightarrow> 's \<Rightarrow> 's \<times> bool) \<Rightarrow> 's \<Rightarrow> 's" where
  "each_slot vs m slot [] fn s = s"
| "each_slot vs m slot (sender # voters) fn s =
     (if hasSlot m slot
      then let (s', go) = fn sender (vs slot) s in
           if \<not> go then s' else each_slot vs m (Suc slot) voters fn s'
      else each_slot vs m (Suc slot) voters fn s)"

definition attrVoteSet_each ::
  "attrVoteSet option \<Rightarrow> ConfState \<Rightarrow> (ReplicaID \<Rightarrow> attrVote \<Rightarrow> 's \<Rightarrow> 's \<times> bool) \<Rightarrow> 's \<Rightarrow> 's" where
  "attrVoteSet_each sp conf fn st =
     (case sp of
        None \<Rightarrow> st
      | Some s \<Rightarrow> each_slot (\<lambda>i. avs_votes s ! i) (avs_mask s) 0 (conf_Voters conf) fn st)"

text \<open>The loop of \<^verbatim>\<open>reset\<close>: only the slots of the mask are cleared.\<close>

fun reset_slots :: "'v \<Rightarrow> voterMask \<Rightarrow> nat \<Rightarrow> 'v list \<Rightarrow> 'v list" where
  "reset_slots z m slot [] = []"
| "reset_slots z m slot (v # vs) = (if hasSlot m slot then z else v) # reset_slots z m (Suc slot) vs"

definition attrVoteSet_reset :: "attrVoteSet option \<Rightarrow> attrVoteSet option" where
  "attrVoteSet_reset sp =
     (case sp of
        None \<Rightarrow> None
      | Some s \<Rightarrow> Some (s\<lparr>avs_votes := reset_slots zero_attrVote (avs_mask s) 0 (avs_votes s), avs_mask := 0\<rparr>))"

record recordVoteSet =
  rvs_mask :: voterMask
  rvs_records :: "InstanceRecord list"

definition recordVoteSet_add ::
  "recordVoteSet option \<Rightarrow> ConfState \<Rightarrow> ReplicaID \<Rightarrow> InstanceRecord \<Rightarrow> recordVoteSet option \<times> bool" where
  "recordVoteSet_add sp conf sender rec =
     (case sp of
        None \<Rightarrow> (None, False)
      | Some s \<Rightarrow>
          if length (conf_Voters conf) < 1 \<or> length (conf_Voters conf) > 7 then (Some s, False)
          else
            let (slot, ok) = conf_Index conf sender in
            if \<not> ok \<or> hasSlot (rvs_mask s) slot then (Some s, False)
            else (Some (s\<lparr>rvs_records := (rvs_records s)[slot := rec],
                        rvs_mask := rvs_mask s OR push_bit slot 1\<rparr>), True))"

definition recordVoteSet_get :: "recordVoteSet option \<Rightarrow> ConfState \<Rightarrow> ReplicaID \<Rightarrow> InstanceRecord option" where
  "recordVoteSet_get sp conf sender =
     (case sp of
        None \<Rightarrow> None
      | Some s \<Rightarrow>
          let (slot, ok) = conf_Index conf sender in
          if \<not> ok \<or> \<not> hasSlot (rvs_mask s) slot then None else Some (rvs_records s ! slot))"

definition recordVoteSet_len :: "recordVoteSet option \<Rightarrow> nat" where
  "recordVoteSet_len sp = (case sp of None \<Rightarrow> 0 | Some s \<Rightarrow> mask_len (rvs_mask s))"

definition recordVoteSet_each ::
  "recordVoteSet option \<Rightarrow> ConfState \<Rightarrow> (ReplicaID \<Rightarrow> InstanceRecord \<Rightarrow> 's \<Rightarrow> 's \<times> bool) \<Rightarrow> 's \<Rightarrow> 's" where
  "recordVoteSet_each sp conf fn st =
     (case sp of
        None \<Rightarrow> st
      | Some s \<Rightarrow> each_slot (\<lambda>i. rvs_records s ! i) (rvs_mask s) 0 (conf_Voters conf) fn st)"

definition recordVoteSet_reset :: "recordVoteSet option \<Rightarrow> recordVoteSet option" where
  "recordVoteSet_reset sp =
     (case sp of
        None \<Rightarrow> None
      | Some s \<Rightarrow> Some (s\<lparr>rvs_records := reset_slots zero_record (rvs_mask s) 0 (rvs_records s), rvs_mask := 0\<rparr>))"

text \<open>
  The pools: \<open>Get\<close> hands out some set that was put back, or a new one; \<open>New\<close> is the zero set.
  The set taken from the pool is reset before use.
\<close>

definition newAttrVoteSet :: attrVoteSet where
  "newAttrVoteSet = \<lparr>avs_mask = 0, avs_votes = replicate 7 zero_attrVote\<rparr>"

definition newRecordVoteSet :: recordVoteSet where
  "newRecordVoteSet = \<lparr>rvs_mask = 0, rvs_records = replicate 7 zero_record\<rparr>"

definition getAttrVoteSet :: "attrVoteSet \<Rightarrow> attrVoteSet option" where
  "getAttrVoteSet pooled = attrVoteSet_reset (Some pooled)"

definition getRecordVoteSet :: "recordVoteSet \<Rightarrow> recordVoteSet option" where
  "getRecordVoteSet pooled = recordVoteSet_reset (Some pooled)"

definition putAttrVoteSet :: "attrVoteSet list \<Rightarrow> attrVoteSet option \<Rightarrow> attrVoteSet list" where
  "putAttrVoteSet pool sp =
     (case attrVoteSet_reset sp of None \<Rightarrow> pool | Some s \<Rightarrow> s # pool)"

definition putRecordVoteSet :: "recordVoteSet list \<Rightarrow> recordVoteSet option \<Rightarrow> recordVoteSet list" where
  "putRecordVoteSet pool sp =
     (case recordVoteSet_reset sp of None \<Rightarrow> pool | Some s \<Rightarrow> s # pool)"

definition attrsFromVotes :: "ConfState \<Rightarrow> attrVoteSet option \<Rightarrow> Attributes" where
  "attrsFromVotes conf votes =
     attrVoteSet_each votes conf (\<lambda>_ vote out. (mergeAttrs out (vote_attributes (Some vote)), True)) zero_attrs"

section \<open>Counting the bits of a mask\<close>

definition bits_of :: "'a::semiring_bits \<Rightarrow> nat set" where
  "bits_of x = {i. bit x i}"

lemma bits_of_split: "bits_of (n::nat) = (if odd n then {0} else {}) \<union> Suc ` bits_of (n div 2)"
proof (rule set_eqI)
  show "i \<in> bits_of n \<longleftrightarrow> i \<in> (if odd n then {0} else {}) \<union> Suc ` bits_of (n div 2)" for i
    by (cases i) (auto simp: bits_of_def bit_Suc bit_0)
qed

lemma bits_of_zero [simp]: "bits_of (0::nat) = {}"
  by (simp add: bits_of_def)

lemma bits_of_double [simp]: "bits_of (2 * n) = Suc ` bits_of (n::nat)"
  by (subst bits_of_split) simp

lemma clear_lowest_nat:
  "finite (bits_of n) \<and> (0 < n \<longrightarrow> card (bits_of n) = Suc (card (bits_of (n AND (n - 1)))))" for n :: nat
proof (induction n rule: less_induct)
  case (less n)
  show ?case
  proof (cases "n = 0")
    case False
    then have half: "finite (bits_of (n div 2))" and split: "bits_of n = (if odd n then {0} else {}) \<union> Suc ` bits_of (n div 2)"
      using less bits_of_split [of n] by auto
    have rec: "n AND (n - 1) = 2 * ((n div 2) AND ((n - 1) div 2))"
      by (subst and_rec) auto
    show ?thesis
    proof (cases "odd n")
      case True
      then have "(n - 1) div 2 = n div 2" by (auto elim: oddE)
      then have "bits_of (n AND (n - 1)) = Suc ` bits_of (n div 2)"
        unfolding rec by (simp only: and.idem bits_of_double)
      with True half split show ?thesis by (simp add: card_image card_insert_if image_iff)
    next
      case even: False
      then have "(n - 1) div 2 = n div 2 - 1" "0 < n div 2" using False by (auto elim: evenE)
      with even half split rec less [of "n div 2"] False show ?thesis by (simp add: card_image)
    qed
  qed simp
qed

lemma bits_of_unat: "bits_of (w::'a::len word) = bits_of (unat w)"
  by (simp add: bits_of_def bit_unsigned_iff)

lemma clear_lowest:
  fixes w :: "'a::len word"
  assumes "w \<noteq> 0"
  shows "unat (w AND (w - 1)) < unat w" "card (bits_of w) = Suc (card (bits_of (w AND (w - 1))))"
proof -
  have eq: "unat (w AND (w - 1)) = unat w AND (unat w - 1)" and pos: "0 < unat w"
    using assms by (simp_all add: unsigned_and_eq unat_minus_one unat_gt_0)
  have "unat (w AND (w - 1)) \<le> unat (w - 1)"
    using word_and_le1 [of w "w - 1"] by (simp only: word_le_nat_alt)
  with pos assms show "unat (w AND (w - 1)) < unat w" by (simp add: unat_minus_one)
  show "card (bits_of w) = Suc (card (bits_of (w AND (w - 1))))"
    using clear_lowest_nat [of "unat w"] eq pos by (simp add: bits_of_unat)
qed

termination mask_len
  by (relation "measure unat") (simp_all add: clear_lowest)

declare mask_len.simps [simp del]

lemma mask_len_bits: "mask_len m = card (bits_of m)"
proof (induction m rule: mask_len.induct)
  case (1 m)
  then show ?case
    using clear_lowest(2) [of m] by (cases "m = 0") (simp_all add: mask_len.simps bits_of_unat)
qed

section \<open>Slots\<close>

lemma hasSlot_iff: "hasSlot m i \<longleftrightarrow> i < 7 \<and> bit m i"
  by (auto simp: hasSlot_def)

lemma bits_of_or: "i < 8 \<Longrightarrow> bits_of (m OR push_bit i 1 :: u8) = insert i (bits_of m)"
  by (auto simp: bits_of_def bit_or_iff bit_exp_iff)

lemma hasSlot_or: "i < 7 \<Longrightarrow> hasSlot (m OR push_bit i 1) j \<longleftrightarrow> hasSlot m j \<or> j = i"
  by (auto simp: hasSlot_iff bit_or_iff bit_exp_iff)

lemma reset_slots_nth:
  "length (reset_slots z m k vs) = length vs \<and>
   (\<forall>i < length vs. reset_slots z m k vs ! i = (if hasSlot m (k + i) then z else vs ! i))"
proof (induction vs arbitrary: k)
  case (Cons v vs)
  then show ?case by (auto simp: nth_Cons less_Suc_eq_0_disj split: nat.split)
qed simp

fun slot_votes :: "(nat \<Rightarrow> 'v) \<Rightarrow> voterMask \<Rightarrow> nat \<Rightarrow> ReplicaID list \<Rightarrow> (ReplicaID \<times> 'v) list" where
  "slot_votes vs m k [] = []"
| "slot_votes vs m k (r # rs) = (if hasSlot m k then [(r, vs k)] else []) @ slot_votes vs m (Suc k) rs"

lemma each_slot_yield_all:
  "each_slot vs m k voters fn s = fst (yield_all (\<lambda>(r, v). fn r v) (slot_votes vs m k voters) s)"
  by (induction voters arbitrary: k s) (simp_all add: split_def yield_all_append Let_def)

text \<open>The store of a vote set for a configuration: what the two set types have in common.\<close>

definition slots_inv :: "'v \<Rightarrow> ConfState \<Rightarrow> voterMask \<Rightarrow> 'v list \<Rightarrow> bool" where
  "slots_inv z c m vs \<longleftrightarrow> length vs = 7 \<and> bits_of m \<subseteq> {..<length (conf_Voters c)} \<and>
     (\<forall>i < 7. \<not> hasSlot m i \<longrightarrow> vs ! i = z)"

definition slots_get :: "ConfState \<Rightarrow> voterMask \<Rightarrow> 'v list \<Rightarrow> ReplicaID \<Rightarrow> 'v option" where
  "slots_get c m vs r =
     (let (slot, ok) = conf_Index c r in if \<not> ok \<or> \<not> hasSlot m slot then None else Some (vs ! slot))"

lemma slots_get_nth:
  "conf_wf c \<Longrightarrow> i < length (conf_Voters c) \<Longrightarrow>
     slots_get c m vs (conf_Voters c ! i) = (if hasSlot m i then Some (vs ! i) else None)"
  by (simp add: slots_get_def conf_Index_nth)

lemma slots_get_voter: "slots_get c m vs r = Some v \<Longrightarrow> r \<in> set (conf_Voters c)"
  by (auto simp: slots_get_def split: prod.splits if_splits dest: conf_Index_True)

lemma slot_votes_get:
  assumes "conf_wf c"
  shows "conf_Voters c = pre @ rs \<Longrightarrow>
    slot_votes (\<lambda>i. vs ! i) m (length pre) rs = List.map_filter (\<lambda>r. map_option (Pair r) (slots_get c m vs r)) rs"
proof (induction rs arbitrary: pre)
  case (Cons r rs)
  then have "slots_get c m vs r = (if hasSlot m (length pre) then Some (vs ! length pre) else None)"
    using slots_get_nth [OF assms, of "length pre" m vs] by simp
  moreover have "slot_votes (\<lambda>i. vs ! i) m (Suc (length pre)) rs =
      List.map_filter (\<lambda>r. map_option (Pair r) (slots_get c m vs r)) rs"
    using Cons.IH [of "pre @ [r]"] Cons.prems by simp
  ultimately show ?case by (simp add: map_filter_simps)
qed (simp add: map_filter_simps)

lemma slots_len:
  assumes "conf_wf c" "slots_inv z c m vs"
  shows "mask_len m = card {r \<in> set (conf_Voters c). slots_get c m vs r \<noteq> None}"
proof -
  have "{r \<in> set (conf_Voters c). slots_get c m vs r \<noteq> None} = (\<lambda>i. conf_Voters c ! i) ` bits_of m"
    using assms by (auto simp: slots_inv_def in_set_conv_nth slots_get_nth hasSlot_iff bits_of_def
        image_iff conf_wf_def split: if_splits)
  moreover have "inj_on (\<lambda>i. conf_Voters c ! i) (bits_of m)"
    using assms conf_wf_distinct [of c] unfolding slots_inv_def inj_on_def
    by (metis lessThan_iff nth_eq_iff_index_eq subsetD)
  ultimately show ?thesis by (simp add: mask_len_bits card_image)
qed

lemma slots_add:
  assumes "conf_wf c" "slots_inv z c m vs" "conf_Index c r = (i, True)" "\<not> hasSlot m i"
  shows "slots_inv z c (m OR push_bit i 1) (vs[i := v])"
    "slots_get c (m OR push_bit i 1) (vs[i := v]) r' = (if r' = r then Some v else slots_get c m vs r')"
proof -
  have i: "i < length (conf_Voters c)" "i < 7" "conf_Voters c ! i = r"
    using assms conf_Index_True [of c r i] by (auto simp: conf_wf_def)
  show "slots_inv z c (m OR push_bit i 1) (vs[i := v])"
    using assms(2) i by (auto simp: slots_inv_def bits_of_or hasSlot_or simp del: push_bit_of_1)
  show "slots_get c (m OR push_bit i 1) (vs[i := v]) r' = (if r' = r then Some v else slots_get c m vs r')"
    using assms i by (auto simp: slots_get_def slots_inv_def hasSlot_or simp del: push_bit_of_1
        split: prod.splits dest: conf_Index_True)
qed

section \<open>The interface of a tally\<close>

locale vote_tally =
  fixes add :: "'s \<Rightarrow> ConfState \<Rightarrow> ReplicaID \<Rightarrow> 'v \<Rightarrow> 's \<times> bool"
    and get :: "'s \<Rightarrow> ConfState \<Rightarrow> ReplicaID \<Rightarrow> 'v option"
    and len :: "'s \<Rightarrow> nat"
    and fresh :: 's
    and fits :: "ConfState \<Rightarrow> 'v \<Rightarrow> bool"
    and inv :: "ConfState \<Rightarrow> 's \<Rightarrow> bool"
  assumes fresh_inv: "inv c fresh"
    and fresh_get: "get fresh c r = None"
    and add_iff: "conf_wf c \<Longrightarrow> inv c s \<Longrightarrow>
          snd (add s c r v) \<longleftrightarrow> r \<in> set (conf_Voters c) \<and> fits c v \<and> get s c r = None"
    and add_inv: "conf_wf c \<Longrightarrow> inv c s \<Longrightarrow> inv c (fst (add s c r v))"
    and add_get: "conf_wf c \<Longrightarrow> inv c s \<Longrightarrow>
          get (fst (add s c r v)) c r' = (if snd (add s c r v) \<and> r' = r then Some v else get s c r')"
    and len_card: "conf_wf c \<Longrightarrow> inv c s \<Longrightarrow> len s = card {r \<in> set (conf_Voters c). get s c r \<noteq> None}"
begin

text \<open>A sequence of deliveries \<open>(sender, vote)\<close>, in arrival order.\<close>

definition deliver :: "ConfState \<Rightarrow> (ReplicaID \<times> 'v) list \<Rightarrow> 's \<Rightarrow> 's" where
  "deliver c = fold (\<lambda>(r, v) s. fst (add s c r v))"

lemma deliver_inv: "conf_wf c \<Longrightarrow> inv c s \<Longrightarrow> inv c (deliver c xs s)"
  by (induction xs arbitrary: s) (auto simp: deliver_def add_inv)

lemma deliver_get:
  assumes "conf_wf c"
  shows "inv c s \<Longrightarrow> get (deliver c xs s) c r =
    (case get s c r of
       Some v \<Rightarrow> Some v
     | None \<Rightarrow> if r \<in> set (conf_Voters c) then map_of (filter (\<lambda>(_, v). fits c v) xs) r else None)"
proof (induction xs arbitrary: s)
  case (Cons x xs)
  obtain q v where x: "x = (q, v)" by fastforce
  let ?s = "fst (add s c q v)"
  have "get (deliver c (x # xs) s) c r = get (deliver c xs ?s) c r" by (simp add: x deliver_def)
  with Cons add_inv [OF assms] add_get [OF assms Cons.prems] add_iff [OF assms Cons.prems] show ?case
    by (auto simp: x split: option.splits)
qed (simp add: deliver_def split: option.splits)

text \<open>Whatever is delivered, and however often, the set counts each voter that sent a vote of
  the right shape once, and keeps the first such vote.\<close>

lemma tally_get:
  "conf_wf c \<Longrightarrow> get (deliver c xs fresh) c r =
     (if r \<in> set (conf_Voters c) then map_of (filter (\<lambda>(_, v). fits c v) xs) r else None)"
  by (simp add: deliver_get fresh_inv fresh_get)

lemma tally_len:
  "conf_wf c \<Longrightarrow> len (deliver c xs fresh) = card (set (conf_Voters c) \<inter> {r. \<exists>v. (r, v) \<in> set xs \<and> fits c v})"
proof -
  assume c: "conf_wf c"
  have "{r \<in> set (conf_Voters c). get (deliver c xs fresh) c r \<noteq> None} =
      set (conf_Voters c) \<inter> {r. \<exists>v. (r, v) \<in> set xs \<and> fits c v}"
    using c by (auto simp: tally_get map_of_eq_None_iff image_iff simp del: not_None_eq)
  then show ?thesis using c by (simp add: len_card deliver_inv fresh_inv)
qed

text \<open>Two tallies of one configuration that reach a majority share a voter.\<close>

lemma tallies_share:
  assumes "conf_wf c" "slowQuorumSize (length (conf_Voters c)) \<le> len (deliver c xs fresh)"
    "slowQuorumSize (length (conf_Voters c)) \<le> len (deliver c ys fresh)"
  shows "\<exists>r v w. r \<in> set (conf_Voters c) \<and> get (deliver c xs fresh) c r = Some v \<and>
    get (deliver c ys fresh) c r = Some w"
proof -
  let ?A = "\<lambda>zs. {r \<in> set (conf_Voters c). get (deliver c zs fresh) c r \<noteq> None}"
  have "card (set (conf_Voters c)) = length (conf_Voters c)"
    using conf_wf_distinct [OF assms(1)] by (rule distinct_card)
  then have "?A xs \<inter> ?A ys \<noteq> {}"
    using slow_slow.inter_nonempty [of "set (conf_Voters c)" "?A xs" "?A ys"] assms
    by (simp add: len_card deliver_inv fresh_inv conf_wf_def Suc_le_eq)
  then show ?thesis by blast
qed

end

lemma conf_Index_cases:
  assumes "conf_wf c"
  obtains i where "conf_Index c r = (i, True)" "r \<in> set (conf_Voters c)"
  | i where "conf_Index c r = (i, False)" "r \<notin> set (conf_Voters c)"
  using conf_Contains_iff [of c r] conf_wf_sorted [OF assms]
  by (cases "conf_Index c r") (auto simp: conf_Contains_def)

definition attr_inv :: "ConfState \<Rightarrow> attrVoteSet option \<Rightarrow> bool" where
  "attr_inv c sp \<longleftrightarrow> (\<exists>s. sp = Some s \<and> slots_inv zero_attrVote c (avs_mask s) (avs_votes s))"

definition attr_fits :: "ConfState \<Rightarrow> attrVote \<Rightarrow> bool" where
  "attr_fits c v \<longleftrightarrow> unat (av_width v) = length (conf_Voters c)"

definition record_inv :: "ConfState \<Rightarrow> recordVoteSet option \<Rightarrow> bool" where
  "record_inv c sp \<longleftrightarrow> (\<exists>s. sp = Some s \<and> slots_inv zero_record c (rvs_mask s) (rvs_records s))"

lemma attr_get_slots: "attrVoteSet_get (Some s) c r = slots_get c (avs_mask s) (avs_votes s) r"
  by (simp add: attrVoteSet_get_def slots_get_def)

lemma record_get_slots: "recordVoteSet_get (Some s) c r = slots_get c (rvs_mask s) (rvs_records s) r"
  by (simp add: recordVoteSet_get_def slots_get_def)

lemma slots_inv_zero: "slots_inv z c 0 (replicate 7 z)"
  by (auto simp: slots_inv_def bits_of_def)

interpretation attr_votes: vote_tally attrVoteSet_add attrVoteSet_get attrVoteSet_len
  "Some newAttrVoteSet" attr_fits attr_inv
proof
  fix c :: ConfState and s :: "attrVoteSet option" and r r' :: ReplicaID and v :: attrVote
  show "attr_inv c (Some newAttrVoteSet)" by (simp add: attr_inv_def newAttrVoteSet_def slots_inv_zero)
  show "attrVoteSet_get (Some newAttrVoteSet) c r = None"
    by (simp add: attr_get_slots newAttrVoteSet_def slots_get_def hasSlot_def split: prod.split)
  assume c: "conf_wf c" and inv: "attr_inv c s"
  then obtain a where s: "s = Some a" and a: "slots_inv zero_attrVote c (avs_mask a) (avs_votes a)"
    by (auto simp: attr_inv_def)
  show "attrVoteSet_len s = card {r \<in> set (conf_Voters c). attrVoteSet_get s c r \<noteq> None}"
    using slots_len [OF c a] by (simp add: s attr_get_slots attrVoteSet_len_def)
  note defs = attrVoteSet_add_def attr_fits_def s attr_get_slots attr_inv_def a
  show "snd (attrVoteSet_add s c r v) \<longleftrightarrow>
      r \<in> set (conf_Voters c) \<and> attr_fits c v \<and> attrVoteSet_get s c r = None"
    by (rule conf_Index_cases [OF c, of r]) (simp_all add: defs slots_get_def)
  show "attr_inv c (fst (attrVoteSet_add s c r v))"
    by (rule conf_Index_cases [OF c, of r])
      (use slots_add [OF c a] in \<open>simp_all add: defs del: push_bit_of_1\<close>)
  show "attrVoteSet_get (fst (attrVoteSet_add s c r v)) c r' =
      (if snd (attrVoteSet_add s c r v) \<and> r' = r then Some v else attrVoteSet_get s c r')"
    by (rule conf_Index_cases [OF c, of r])
      (use slots_add [OF c a] in \<open>simp_all add: defs del: push_bit_of_1\<close>)
qed

interpretation record_votes: vote_tally recordVoteSet_add recordVoteSet_get recordVoteSet_len
  "Some newRecordVoteSet" "\<lambda>_ _. True" record_inv
proof
  fix c :: ConfState and s :: "recordVoteSet option" and r r' :: ReplicaID and v :: InstanceRecord
  show "record_inv c (Some newRecordVoteSet)" by (simp add: record_inv_def newRecordVoteSet_def slots_inv_zero)
  show "recordVoteSet_get (Some newRecordVoteSet) c r = None"
    by (simp add: record_get_slots newRecordVoteSet_def slots_get_def hasSlot_def split: prod.split)
  assume c: "conf_wf c" and inv: "record_inv c s"
  then obtain a where s: "s = Some a" and a: "slots_inv zero_record c (rvs_mask a) (rvs_records a)"
    by (auto simp: record_inv_def)
  show "recordVoteSet_len s = card {r \<in> set (conf_Voters c). recordVoteSet_get s c r \<noteq> None}"
    using slots_len [OF c a] by (simp add: s record_get_slots recordVoteSet_len_def)
  have n: "conf_Voters c \<noteq> []" "\<not> 7 < length (conf_Voters c)"
    using c by (auto simp: conf_wf_def)
  note defs = recordVoteSet_add_def s record_get_slots record_inv_def a n
  show "snd (recordVoteSet_add s c r v) \<longleftrightarrow>
      r \<in> set (conf_Voters c) \<and> True \<and> recordVoteSet_get s c r = None"
    by (rule conf_Index_cases [OF c, of r]) (simp_all add: defs slots_get_def)
  show "record_inv c (fst (recordVoteSet_add s c r v))"
    by (rule conf_Index_cases [OF c, of r])
      (use slots_add [OF c a] in \<open>simp_all add: defs del: push_bit_of_1\<close>)
  show "recordVoteSet_get (fst (recordVoteSet_add s c r v)) c r' =
      (if snd (recordVoteSet_add s c r v) \<and> r' = r then Some v else recordVoteSet_get s c r')"
    by (rule conf_Index_cases [OF c, of r])
      (use slots_add [OF c a] in \<open>simp_all add: defs del: push_bit_of_1\<close>)
qed

section \<open>Merging votes and reusing sets\<close>

lemma foldl_mergeAttrs_cover:
  "attrsCover (fold (\<lambda>x a. mergeAttrs a x) xs a) b \<longleftrightarrow>
     (xs \<noteq> [] \<longrightarrow> at_Seq b \<noteq> 0) \<and> attrsCover a b \<and> (\<forall>x \<in> set xs. attrsCover x b)"
  by (induction xs arbitrary: a) (auto simp: mergeAttrs_cover)

lemma zero_attrs_cover: "attrsCover zero_attrs b"
  by (simp add: attrsCover_iff zero_attrs_def)

lemma attrsFromVotes_fold:
  assumes "conf_wf c"
  shows "attrsFromVotes c (Some s) =
    fold (\<lambda>r a. case attrVoteSet_get (Some s) c r of None \<Rightarrow> a | Some v \<Rightarrow> mergeAttrs a (vote_attributes (Some v)))
      (conf_Voters c) zero_attrs"
proof -
  have "slot_votes (\<lambda>i. avs_votes s ! i) (avs_mask s) 0 (conf_Voters c) =
      List.map_filter (\<lambda>r. map_option (Pair r) (attrVoteSet_get (Some s) c r)) (conf_Voters c)"
    using slot_votes_get [OF assms, of "[]" _ "avs_votes s" "avs_mask s"] by (simp add: attr_get_slots)
  moreover have "fst (yield_all (\<lambda>(_, v) a. (mergeAttrs a (vote_attributes (Some v)), True))
        (List.map_filter (\<lambda>r. map_option (Pair r) (g r)) rs) a) =
      fold (\<lambda>r a. case g r of None \<Rightarrow> a | Some v \<Rightarrow> mergeAttrs a (vote_attributes (Some v))) rs a" for g rs a
    by (induction rs arbitrary: a) (simp_all add: map_filter_simps split: option.splits)
  ultimately show ?thesis
    by (simp add: attrsFromVotes_def attrVoteSet_each_def each_slot_yield_all)
qed

lemma reset_slots_zero:
  assumes "length vs = 7" "\<forall>i < 7. \<not> hasSlot m i \<longrightarrow> vs ! i = z"
  shows "reset_slots z m 0 vs = replicate 7 z"
  using reset_slots_nth [of z m 0 vs] assms by (intro nth_equalityI) auto

text \<open>A vote built from dependencies of the configuration's width reads back as them.\<close>

lemma newAttrVote_attributes:
  assumes "newAttrVote c seq deps committed fast = (v, True)"
  shows "attr_fits c v" "vote_attributes (Some v) = \<lparr>at_Seq = seq, at_Deps = deps\<rparr>"
proof -
  have n: "length deps = length (conf_Voters c)" "1 \<le> length deps" "length deps \<le> 7"
    and v: "v = \<lparr>av_seq = seq, av_deps = take 7 deps @ replicate (7 - length deps) 0,
              av_width = of_nat (length deps), av_depsCommitted = committed, av_fastPathEligible = fast\<rparr>"
    using assms by (auto simp: newAttrVote_def Suc_le_eq not_less split: if_splits)
  have w: "unat (of_nat (length deps) :: u8) = length deps"
    using n by (simp add: unat_of_nat take_bit_nat_eq_self)
  then show "attr_fits c v" using n by (simp add: attr_fits_def v)
  have "of_nat (length deps) \<noteq> (0::u8)" "\<not> (7::u8) < of_nat (length deps)"
    using n w by (auto simp: word_less_nat_alt unat_eq_0 simp flip: unat_eq_0)
  then show "vote_attributes (Some v) = \<lparr>at_Seq = seq, at_Deps = deps\<rparr>"
    using n(2,3) by (simp add: vote_attributes_def v w)
qed

section \<open>Properties\<close>

text \<open>
  C10. A vote set is a faithful tally: after any sequence of deliveries, repeated and
  malformed ones and ones by strangers included, it holds for every voter its first vote of the
  configuration's width and nothing for anyone else, and \<^verbatim>\<open>len\<close>, computed by clearing the
  lowest bit of the mask until none is left, is the number of voters that sent one.
\<close>

theorem attrVoteSet_tally:
  assumes "conf_wf c" and "s = fold (\<lambda>(r, v) s. fst (attrVoteSet_add s c r v)) xs (Some newAttrVoteSet)"
  shows "attrVoteSet_get s c r =
      (if r \<in> set (conf_Voters c)
       then map_of (filter (\<lambda>(_, v). unat (av_width v) = length (conf_Voters c)) xs) r else None) \<and>
    attrVoteSet_len s = card (set (conf_Voters c) \<inter>
      {r. \<exists>v. (r, v) \<in> set xs \<and> unat (av_width v) = length (conf_Voters c)})"
  unfolding assms(2) using attr_votes.tally_get [OF assms(1), of xs r] attr_votes.tally_len [OF assms(1), of xs]
  unfolding attr_votes.deliver_def attr_fits_def by blast

theorem attrVoteSet_tally_witness:
  "let c = \<lparr>conf_ID = 1, conf_Voters = [1, 2, 3]\<rparr>; v = zero_attrVote\<lparr>av_width := 3\<rparr> in
   attrVoteSet_get (fold (\<lambda>(r, v) s. fst (attrVoteSet_add s c r v))
     [(2, v), (9, v), (2, v\<lparr>av_seq := 7\<rparr>)] (Some newAttrVoteSet)) c 2 = Some v"
proof -
  have "conf_wf \<lparr>conf_ID = 1, conf_Voters = [1, 2, 3]\<rparr>" by (simp add: conf_wf_def)
  from attrVoteSet_tally [OF this refl] show ?thesis
    by (simp only: Let_def) (simp add: zero_attrVote_def)
qed

text \<open>
  C13. Two prepare tallies of one configuration that both reach the slow quorum hold a record
  of a common voter, so a recovery sees a member of every earlier majority.
\<close>

theorem recordVoteSet_majorities_meet:
  assumes "conf_wf c"
    and "recordVoteSet_len s \<ge> slowQuorumSize (length (conf_Voters c))"
    and "recordVoteSet_len t \<ge> slowQuorumSize (length (conf_Voters c))"
    and "s = fold (\<lambda>(r, v) s. fst (recordVoteSet_add s c r v)) xs (Some newRecordVoteSet)"
    and "t = fold (\<lambda>(r, v) s. fst (recordVoteSet_add s c r v)) ys (Some newRecordVoteSet)"
  shows "\<exists>r \<in> set (conf_Voters c). \<exists>v w. recordVoteSet_get s c r = Some v \<and> recordVoteSet_get t c r = Some w \<and>
    (r, v) \<in> set xs \<and> (r, w) \<in> set ys"
proof -
  note st = assms(4,5) [folded record_votes.deliver_def]
  obtain r v w where r: "r \<in> set (conf_Voters c)" "recordVoteSet_get s c r = Some v" "recordVoteSet_get t c r = Some w"
    using record_votes.tallies_share [OF assms(1), of xs ys] assms(2,3) by (auto simp: st)
  moreover from r have "(r, v) \<in> set xs" "(r, w) \<in> set ys"
    by (auto simp: st record_votes.tally_get [OF assms(1)] dest: map_of_SomeD)
  ultimately show ?thesis by blast
qed

theorem recordVoteSet_majorities_meet_witness:
  "\<exists>r \<in> {1, 2, 3 :: ReplicaID}. \<exists>v w. (r, v) \<in> set [(1, zero_record), (2, zero_record)] \<and>
     (r, w) \<in> set [(2, zero_record), (3, zero_record)]"
proof -
  let ?c = "\<lparr>conf_ID = 1, conf_Voters = [1, 2, 3 :: ReplicaID]\<rparr>"
  let ?s = "\<lambda>xs. fold (\<lambda>(r, v) s. fst (recordVoteSet_add s ?c r v)) xs (Some newRecordVoteSet)"
  have c: "conf_wf ?c" by (simp add: conf_wf_def)
  have "recordVoteSet_len (?s [(1, zero_record), (2, zero_record)]) \<ge> slowQuorumSize (length (conf_Voters ?c))"
    "recordVoteSet_len (?s [(2, zero_record), (3, zero_record)]) \<ge> slowQuorumSize (length (conf_Voters ?c))"
    by code_simp+
  from recordVoteSet_majorities_meet [OF c this refl refl] show ?thesis by fastforce
qed

text \<open>
  C31. The attributes merged from a vote set are the least that cover every recorded vote:
  any attributes cover the merge exactly when they cover each vote (and have a nonzero
  sequence number once there is a vote), whatever the order in which the votes arrived.
\<close>

theorem attrsFromVotes_least:
  assumes "conf_wf c"
  shows "attrsCover (attrsFromVotes c (Some s)) b \<longleftrightarrow>
    ((\<exists>r v. attrVoteSet_get (Some s) c r = Some v) \<longrightarrow> at_Seq b \<noteq> 0) \<and>
    (\<forall>r v. attrVoteSet_get (Some s) c r = Some v \<longrightarrow> attrsCover (vote_attributes (Some v)) b)"
proof -
  have "attrsCover (fold (\<lambda>r a. case g r of None \<Rightarrow> a | Some v \<Rightarrow> mergeAttrs a (vote_attributes (Some v))) rs a) b \<longleftrightarrow>
      ((\<exists>r \<in> set rs. g r \<noteq> None) \<longrightarrow> at_Seq b \<noteq> 0) \<and> attrsCover a b \<and>
      (\<forall>r \<in> set rs. \<forall>v. g r = Some v \<longrightarrow> attrsCover (vote_attributes (Some v)) b)" for g rs a
    by (induction rs arbitrary: a) (auto simp: mergeAttrs_cover split: option.splits)
  note cover = this
  have voter: "r \<in> set (conf_Voters c)" if "attrVoteSet_get (Some s) c r = Some v" for r v
    using that slots_get_voter by (simp add: attr_get_slots)
  show ?thesis
    unfolding attrsFromVotes_fold [OF assms] cover using voter by (auto simp: zero_attrs_cover)
qed

theorem attrsFromVotes_least_witness:
  "attrsCover (attrsFromVotes \<lparr>conf_ID = 1, conf_Voters = [1, 2, 3]\<rparr> (Some newAttrVoteSet)) zero_attrs"
proof -
  have "conf_wf \<lparr>conf_ID = 1, conf_Voters = [1, 2, 3]\<rparr>" by (simp add: conf_wf_def)
  from attrsFromVotes_least [OF this] show ?thesis by (simp add: attr_votes.fresh_get)
qed

text \<open>
  C32. Reuse leaks nothing: a set that started empty and saw any deliveries of any
  configurations is, after the \<^verbatim>\<open>reset\<close> of \<^verbatim>\<open>putAttrVoteSet\<close> or \<^verbatim>\<open>getAttrVoteSet\<close>, the new empty set,
  although \<^verbatim>\<open>reset\<close> only visits the slots its mask names.
\<close>

theorem attrVoteSet_reuse:
  "attrVoteSet_reset (fold (\<lambda>(c, r, v) s. fst (attrVoteSet_add s c r v)) xs (Some newAttrVoteSet)) =
     Some newAttrVoteSet"
proof -
  let ?ok = "\<lambda>sp. \<exists>s. sp = Some s \<and> length (avs_votes s) = 7 \<and>
    (\<forall>i < 7. \<not> hasSlot (avs_mask s) i \<longrightarrow> avs_votes s ! i = zero_attrVote)"
  have step: "?ok (fst (attrVoteSet_add s c r v))" if "?ok s" for s c r v
    using that by (auto simp: attrVoteSet_add_def nth_list_update hasSlot_iff bit_or_iff bit_exp_iff Let_def
        split: prod.split)
  have "?ok s \<Longrightarrow> ?ok (fold (\<lambda>(c, r, v) s. fst (attrVoteSet_add s c r v)) xs s)" for s
  proof (induction xs arbitrary: s)
    case (Cons x xs)
    then show ?case using step by (cases x) simp
  qed simp
  then have "?ok (fold (\<lambda>(c, r, v) s. fst (attrVoteSet_add s c r v)) xs (Some newAttrVoteSet))"
    by (simp add: newAttrVoteSet_def)
  then show ?thesis
    by (auto simp: attrVoteSet_reset_def newAttrVoteSet_def reset_slots_zero)
qed

end
