(* ===== verification/Tracker.thy ===== *)
theory Tracker
  imports Ids
begin

text \<open>
  The executed tracker of \<^verbatim>\<open>epaxos/sparse_progress.go\<close>: the set of executed instances, kept as a
  prefix for each lane and the exact instances beyond it. A map that is read for a missing key gives
  zero, so the prefixes are a function; the receiver is never nil.
\<close>

record executedTracker =
  et_exact :: "InstanceRef set"
  et_through :: "instanceLane \<Rightarrow> InstanceNum"

definition newExecutedTracker :: executedTracker where
  "newExecutedTracker = \<lparr>et_exact = {}, et_through = (\<lambda>_. 0)\<rparr>"

definition tracker_contains :: "executedTracker \<Rightarrow> InstanceRef \<Rightarrow> bool" where
  "tracker_contains tracker ref =
     (if ref_IsZero ref \<or> ref_Instance ref = 0 then False
      else if ref_Instance ref \<le> et_through tracker (laneFor ref) then True
      else ref \<in> et_exact tracker)"

definition tracker_forgetExactThrough :: "executedTracker \<Rightarrow> instanceLane \<Rightarrow> InstanceNum \<Rightarrow> executedTracker" where
  "tracker_forgetExactThrough tracker lane through =
     (if through = 0 then tracker
      else tracker\<lparr>et_exact := Set.filter (\<lambda>ref. \<not> (laneFor ref = lane \<and> ref_Instance ref \<le> through)) (et_exact tracker)\<rparr>)"

definition tracker_prefix :: "executedTracker \<Rightarrow> instanceLane \<Rightarrow> InstanceNum" where
  "tracker_prefix tracker lane = et_through tracker lane"

text \<open>The loop that moves the prefix over the exact instances after it.\<close>

function advanceThrough :: "InstanceRef set \<Rightarrow> instanceLane \<Rightarrow> InstanceNum \<Rightarrow> InstanceNum" where
  "advanceThrough exact lane through =
     (case instanceSuccessor through of
        None \<Rightarrow> through
      | Some nxt \<Rightarrow> if refOf lane nxt \<notin> exact then through else advanceThrough exact lane nxt)"
  by pat_completeness auto
termination
proof (relation "measure (\<lambda>(exact, lane, through). 2 ^ 64 - unat through)", simp)
  fix exact :: "InstanceRef set" and lane :: instanceLane and through nxt :: InstanceNum
  assume "instanceSuccessor through = Some nxt"
  then have "unat nxt = Suc (unat through)" by (rule instanceSuccessor_Some)
  moreover have "unat nxt < 2 ^ 64" using unsigned_less [of nxt] by simp
  ultimately show "((exact, lane, nxt), exact, lane, through) \<in> measure (\<lambda>(exact, lane, through). 2 ^ 64 - unat through)"
    by simp
qed

declare advanceThrough.simps [simp del]

definition tracker_add :: "executedTracker \<Rightarrow> InstanceRef \<Rightarrow> executedTracker" where
  "tracker_add tracker ref =
     (if ref_IsZero ref \<or> ref_Instance ref = 0 then tracker
      else
        let exact = insert ref (et_exact tracker);
            lane = laneFor ref
        in \<lparr>et_exact = exact, et_through = (et_through tracker)(lane := advanceThrough exact lane (et_through tracker lane))\<rparr>)"

section \<open>What the tracker holds\<close>

lemma succ_word:
  assumes "instanceSuccessor t = Some n"
  shows "t < n" "x \<le> n \<longleftrightarrow> x \<le> t \<or> x = n" "0 < n"
proof -
  have u: "unat n = Suc (unat t)" by (rule instanceSuccessor_Some [OF assms])
  show "t < n" "0 < n" by (simp_all add: word_less_nat_alt u)
  have "x = n \<longleftrightarrow> unat x = unat n" by (simp add: word_unat_eq_iff)
  then show "x \<le> n \<longleftrightarrow> x \<le> t \<or> x = n" unfolding word_le_nat_alt u by linarith
qed

lemma advanceThrough_props:
  "t \<le> advanceThrough exact lane t \<and>
   (\<forall>x. t < x \<and> x \<le> advanceThrough exact lane t \<longrightarrow> refOf lane x \<in> exact) \<and>
   (\<forall>n. instanceSuccessor (advanceThrough exact lane t) = Some n \<longrightarrow> refOf lane n \<notin> exact)"
proof (induction exact lane t rule: advanceThrough.induct)
  case (1 exact lane t)
  show ?case
  proof (cases "\<exists>n. instanceSuccessor t = Some n \<and> refOf lane n \<in> exact")
    case True
    then obtain n where n: "instanceSuccessor t = Some n" "refOf lane n \<in> exact" by blast
    note IH = 1 [OF n(1)] and w = succ_word [OF n(1)]
    have eq: "advanceThrough exact lane t = advanceThrough exact lane n" using n by (simp add: advanceThrough.simps [of exact lane t])
    have "t \<le> advanceThrough exact lane n" using w(1) IH n(2) by (meson less_imp_le order_trans)
    moreover have "refOf lane x \<in> exact" if "t < x" "x \<le> advanceThrough exact lane n" for x
    proof (cases "n < x")
      case True
      then show ?thesis using IH n(2) that(2) by blast
    next
      case False
      then have "x = n" using w(2) [of x] that(1) by (simp only: not_less) (metis leD)
      then show ?thesis using n(2) by simp
    qed
    ultimately show ?thesis unfolding eq using IH n(2) by blast
  next
    case False
    then have "advanceThrough exact lane t = t" by (auto simp: advanceThrough.simps [of exact lane t] split: option.split)
    then show ?thesis using False by (auto dest: leD)
  qed
qed

text \<open>
  The tracker of a set of instances: it answers membership, and each prefix stops before the first
  instance that is missing.
\<close>

definition tracks :: "executedTracker \<Rightarrow> InstanceRef set \<Rightarrow> bool" where
  "tracks tracker S \<longleftrightarrow>
     (\<forall>ref. tracker_contains tracker ref \<longleftrightarrow> ref \<in> S) \<and>
     (\<forall>lane n. instanceSuccessor (et_through tracker lane) = Some n \<longrightarrow> refOf lane n \<notin> et_exact tracker)"

abbreviation valid_ref :: "InstanceRef \<Rightarrow> bool" where
  "valid_ref ref \<equiv> ref_Instance ref \<noteq> 0"

lemma contains_iff:
  "tracker_contains tracker ref \<longleftrightarrow>
     valid_ref ref \<and> (ref_Instance ref \<le> et_through tracker (laneFor ref) \<or> ref \<in> et_exact tracker)"
  by (cases ref) (auto simp: tracker_contains_def)

lemma tracks_new: "tracks newExecutedTracker {}"
  by (auto simp: tracks_def contains_iff newExecutedTracker_def)

lemma tracks_add:
  assumes "tracks tracker S" "valid_ref ref"
  shows "tracks (tracker_add tracker ref) (insert ref S)"
proof -
  let ?lane = "laneFor ref" and ?exact = "insert ref (et_exact tracker)"
  let ?t = "advanceThrough ?exact ?lane (et_through tracker ?lane)"
  note adv = advanceThrough_props [of "et_through tracker ?lane" ?exact ?lane]
  have add: "tracker_add tracker ref = \<lparr>et_exact = ?exact, et_through = (et_through tracker)(?lane := ?t)\<rparr>"
    using assms(2) by (auto simp: tracker_add_def Let_def)
  have "tracker_contains (tracker_add tracker ref) r \<longleftrightarrow> r \<in> insert ref S" for r
  proof -
    have S: "r \<in> S \<longleftrightarrow> valid_ref r \<and> (ref_Instance r \<le> et_through tracker (laneFor r) \<or> r \<in> et_exact tracker)"
      using assms(1) by (simp add: tracks_def contains_iff)
    have up: "r \<in> ?exact" if "laneFor r = ?lane" "ref_Instance r \<le> ?t" "\<not> ref_Instance r \<le> et_through tracker ?lane"
    proof -
      have "refOf ?lane (ref_Instance r) = r" using that(1) by simp
      moreover have "refOf ?lane (ref_Instance r) \<in> ?exact" using adv that(2,3) not_le by blast
      ultimately show ?thesis by simp
    qed
    have mono: "ref_Instance r \<le> et_through tracker ?lane \<Longrightarrow> ref_Instance r \<le> ?t" using adv order_trans by blast
    show ?thesis
      unfolding contains_iff add insert_iff S using up mono assms(2) by (cases "laneFor r = ?lane") (simp_all, blast+)
  qed
  moreover have "refOf lane n \<notin> ?exact" if "instanceSuccessor (((et_through tracker)(?lane := ?t)) lane) = Some n" for lane n
  proof (cases "lane = ?lane")
    case True
    then show ?thesis using that adv by simp
  next
    case False
    then have "refOf lane n \<notin> et_exact tracker" using that assms(1) by (simp add: tracks_def)
    then show ?thesis using False by simp
  qed
  ultimately show ?thesis by (simp add: tracks_def add)
qed

lemma tracks_forget:
  assumes "tracks tracker S" "through \<le> tracker_prefix tracker lane"
  shows "tracks (tracker_forgetExactThrough tracker lane through) S"
proof -
  have "tracker_contains (tracker_forgetExactThrough tracker lane through) ref = tracker_contains tracker ref" for ref
    using assms(2) by (auto simp: tracker_forgetExactThrough_def contains_iff tracker_prefix_def intro: order_trans)
  then show ?thesis using assms(1) by (auto simp: tracks_def tracker_forgetExactThrough_def)
qed

lemma tracks_prefix:
  assumes "tracks tracker S"
  shows "(\<forall>inst. 0 < inst \<and> inst \<le> tracker_prefix tracker lane \<longrightarrow> refOf lane inst \<in> S)"
    "instanceSuccessor (tracker_prefix tracker lane) = Some n \<Longrightarrow> refOf lane n \<notin> S"
proof -
  have S: "ref \<in> S \<longleftrightarrow> tracker_contains tracker ref" for ref using assms by (simp add: tracks_def)
  show "\<forall>inst. 0 < inst \<and> inst \<le> tracker_prefix tracker lane \<longrightarrow> refOf lane inst \<in> S"
    by (auto simp: S contains_iff tracker_prefix_def)
  assume n: "instanceSuccessor (tracker_prefix tracker lane) = Some n"
  then show "refOf lane n \<notin> S"
    using assms succ_word(1) [OF n] by (auto simp: S contains_iff tracks_def tracker_prefix_def dest: leD)
qed

section \<open>Properties\<close>

text \<open>A tracker under its updates; \<^verbatim>\<open>retireExecuted\<close> forgets exact instances only up to the prefix.\<close>

inductive tracker_reach :: "executedTracker \<Rightarrow> InstanceRef set \<Rightarrow> bool" where
  track_new: "tracker_reach newExecutedTracker {}"
| track_add: "tracker_reach tracker S \<Longrightarrow> tracker_reach (tracker_add tracker ref) (if valid_ref ref then insert ref S else S)"
| track_forget: "tracker_reach tracker S \<Longrightarrow> through \<le> tracker_prefix tracker lane \<Longrightarrow>
    tracker_reach (tracker_forgetExactThrough tracker lane through) S"

lemma reach_tracks: "tracker_reach tracker S \<Longrightarrow> tracks tracker S"
proof (induction rule: tracker_reach.induct)
  case (track_add tracker S ref)
  then show ?case by (cases "valid_ref ref") (simp_all add: tracks_add, simp add: tracker_add_def)
qed (simp_all add: tracks_new tracks_forget)

text \<open>
  C6. The executed tracker refines the set of executed instances. After any sequence of additions,
  in any order, and of removals of exact instances within the prefix, \<^verbatim>\<open>contains\<close> answers exactly
  the instances that were added, and the prefix of a lane is the greatest one without a gap: all
  instances up to it were added, and the one after it was not.
\<close>

theorem tracker_refines_set:
  assumes "tracker_reach tracker S"
  shows "(tracker_contains tracker ref \<longleftrightarrow> ref \<in> S) \<and>
    (\<forall>inst. 0 < inst \<and> inst \<le> tracker_prefix tracker lane \<longrightarrow> refOf lane inst \<in> S) \<and>
    (\<forall>n. instanceSuccessor (tracker_prefix tracker lane) = Some n \<longrightarrow> refOf lane n \<notin> S)"
  using reach_tracks [OF assms] tracks_prefix [OF reach_tracks [OF assms]] by (simp add: tracks_def)

theorem tracker_refines_set_witness:
  "tracker_contains (tracker_add (tracker_add newExecutedTracker (InstanceRef 1 2 1)) (InstanceRef 1 1 1)) (InstanceRef 1 2 1)"
proof -
  have "tracker_reach (tracker_add (tracker_add newExecutedTracker (InstanceRef 1 2 1)) (InstanceRef 1 1 1))
      {InstanceRef 1 1 1, InstanceRef 1 2 1}"
    using track_add [OF track_add [OF track_new, of "InstanceRef 1 2 1"], of "InstanceRef 1 1 1"] by simp
  from tracker_refines_set [OF this, of "InstanceRef 1 2 1" "\<lparr>lane_conf = 1, lane_replica = 1\<rparr>"] show ?thesis by simp
qed

end
