(* ===== verification/Heap.thy ===== *)
theory Heap
  imports Prelude "HOL-Library.Multiset"
begin

text \<open>
  \<^verbatim>\<open>container/heap\<close> of the Go standard library, which keeps the timers and the deferred messages of a
  node. A heap is the list of its array; \<^verbatim>\<open>Less(i, j)\<close> compares the elements at \<open>i\<close> and \<open>j\<close>, and \<^verbatim>\<open>Pop\<close> of
  the interface drops the last element. The \<^verbatim>\<open>index\<close> that the \<^verbatim>\<open>Swap\<close> and \<^verbatim>\<open>Push\<close> methods of the sources store in an
  element is its position and is not stored.
\<close>

section \<open>The operations\<close>

definition heap_swap :: "'a list \<Rightarrow> nat \<Rightarrow> nat \<Rightarrow> 'a list" where
  "heap_swap h i j = h[i := h ! j, j := h ! i]"

function heap_up :: "('a \<Rightarrow> 'a \<Rightarrow> bool) \<Rightarrow> 'a list \<Rightarrow> nat \<Rightarrow> 'a list" where
  "heap_up lt h j =
     (let i = (j - 1) div 2 in
      if i = j \<or> \<not> lt (h ! j) (h ! i) then h else heap_up lt (heap_swap h i j) i)"
  by pat_completeness auto
termination
  by (relation "measure (\<lambda>(lt, h, j). j)") (auto simp: Let_def)

definition smaller_child :: "('a \<Rightarrow> 'a \<Rightarrow> bool) \<Rightarrow> 'a list \<Rightarrow> nat \<Rightarrow> nat \<Rightarrow> nat" where
  "smaller_child lt h i n =
     (let j1 = 2 * i + 1; j2 = j1 + 1 in if j2 < n \<and> lt (h ! j2) (h ! j1) then j2 else j1)"

function heap_down :: "('a \<Rightarrow> 'a \<Rightarrow> bool) \<Rightarrow> 'a list \<Rightarrow> nat \<Rightarrow> nat \<Rightarrow> 'a list \<times> nat" where
  "heap_down lt h i n =
     (if 2 * i + 1 \<ge> n then (h, i)
      else
        let j = smaller_child lt h i n
        in if \<not> lt (h ! j) (h ! i) then (h, i) else heap_down lt (heap_swap h i j) j n)"
  by pat_completeness auto
termination
  by (relation "measure (\<lambda>(lt, h, i, n). n - i)") (auto simp: Let_def smaller_child_def split: if_splits)

declare heap_up.simps [simp del] heap_down.simps [simp del]

definition heap_settle :: "('a \<Rightarrow> 'a \<Rightarrow> bool) \<Rightarrow> 'a list \<Rightarrow> nat \<Rightarrow> nat \<Rightarrow> 'a list" where
  "heap_settle lt h i n = (let (h, i') = heap_down lt h i n in if \<not> i' > i then heap_up lt h i else h)"

definition heap_Push :: "('a \<Rightarrow> 'a \<Rightarrow> bool) \<Rightarrow> 'a list \<Rightarrow> 'a \<Rightarrow> 'a list" where
  "heap_Push lt h x = heap_up lt (h @ [x]) (length h)"

definition heap_Fix :: "('a \<Rightarrow> 'a \<Rightarrow> bool) \<Rightarrow> 'a list \<Rightarrow> nat \<Rightarrow> 'a list" where
  "heap_Fix lt h i = heap_settle lt h i (length h)"

text \<open>\<^verbatim>\<open>heap.Remove\<close> returns the removed element, which the sources do not use.\<close>

definition heap_Remove :: "('a \<Rightarrow> 'a \<Rightarrow> bool) \<Rightarrow> 'a list \<Rightarrow> nat \<Rightarrow> 'a list" where
  "heap_Remove lt h i =
     (let n = length h - 1
      in butlast (if n \<noteq> i then heap_settle lt (heap_swap h i n) i n else h))"

section \<open>The elements\<close>

lemma length_swap [simp]: "length (heap_swap h i j) = length h"
  by (simp add: heap_swap_def)

lemma nth_swap:
  assumes "i < length h" "j < length h"
  shows "heap_swap h i j ! k = (if k = i then h ! j else if k = j then h ! i else h ! k)"
  using assms by (auto simp: heap_swap_def nth_list_update)

lemma mset_heap_swap: "i < length h \<Longrightarrow> j < length h \<Longrightarrow> mset (heap_swap h i j) = mset h"
  by (simp add: heap_swap_def mset_swap)

lemma up_elements: "j < length h \<Longrightarrow> mset (heap_up lt h j) = mset h \<and> length (heap_up lt h j) = length h"
proof (induction lt h j rule: heap_up.induct)
  case (1 lt h j)
  then show ?case by (simp add: heap_up.simps [of lt h j] Let_def mset_heap_swap)
qed

lemma up_above: "j < length h \<Longrightarrow> j < k \<Longrightarrow> heap_up lt h j ! k = h ! k"
proof (induction lt h j rule: heap_up.induct)
  case (1 lt h j)
  have "(j - 1) div 2 \<le> j" by (rule le_trans [OF div_le_dividend]) simp
  then show ?case using 1 by (auto simp: heap_up.simps [of lt h j] Let_def nth_swap)
qed

lemma smaller_child_bounds: "2 * i + 1 < n \<Longrightarrow> i < smaller_child lt h i n \<and> smaller_child lt h i n < n"
  by (auto simp: smaller_child_def Let_def)

lemma down_elements:
  "i < n \<Longrightarrow> n \<le> length h \<Longrightarrow>
   mset (fst (heap_down lt h i n)) = mset h \<and> length (fst (heap_down lt h i n)) = length h \<and>
   (\<forall>k \<ge> n. fst (heap_down lt h i n) ! k = h ! k) \<and> i \<le> snd (heap_down lt h i n) \<and> snd (heap_down lt h i n) < n"
proof (induction lt h i n rule: heap_down.induct)
  case (1 lt h i n)
  let ?j = "smaller_child lt h i n"
  show ?case
  proof (cases "2 * i + 1 \<ge> n \<or> \<not> lt (h ! ?j) (h ! i)")
    case True
    then show ?thesis using 1(2) by (auto simp: heap_down.simps [of lt h i n] Let_def)
  next
    case False
    then have j: "i < ?j" "?j < n" using smaller_child_bounds [of i n lt h] by auto
    have eq: "heap_down lt h i n = heap_down lt (heap_swap h i ?j) ?j n"
      using False by (simp add: heap_down.simps [of lt h i n] Let_def)
    show ?thesis
      unfolding eq using 1(1) [OF _ refl] False j 1(2,3) by (auto simp: mset_heap_swap nth_swap)
  qed
qed

section \<open>The order\<close>

lemma parent_less: "0 < k \<Longrightarrow> (k - 1) div 2 < k" for k :: nat
  by (rule le_less_trans [OF div_le_dividend]) simp

text \<open>The contract of \<^verbatim>\<open>Less\<close>: a strict weak order.\<close>

locale heap_order =
  fixes lt :: "'a \<Rightarrow> 'a \<Rightarrow> bool"
  assumes asym: "lt a b \<Longrightarrow> \<not> lt b a"
    and negtrans: "\<not> lt b a \<Longrightarrow> \<not> lt c b \<Longrightarrow> \<not> lt c a"
begin

abbreviation le :: "'a \<Rightarrow> 'a \<Rightarrow> bool" where
  "le a b \<equiv> \<not> lt b a"

abbreviation par :: "nat \<Rightarrow> nat" where
  "par k \<equiv> (k - 1) div 2"

text \<open>The heap order on the first \<open>n\<close> elements, and with one element out of place.\<close>

definition heap_ok :: "'a list \<Rightarrow> nat \<Rightarrow> bool" where
  "heap_ok h n \<longleftrightarrow> (\<forall>k. 0 < k \<and> k < n \<longrightarrow> le (h ! par k) (h ! k))"

definition skips :: "'a list \<Rightarrow> nat \<Rightarrow> nat \<Rightarrow> bool" where
  "skips h n j \<longleftrightarrow> (\<forall>k. 0 < j \<and> 0 < k \<and> k < n \<and> par k = j \<longrightarrow> le (h ! par j) (h ! k))"

definition low_ok :: "'a list \<Rightarrow> nat \<Rightarrow> nat \<Rightarrow> bool" where
  "low_ok h n j \<longleftrightarrow> (\<forall>k. 0 < k \<and> k < n \<and> k \<noteq> j \<longrightarrow> le (h ! par k) (h ! k)) \<and> skips h n j"

definition high_ok :: "'a list \<Rightarrow> nat \<Rightarrow> nat \<Rightarrow> bool" where
  "high_ok h n i \<longleftrightarrow> (\<forall>k. 0 < k \<and> k < n \<and> par k \<noteq> i \<longrightarrow> le (h ! par k) (h ! k)) \<and> skips h n i"

lemma up_ok:
  "low_ok h n j \<Longrightarrow> j < n \<Longrightarrow> n \<le> length h \<Longrightarrow> heap_ok (heap_up lt h j) n"
proof (induction j arbitrary: h rule: less_induct)
  case (less j)
  let ?i = "par j"
  show ?case
  proof (cases "?i = j \<or> \<not> lt (h ! j) (h ! ?i)")
    case True
    then show ?thesis using less.prems by (auto simp: heap_up.simps [of lt h j] Let_def heap_ok_def low_ok_def)
  next
    case False
    then have ij: "?i < j" "?i < n" using less.prems(2) by auto
    define g where "g = heap_swap h ?i j"
    have g: "g ! k = (if k = ?i then h ! j else if k = j then h ! ?i else h ! k)" for k
      using ij less.prems(2,3) by (simp add: g_def nth_swap)
    have ok: "le (h ! par k) (h ! k)" if "0 < k" "k < n" "k \<noteq> j" for k using less.prems(1) that by (simp add: low_ok_def)
    have skip: "le (h ! ?i) (h ! k)" if "0 < k" "k < n" "par k = j" for k
      using less.prems(1) that ij by (simp add: low_ok_def skips_def)
    have lt: "lt (h ! j) (h ! ?i)" using False by simp
    have "le (g ! par k) (g ! k)" if k: "0 < k" "k < n" "k \<noteq> ?i" for k
    proof (cases "k = j")
      case True
      then show ?thesis using asym [OF lt] ij by (simp add: g)
    next
      case False
      then show ?thesis
        using k ok [of k] skip [of k] negtrans [OF asym [OF lt], of "h ! k"] by (auto simp: g)
    qed
    moreover have "le (g ! par ?i) (g ! k)" if "0 < ?i" "0 < k" "k < n" "par k = ?i" for k
    proof -
      have pi: "par ?i \<noteq> ?i" "par ?i \<noteq> j" using parent_less [OF that(1)] ij by auto
      have up: "le (h ! par ?i) (h ! ?i)" using ok [of ?i] that(1) ij by simp
      show ?thesis
      proof (cases "k = j")
        case True
        then show ?thesis using up pi ij by (simp add: g)
      next
        case False
        moreover have "k \<noteq> ?i" using that by auto
        ultimately show ?thesis using negtrans [OF up] ok [of k] that pi by (simp add: g)
      qed
    qed
    ultimately have "low_ok g n ?i" unfolding low_ok_def skips_def by blast
    then have "heap_ok (heap_up lt g ?i) n" using less.IH [OF ij(1)] ij less.prems(3) by (simp add: g_def)
    then show ?thesis using False by (simp add: heap_up.simps [of lt h j] Let_def g_def)
  qed
qed

lemma child_cases:
  assumes "0 < k" "k < n" "par k = i"
  shows "2 * i + 1 < n" "k = 2 * i + 1 \<or> k = 2 * i + 2"
  using assms by presburger+

lemma smaller_child_le:
  assumes "0 < k" "k < n" "par k = i"
  shows "le (h ! smaller_child lt h i n) (h ! k)"
  using child_cases [OF assms] assms(2) asym by (auto simp: smaller_child_def Let_def)

lemma smaller_child_par: "par (smaller_child lt h i n) = i"
  by (simp add: smaller_child_def Let_def)

lemma down_ok:
  "high_ok h n i \<Longrightarrow> i < n \<Longrightarrow> n \<le> length h \<Longrightarrow> heap_ok (fst (heap_down lt h i n)) n"
proof (induction "n - i" arbitrary: h i rule: less_induct)
  case less
  let ?j = "smaller_child lt h i n"
  show ?case
  proof (cases "2 * i + 1 \<ge> n \<or> \<not> lt (h ! ?j) (h ! i)")
    case True
    have "le (h ! i) (h ! k)" if "0 < k" "k < n" "par k = i" for k
      using True child_cases [OF that] smaller_child_le [OF that, of h] negtrans by auto
    moreover have "heap_down lt h i n = (h, i)" using True by (auto simp: heap_down.simps [of lt h i n] Let_def)
    ultimately show ?thesis using less.prems(1) by (auto simp: heap_ok_def high_ok_def)
  next
    case False
    then have j: "i < ?j" "?j < n" "0 < ?j" using smaller_child_bounds [of i n lt h] by auto
    have lt: "lt (h ! ?j) (h ! i)" using False by simp
    note pj = smaller_child_par [of h i n]
    define g where "g = heap_swap h i ?j"
    have g: "g ! k = (if k = i then h ! ?j else if k = ?j then h ! i else h ! k)" for k
      using j less.prems(3) by (simp add: g_def nth_swap)
    have ok: "le (h ! par k) (h ! k)" if "0 < k" "k < n" "par k \<noteq> i" for k using less.prems(1) that by (simp add: high_ok_def)
    have skip: "le (h ! par i) (h ! k)" if "0 < i" "0 < k" "k < n" "par k = i" for k
      using less.prems(1) that by (simp add: high_ok_def skips_def)
    have "le (g ! par k) (g ! k)" if k: "0 < k" "k < n" "par k \<noteq> ?j" for k
    proof (cases "par k = i")
      case True
      then show ?thesis
        using parent_less [OF k(1)] asym [OF lt] smaller_child_le [OF k(1,2) True, of h] by (auto simp: g)
    next
      case False
      then have "k \<noteq> ?j" using pj by auto
      then show ?thesis
        using k False ok [OF k(1,2) False] skip [OF _ j(3,2) pj] parent_less [OF k(1)] by (auto simp: g)
    qed
    moreover have "le (g ! par ?j) (g ! k)" if "0 < k" "k < n" "par k = ?j" for k
    proof -
      have "par k \<noteq> i" "k \<noteq> i" "k \<noteq> ?j" using that j parent_less [OF that(1)] by auto
      then show ?thesis using ok [OF that(1,2)] that(3) by (simp add: g pj [simplified])
    qed
    ultimately have "high_ok g n ?j" unfolding high_ok_def skips_def by blast
    then have "heap_ok (fst (heap_down lt g ?j n)) n" using less.hyps [of ?j g] j less.prems(2,3) by (simp add: g_def)
    then show ?thesis using False by (simp add: heap_down.simps [of lt h i n] Let_def g_def)
  qed
qed

text \<open>An element that does not move down has its children in order; one that moves leaves its place in order.\<close>

definition around_ok :: "'a list \<Rightarrow> nat \<Rightarrow> nat \<Rightarrow> bool" where
  "around_ok h n i \<longleftrightarrow> (\<forall>k. 0 < k \<and> k < n \<and> k \<noteq> i \<and> par k \<noteq> i \<longrightarrow> le (h ! par k) (h ! k)) \<and> skips h n i"

lemma settle_ok:
  assumes "around_ok h n i" "i < n" "n \<le> length h"
  shows "heap_ok (heap_settle lt h i n) n"
proof (cases "2 * i + 1 \<ge> n \<or> \<not> lt (h ! smaller_child lt h i n) (h ! i)")
  case True
  have "le (h ! i) (h ! k)" if "0 < k" "k < n" "par k = i" for k
    using True child_cases [OF that] smaller_child_le [OF that, of h] negtrans by auto
  then have "low_ok h n i" using assms(1) by (auto simp: low_ok_def around_ok_def)
  moreover have "heap_down lt h i n = (h, i)" using True by (auto simp: heap_down.simps [of lt h i n] Let_def)
  ultimately show ?thesis using up_ok assms(2,3) by (simp add: heap_settle_def)
next
  case False
  let ?j = "smaller_child lt h i n"
  have j: "i < ?j" "?j < n" "0 < ?j" using False smaller_child_bounds [of i n lt h] by auto
  have "le (h ! par i) (h ! i)" if "0 < i"
  proof -
    have "le (h ! par i) (h ! ?j)" using assms(1) that j smaller_child_par [of h i n] by (simp add: around_ok_def skips_def)
    then show ?thesis using False asym negtrans by blast
  qed
  then have "high_ok h n i" using assms(1) by (auto simp: high_ok_def around_ok_def)
  then have "heap_ok (fst (heap_down lt h i n)) n" using down_ok assms(2,3) by blast
  moreover have "heap_down lt h i n = heap_down lt (heap_swap h i ?j) ?j n"
    using False by (simp add: heap_down.simps [of lt h i n] Let_def)
  then have "i < snd (heap_down lt h i n)" using down_elements [of ?j n "heap_swap h i ?j" lt] j assms(3) by simp
  ultimately show ?thesis by (simp add: heap_settle_def case_prod_unfold Let_def)
qed

lemma settle_elements:
  assumes "i < n" "n \<le> length h"
  shows "mset (heap_settle lt h i n) = mset h" "length (heap_settle lt h i n) = length h"
    and "n \<le> k \<Longrightarrow> heap_settle lt h i n ! k = h ! k"
  using down_elements [OF assms, of lt] up_elements [of i "fst (heap_down lt h i n)" lt]
    up_above [of i "fst (heap_down lt h i n)" k lt] assms
  by (auto simp: heap_settle_def case_prod_unfold Let_def)

lemma skips_ok: "heap_ok h n \<Longrightarrow> skips h n i"
  unfolding skips_def heap_ok_def using negtrans parent_less by (meson order.strict_trans)

lemma Push_ok:
  assumes "heap_ok h (length h)"
  shows "heap_ok (heap_Push lt h x) (Suc (length h))" "mset (heap_Push lt h x) = add_mset x (mset h)"
    "length (heap_Push lt h x) = Suc (length h)"
proof -
  have "le ((h @ [x]) ! par k) ((h @ [x]) ! k)" if "0 < k" "k < length h" for k
    using assms parent_less [OF that(1)] that by (simp add: heap_ok_def nth_append)
  moreover have "par k \<noteq> length h" if "0 < k" "k < Suc (length h)" for k using parent_less [OF that(1)] that(2) by linarith
  ultimately have "low_ok (h @ [x]) (Suc (length h)) (length h)"
    unfolding low_ok_def skips_def by (metis less_SucE)
  then show "heap_ok (heap_Push lt h x) (Suc (length h))" using up_ok by (simp add: heap_Push_def)
  show "mset (heap_Push lt h x) = add_mset x (mset h)" "length (heap_Push lt h x) = Suc (length h)"
    using up_elements [of "length h" "h @ [x]" lt] by (simp_all add: heap_Push_def)
qed

lemma Fix_ok:
  assumes "heap_ok h (length h)" "i < length h"
  shows "heap_ok (heap_Fix lt (h[i := x]) i) (length h)" "mset (heap_Fix lt (h[i := x]) i) = mset (h[i := x])"
    "length (heap_Fix lt (h[i := x]) i) = length h"
proof -
  have pi: "par i \<noteq> i" if "0 < i" using parent_less [OF that] by simp
  have pk: "k \<noteq> i" if "0 < k" "par k = i" for k using parent_less [OF that(1)] that(2) by auto
  have "around_ok (h[i := x]) (length h) i"
    using assms skips_ok [OF assms(1), of i] pi pk
    by (auto simp: around_ok_def skips_def heap_ok_def nth_list_update)
  then show "heap_ok (heap_Fix lt (h[i := x]) i) (length h)" using settle_ok assms(2) by (simp add: heap_Fix_def)
  show "mset (heap_Fix lt (h[i := x]) i) = mset (h[i := x])" "length (heap_Fix lt (h[i := x]) i) = length h"
    using settle_elements [of i "length h" "h[i := x]"] assms(2) by (simp_all add: heap_Fix_def)
qed

lemma Remove_ok:
  assumes "heap_ok h (length h)" "i < length h"
  shows "heap_ok (heap_Remove lt h i) (length h - 1)" "mset (heap_Remove lt h i) = mset h - {#h ! i#}"
    "length (heap_Remove lt h i) = length h - 1"
proof -
  obtain n where n: "length h = Suc n" using assms(2) by (cases h) auto
  define g where "g = (if n \<noteq> i then heap_settle lt (heap_swap h i n) i n else h)"
  have rem: "heap_Remove lt h i = butlast g" by (simp add: heap_Remove_def g_def Let_def n)
  have par_n: "par k < n" if "0 < k" "k < n" for k using parent_less [OF that(1)] that(2) by (rule less_trans)
  have g: "heap_ok g n \<and> mset g = mset h \<and> length g = Suc n \<and> g ! n = h ! i"
  proof (cases "n = i")
    case True
    then show ?thesis using assms(1) by (simp add: g_def heap_ok_def n)
  next
    case False
    then have i: "i < n" using assms(2) n by simp
    define s where "s = heap_swap h i n"
    have s: "s ! k = (if k = i then h ! n else if k = n then h ! i else h ! k)" for k using i by (simp add: s_def nth_swap n)
    have ok: "le (h ! par k) (h ! k)" if "0 < k" "k < n" for k using assms(1) that by (simp add: heap_ok_def n)
    have "le (s ! par k) (s ! k)" if "0 < k" "k < n" "k \<noteq> i" "par k \<noteq> i" for k
      using ok [OF that(1,2)] par_n [OF that(1,2)] that by (simp add: s)
    moreover have "le (s ! par i) (s ! k)" if "0 < i" "0 < k" "k < n" "par k = i" for k
    proof -
      have "par i < i" "i < k" using parent_less [OF that(1)] parent_less [OF that(2)] that(4) by auto
      moreover have "le (h ! par i) (h ! k)" using negtrans [OF ok [OF that(1) i]] ok [OF that(2,3)] that(4) by simp
      ultimately show ?thesis using i that(3) by (simp add: s)
    qed
    ultimately have "around_ok s n i" unfolding around_ok_def skips_def by blast
    then have "heap_ok (heap_settle lt s i n) n" using settle_ok i by (simp add: s_def n)
    then show ?thesis
      using settle_elements [of i n s] i False by (simp add: g_def s mset_heap_swap n flip: s_def) (simp add: s_def mset_heap_swap n)
  qed
  have "take n g = butlast g" using g by (simp add: butlast_conv_take)
  then have app: "g = butlast g @ [h ! i]" using g take_Suc_conv_app_nth [of n g] by simp
  have "mset h = mset (butlast g @ [h ! i])" using g app by simp
  then show "mset (heap_Remove lt h i) = mset h - {#h ! i#}" by (simp add: rem)
  show "length (heap_Remove lt h i) = length h - 1" using g by (simp add: rem n)
  have "butlast g ! k = g ! k" if "k < n" for k using that g by (simp add: nth_butlast)
  then show "heap_ok (heap_Remove lt h i) (length h - 1)"
    using g par_n by (simp add: rem n heap_ok_def)
qed

end

end
