(* ===== verification/Timers.thy ===== *)
theory Timers
  imports Heap Ids "HOL-Library.Product_Lexorder"
begin

text \<open>
  The timers of \<^verbatim>\<open>epaxos/node.go\<close>: a heap ordered by deadline, with at most one timer for each instance
  and kind. \<^verbatim>\<open>schedule\<close> replaces or adds a timer and \<^verbatim>\<open>cancelTimersForRef\<close> removes the timers of an instance by
  going down the array and removing where it finds one.
\<close>

type_synonym timerKind = u8

abbreviation (input) timerPreAccept :: timerKind where "timerPreAccept \<equiv> 1"
abbreviation (input) timerAccept :: timerKind where "timerAccept \<equiv> 2"
abbreviation (input) timerPrepare :: timerKind where "timerPrepare \<equiv> 3"
abbreviation (input) timerTryPreAccept :: timerKind where "timerTryPreAccept \<equiv> 4"
abbreviation (input) timerFastWait :: timerKind where "timerFastWait \<equiv> 5"

record timer =
  t_deadline :: u64
  t_ref :: InstanceRef
  t_kind :: timerKind
  t_gen :: u64

definition timer_Less :: "timer \<Rightarrow> timer \<Rightarrow> bool" where
  "timer_Less a b =
     (if t_deadline a \<noteq> t_deadline b then t_deadline a < t_deadline b
      else if ref_Conf (t_ref a) \<noteq> ref_Conf (t_ref b) then ref_Conf (t_ref a) < ref_Conf (t_ref b)
      else if ref_Replica (t_ref a) \<noteq> ref_Replica (t_ref b) then ref_Replica (t_ref a) < ref_Replica (t_ref b)
      else if ref_Instance (t_ref a) \<noteq> ref_Instance (t_ref b) then ref_Instance (t_ref a) < ref_Instance (t_ref b)
      else if t_kind a \<noteq> t_kind b then t_kind a < t_kind b
      else t_gen a < t_gen b)"

text \<open>The loop of \<^verbatim>\<open>schedule\<close> stops at the first timer of the same instance and kind.\<close>

definition same_timer :: "timer \<Rightarrow> timer \<Rightarrow> bool" where
  "same_timer t u \<longleftrightarrow> t_ref u = t_ref t \<and> t_kind u = t_kind t"

definition putTimer :: "timer list \<Rightarrow> timer \<Rightarrow> timer list" where
  "putTimer timers t =
     (let i = length (takeWhile (\<lambda>u. \<not> same_timer t u) timers)
      in if i < length timers then heap_Fix timer_Less (timers[i := t]) i
         else heap_Push timer_Less timers t)"

fun cancelLoop :: "InstanceRef \<Rightarrow> timer list \<Rightarrow> nat \<Rightarrow> timer list" where
  "cancelLoop ref timers 0 = timers"
| "cancelLoop ref timers (Suc i) =
     cancelLoop ref (if t_ref (timers ! i) = ref then heap_Remove timer_Less timers i else timers) i"

definition cancelTimers :: "timer list \<Rightarrow> InstanceRef \<Rightarrow> timer list" where
  "cancelTimers timers ref = cancelLoop ref timers (length timers)"

section \<open>The heap of timers\<close>

lemma lex_pair: "(a, b) < (c, d) \<longleftrightarrow> (if a \<noteq> c then a < c else b < d)" for a c :: "'a::linorder" and b d :: "'b::linorder"
  by auto

lemma timer_Less_key:
  "timer_Less a b \<longleftrightarrow>
     (t_deadline a, ref_Conf (t_ref a), ref_Replica (t_ref a), ref_Instance (t_ref a), t_kind a, t_gen a) <
     (t_deadline b, ref_Conf (t_ref b), ref_Replica (t_ref b), ref_Instance (t_ref b), t_kind b, t_gen b)"
  unfolding timer_Less_def lex_pair ..

interpretation timer_heap: heap_order timer_Less
proof
  fix a b c :: timer
  show "timer_Less a b \<Longrightarrow> \<not> timer_Less b a" unfolding timer_Less_key by (rule less_not_sym)
  show "\<not> timer_Less b a \<Longrightarrow> \<not> timer_Less c b \<Longrightarrow> \<not> timer_Less c a"
    unfolding timer_Less_key not_less by (rule order_trans)
qed

definition timer_id :: "timer \<Rightarrow> InstanceRef \<times> timerKind" where
  "timer_id t = (t_ref t, t_kind t)"

definition timers_ok :: "timer list \<Rightarrow> bool" where
  "timers_ok timers \<longleftrightarrow> timer_heap.heap_ok timers (length timers) \<and> distinct (map timer_id timers)"

lemma mset_distinct_map: "mset xs = mset ys \<Longrightarrow> distinct (map f xs) \<longleftrightarrow> distinct (map f ys)"
  by (rule mset_eq_imp_distinct_iff) simp

lemma same_timer_id: "same_timer t u \<longleftrightarrow> timer_id u = timer_id t"
  by (auto simp: same_timer_def timer_id_def)

lemma first_match:
  "length (takeWhile (\<lambda>u. \<not> P u) ts) < length ts \<Longrightarrow>
   \<exists>us u vs. ts = us @ u # vs \<and> P u \<and> (\<forall>x \<in> set us. \<not> P x) \<and> length (takeWhile (\<lambda>u. \<not> P u) ts) = length us"
proof (induction ts)
  case (Cons t ts)
  show ?case
  proof (cases "P t")
    case True
    then show ?thesis by (intro exI [of _ "[]"]) simp
  next
    case False
    then obtain us u vs where "ts = us @ u # vs" "P u" "\<forall>x \<in> set us. \<not> P x" "length (takeWhile (\<lambda>u. \<not> P u) ts) = length us"
      using Cons by auto
    then show ?thesis using False by (intro exI [of _ "t # us"]) simp
  qed
qed simp

lemma no_match: "\<not> length (takeWhile (\<lambda>u. \<not> P u) ts) < length ts \<Longrightarrow> \<forall>x \<in> set ts. \<not> P x"
  by (induction ts) (auto split: if_splits)

lemma filter_all: "\<forall>x \<in> set xs. P x \<Longrightarrow> filter_mset P (mset xs) = mset xs"
  by (induction xs) auto

lemma timers_ok_nil: "timers_ok []"
  by (simp add: timers_ok_def timer_heap.heap_ok_def)

lemma putTimer_ok:
  assumes "timers_ok timers"
  shows "timers_ok (putTimer timers t)"
    "mset (putTimer timers t) = add_mset t (filter_mset (\<lambda>u. \<not> same_timer t u) (mset timers))"
proof -
  let ?i = "length (takeWhile (\<lambda>u. \<not> same_timer t u) timers)"
  have heap: "timer_heap.heap_ok timers (length timers)" and ids: "distinct (map timer_id timers)"
    using assms by (simp_all add: timers_ok_def)
  have "timers_ok (putTimer timers t) \<and>
    mset (putTimer timers t) = add_mset t (filter_mset (\<lambda>u. \<not> same_timer t u) (mset timers))"
  proof (cases "?i < length timers")
    case True
    then obtain us u vs where ts: "timers = us @ u # vs" and u: "same_timer t u"
        and us: "\<forall>x \<in> set us. \<not> same_timer t x" and i: "?i = length us"
      using first_match [of "same_timer t" timers] by auto
    have "timer_id t \<notin> timer_id ` set vs" using ids u by (simp add: ts same_timer_id)
    then have vs: "\<forall>x \<in> set vs. \<not> same_timer t x" unfolding same_timer_id by (metis imageI)
    have upd: "timers[?i := t] = us @ t # vs" unfolding i by (simp add: ts)
    note f = timer_heap.Fix_ok [OF heap True, of t]
    have "distinct (map timer_id (timers[?i := t]))" unfolding upd using ids u by (simp add: ts same_timer_id)
    then have "distinct (map timer_id (heap_Fix timer_Less (timers[?i := t]) ?i))" unfolding mset_distinct_map [OF f(2)] .
    moreover have "filter_mset (\<lambda>u. \<not> same_timer t u) (mset timers) = mset us + mset vs"
      using us vs u by (simp add: ts filter_all)
    moreover have "mset (heap_Fix timer_Less (timers[?i := t]) ?i) = add_mset t (mset us + mset vs)" unfolding f(2) by (simp add: upd)
    ultimately show ?thesis using f True by (simp add: putTimer_def Let_def timers_ok_def)
  next
    case False
    then have none: "\<forall>x \<in> set timers. \<not> same_timer t x" by (rule no_match)
    note f = timer_heap.Push_ok [OF heap, of t]
    have "distinct (map timer_id (t # timers))" using ids none by (auto simp: same_timer_id)
    then have "distinct (map timer_id (heap_Push timer_Less timers t))"
      using mset_distinct_map [of "heap_Push timer_Less timers t" "t # timers" timer_id] f(2) by simp
    moreover have "filter_mset (\<lambda>u. \<not> same_timer t u) (mset timers) = mset timers"
      using none by (rule filter_all)
    ultimately show ?thesis using f False by (simp add: putTimer_def Let_def timers_ok_def)
  qed
  then show "timers_ok (putTimer timers t)"
    "mset (putTimer timers t) = add_mset t (filter_mset (\<lambda>u. \<not> same_timer t u) (mset timers))" by blast+
qed

lemma cancelLoop_ok:
  assumes "timers_ok timers" "i \<le> length timers"
  shows "timers_ok (cancelLoop ref timers i) \<and> mset (cancelLoop ref timers i) \<subseteq># mset timers \<and>
    filter_mset (\<lambda>u. t_ref u \<noteq> ref) (mset (cancelLoop ref timers i)) = filter_mset (\<lambda>u. t_ref u \<noteq> ref) (mset timers)"
  using assms
proof (induction i arbitrary: timers)
  case (Suc i)
  show ?case
  proof (cases "t_ref (timers ! i) = ref")
    case True
    let ?ts = "heap_Remove timer_Less timers i"
    have heap: "timer_heap.heap_ok timers (length timers)" and i: "i < length timers" using Suc.prems by (simp_all add: timers_ok_def)
    note r = timer_heap.Remove_ok [OF heap i]
    have "mset timers = mset (timers ! i # ?ts)" using r(2) i by simp
    from mset_distinct_map [OF this, of timer_id] have "distinct (map timer_id ?ts)" using Suc.prems(1) by (simp add: timers_ok_def)
    then have ok: "timers_ok ?ts" using r by (simp add: timers_ok_def)
    have sub: "mset ?ts \<subseteq># mset timers" unfolding r(2) by (rule diff_subset_eq_self)
    have filt: "filter_mset (\<lambda>u. t_ref u \<noteq> ref) (mset ?ts) = filter_mset (\<lambda>u. t_ref u \<noteq> ref) (mset timers)"
      using r(2) True by simp
    have eq: "cancelLoop ref timers (Suc i) = cancelLoop ref ?ts i" using True by simp
    have "i \<le> length ?ts" using Suc.prems(2) r(3) by simp
    from Suc.IH [OF ok this] show ?thesis
      unfolding eq filt using subset_mset.order_trans [OF _ sub] by (elim conjE) (intro conjI)
  next
    case False
    then show ?thesis using Suc by simp
  qed
qed simp

text \<open>The heaps that scheduling and cancelling build.\<close>

inductive timers_reach :: "timer list \<Rightarrow> bool" where
  timers_reach_nil: "timers_reach []"
| timers_reach_put: "timers_reach ts \<Longrightarrow> timers_reach (putTimer ts t)"
| timers_reach_cancel: "timers_reach ts \<Longrightarrow> timers_reach (cancelTimers ts ref)"

lemma reach_ok: "timers_reach ts \<Longrightarrow> timers_ok ts"
proof (induction rule: timers_reach.induct)
  case (timers_reach_cancel ts ref)
  then show ?case using cancelLoop_ok [of ts "length ts" ref] by (simp add: cancelTimers_def)
qed (simp_all add: timers_ok_nil putTimer_ok)

lemma heap_first:
  assumes "timers_ok ts" "t \<in> set ts"
  shows "t_deadline (hd ts) \<le> t_deadline t"
proof -
  obtain k where k: "k < length ts" "t = ts ! k" using assms(2) by (auto simp: in_set_conv_nth)
  have "\<not> timer_Less (ts ! k) (ts ! 0)" using k(1)
  proof (induction k rule: less_induct)
    case (less k)
    show ?case
    proof (cases "k = 0")
      case True
      then show ?thesis using timer_heap.asym by blast
    next
      case False
      have "(k - 1) div 2 < k" using parent_less False by simp
      then have "\<not> timer_Less (ts ! ((k - 1) div 2)) (ts ! 0)" using less by simp
      moreover have "\<not> timer_Less (ts ! k) (ts ! ((k - 1) div 2))"
        using assms(1) less.prems False by (simp add: timers_ok_def timer_heap.heap_ok_def)
      ultimately show ?thesis using timer_heap.negtrans by blast
    qed
  qed
  then show ?thesis using k by (cases ts) (auto simp: timer_Less_def split: if_splits)
qed

text \<open>
  C41. The timers stay a heap with at most one timer for each instance and kind, however they are scheduled and
  cancelled: scheduling puts exactly the new timer in the place of the old one of its instance and kind,
  cancelling leaves the timers of the other instances alone, and the first timer of the array is the
  earliest.
\<close>

theorem timers_invariant:
  assumes "timers_reach ts"
  shows "distinct (map timer_id ts) \<and>
    (\<forall>t \<in> set ts. t_deadline (hd ts) \<le> t_deadline t) \<and>
    mset (putTimer ts t) = add_mset t (filter_mset (\<lambda>u. \<not> same_timer t u) (mset ts)) \<and>
    mset (cancelTimers ts ref) \<subseteq># mset ts \<and>
    filter_mset (\<lambda>u. t_ref u \<noteq> ref) (mset (cancelTimers ts ref)) = filter_mset (\<lambda>u. t_ref u \<noteq> ref) (mset ts)"
proof -
  note ok = reach_ok [OF assms]
  have "distinct (map timer_id ts)" using ok by (simp add: timers_ok_def)
  then show ?thesis
    using heap_first [OF ok] putTimer_ok(2) [OF ok, of t] cancelLoop_ok [OF ok order_refl, of ref]
    by (simp add: cancelTimers_def)
qed

definition example_timers :: "timer list" where
  "example_timers =
     (let t = (\<lambda>d i k. \<lparr>t_deadline = d, t_ref = InstanceRef 1 i 1, t_kind = k, t_gen = 0\<rparr>)
      in fold (\<lambda>t ts. putTimer ts t)
           [t 1 1 timerPrepare, t 10 7 timerPreAccept, t 2 2 timerPrepare, t 11 7 timerFastWait, t 12 3 timerPrepare,
            t 3 4 timerPrepare] [])"

lemma example_timers_reach: "timers_reach example_timers"
  by (simp add: example_timers_def Let_def timers_reach.intros)

theorem timers_invariant_witness:
  "timers_reach example_timers \<and> mset (cancelTimers example_timers (InstanceRef 1 2 1)) \<subseteq># mset example_timers \<and>
   distinct (map timer_id example_timers)"
  using timers_invariant [OF example_timers_reach, of "hd example_timers" "InstanceRef 1 2 1"] example_timers_reach by simp

text \<open>
  C42. \<^verbatim>\<open>cancelTimersForRef\<close> does not remove every timer of the instance. It goes down the array and removes where
  it finds one, but \<^verbatim>\<open>heap.Remove\<close> may move an element from before the position to that position, and the
  loop has passed it: in a heap of six timers that the node can build, one of the two timers of instance 7
  survives.
\<close>

theorem cancelTimersForRef_misses:
  "\<exists>ts ref. timers_reach ts \<and> length (filter (\<lambda>t. t_ref t = ref) (cancelTimers ts ref)) = 1 \<and>
     length (filter (\<lambda>t. t_ref t = ref) ts) = 2"
proof (intro exI conjI)
  show "timers_reach example_timers" by (rule example_timers_reach)
  show "length (filter (\<lambda>t. t_ref t = InstanceRef 1 7 1) (cancelTimers example_timers (InstanceRef 1 7 1))) = 1" by code_simp
  show "length (filter (\<lambda>t. t_ref t = InstanceRef 1 7 1) example_timers) = 2" by code_simp
qed

end
