(* ===== verification/Node.thy ===== *)
theory Node
  imports ConflictEngine VoteSet Tracker Timers Checkpoints
begin

text \<open>
  The state of a replica, \<^verbatim>\<open>RawNode\<close> of \<^verbatim>\<open>epaxos/node.go\<close>, with the fields that the acceptor side of the
  protocol and the execution scheduler use, and the helpers the handlers share: the queues of the next
  Ready batch, deferred messages, timers, and the installation of an instance.

  Maps are partial functions, or functions where the source reads a zero for a missing key; a nil map is an
  empty one. An entry of \<^verbatim>\<open>instances\<close> is never a nil pointer, and a write through the pointer to an
  instance is an update of the map. A queue of deferred messages is the array of its heap, and the \<^verbatim>\<open>index\<close> of an
  entry is its position there. A range over a map whose order shows in the heap takes the order of the
  keys as a parameter. A method that can fail returns the node and the error: what it changed before the
  error stays changed. An error that wraps others is the sentinel it names last.
\<close>

section \<open>The state\<close>

type_synonym phase = u8

abbreviation (input) phaseIdle :: phase where "phaseIdle \<equiv> 0"
abbreviation (input) phasePreAccept :: phase where "phasePreAccept \<equiv> 1"
abbreviation (input) phaseAccept :: phase where "phaseAccept \<equiv> 2"
abbreviation (input) phasePrepare :: phase where "phasePrepare \<equiv> 3"
abbreviation (input) phaseTryPreAccept :: phase where "phaseTryPreAccept \<equiv> 4"
abbreviation (input) phaseCommitted :: phase where "phaseCommitted \<equiv> 5"

record inst =
  i_rec :: InstanceRecord
  i_phase :: phase
  i_preOK :: "attrVoteSet option"
  i_accOK :: voterMask
  i_prepareOK :: "recordVoteSet option"
  i_tryOK :: voterMask
  i_tryDeferred :: "InstanceRef set"
  i_prepareEvidence :: "recordVoteSet option"
  i_tryIgnored :: "InstanceRef set"
  i_createdTick :: u64
  i_waitDeadline :: u64
  i_processAt :: u64
  i_generation :: u64
  i_payloadAbsent :: bool
  i_payloadChecksum :: bytes

text \<open>The literal \<^verbatim>\<open>&instance{rec: rec, phase: phase}\<close>; the fields it leaves out are zero.\<close>

definition newInstance :: "InstanceRecord \<Rightarrow> phase \<Rightarrow> inst" where
  "newInstance rec phase = \<lparr>i_rec = rec, i_phase = phase, i_preOK = None, i_accOK = 0, i_prepareOK = None,
     i_tryOK = 0, i_tryDeferred = {}, i_prepareEvidence = None, i_tryIgnored = {}, i_createdTick = 0,
     i_waitDeadline = 0, i_processAt = 0, i_generation = 0, i_payloadAbsent = False, i_payloadChecksum = zero_digest\<rparr>"

type_synonym preAcceptDomain = u8

abbreviation (input) preAcceptLogical :: preAcceptDomain where "preAcceptLogical \<equiv> 1"
abbreviation (input) preAcceptTOQ :: preAcceptDomain where "preAcceptTOQ \<equiv> 2"

record deferredPreAcceptKey =
  dk_domain :: preAcceptDomain
  dk_ref :: InstanceRef
  dk_ballot :: Ballot
  dk_from :: ReplicaID

record deferredPreAccept =
  de_key :: deferredPreAcceptKey
  de_message :: Message

record recordLoadExport =
  ex_messageType :: MessageType
  ex_to :: ReplicaID

record recordLoadWait =
  w_messages :: "Message list"
  w_requested :: bool
  w_required :: bool
  w_needReadyRecord :: bool
  w_exports :: "recordLoadExport list"

record tryEvidenceKey =
  ek_target :: InstanceRef
  ek_conflict :: InstanceRef
  ek_ballot :: Ballot

text \<open>The queues of a Ready batch that the handlers fill.\<close>

record Ready =
  rd_Records :: "InstanceRecord list"
  rd_Messages :: "Message list"
  rd_RecordLoads :: "InstanceRef list"
  rd_MustSync :: bool

definition zero_ready :: Ready where
  "zero_ready = \<lparr>rd_Records = [], rd_Messages = [], rd_RecordLoads = [], rd_MustSync = False\<rparr>"

record RawNode =
  n_id :: ReplicaID
  n_confHistory :: "ConfID \<rightharpoonup> ConfState"
  n_cluster :: bytes
  n_voterIdentities :: "ReplicaID \<rightharpoonup> VoterIdentity"
  n_recoveryTicks :: u64
  n_timeOptimization :: bool
  n_toqEnabled :: bool
  n_tick :: u64
  n_nextInstance :: InstanceNum
  n_instances :: "InstanceRef \<rightharpoonup> inst"
  n_engine :: conflictEngine
  n_executed :: executedTracker
  n_pendingConf :: bool
  n_timers :: "timer list"
  n_pendingReady :: Ready
  n_nextReady :: Ready
  n_awaitAdvance :: bool
  n_logicalPreAccepts :: "deferredPreAccept list"
  n_toqPreAccepts :: "deferredPreAccept list"
  n_deferredIndex :: "deferredPreAcceptKey \<rightharpoonup> deferredPreAccept"
  n_pendingRecordLoads :: "InstanceRef \<rightharpoonup> recordLoadWait"
  n_pendingRecordLoadMessages :: int
  n_maxDeferredRecordLoads :: int
  n_tryEvidenceChecks :: "tryEvidenceKey \<rightharpoonup> (ReplicaID \<rightharpoonup> InstanceRecord)"
  n_committedThrough :: "instanceLane \<Rightarrow> InstanceNum"

text \<open>A node with the given identity and configurations, and nothing else yet.\<close>

definition emptyNode :: "ReplicaID \<Rightarrow> (ConfID \<rightharpoonup> ConfState) \<Rightarrow> RawNode" where
  "emptyNode self history = \<lparr>n_id = self, n_confHistory = history, n_cluster = zero_digest,
     n_voterIdentities = Map.empty, n_recoveryTicks = 10, n_timeOptimization = False, n_toqEnabled = False,
     n_tick = 0, n_nextInstance = 1, n_instances = Map.empty, n_engine = zero_engine,
     n_executed = newExecutedTracker, n_pendingConf = False, n_timers = [], n_pendingReady = zero_ready,
     n_nextReady = zero_ready, n_awaitAdvance = False, n_logicalPreAccepts = [], n_toqPreAccepts = [],
     n_deferredIndex = Map.empty, n_pendingRecordLoads = Map.empty, n_pendingRecordLoadMessages = 0,
     n_maxDeferredRecordLoads = 64, n_tryEvidenceChecks = Map.empty, n_committedThrough = (\<lambda>_. 0)\<rparr>"

section \<open>Configurations\<close>

definition lookupConf :: "RawNode \<Rightarrow> ConfID \<Rightarrow> ConfState \<times> bool" where
  "lookupConf n c = (case n_confHistory n c of None \<Rightarrow> (zero_conf, False) | Some conf \<Rightarrow> (conf, True))"

definition confFor :: "RawNode \<Rightarrow> ConfID \<Rightarrow> ConfState" where
  "confFor n c = fst (lookupConf n c)"

definition depsForConf :: "RawNode \<Rightarrow> ConfID \<Rightarrow> InstanceNum list" where
  "depsForConf n c = replicate (length (conf_Voters (confFor n c))) 0"

definition ensureRecordDeps :: "RawNode \<Rightarrow> InstanceRecord \<Rightarrow> InstanceRecord \<times> bool" where
  "ensureRecordDeps n rec =
     (let width = length (conf_Voters (confFor n (ref_Conf (r_Ref rec)))) in
      if length (r_Deps rec) = width then (rec, False)
      else (rec\<lparr>r_Deps := take width (r_Deps rec @ replicate (width - length (r_Deps rec)) 0)\<rparr>, True))"

definition voterIncarnation :: "RawNode \<Rightarrow> ReplicaID \<Rightarrow> u64" where
  "voterIncarnation n voter =
     (let known = (case n_voterIdentities n voter of None \<Rightarrow> 0 | Some identity \<Rightarrow> vi_Incarnation identity)
      in if known \<noteq> 0 then known else if n_cluster n = zero_digest then 1 else 0)"

section \<open>Values\<close>

definition commandEqual :: "Command \<Rightarrow> Command \<Rightarrow> bool" where
  "commandEqual a b \<longleftrightarrow> cmd_ID a = cmd_ID b \<and> cmd_Payload a = cmd_Payload b \<and>
     footprintEqual (cmd_Footprint a) (cmd_Footprint b) \<and> cmd_CycleKey a = cmd_CycleKey b"

definition recordsConflict :: "InstanceRecord \<Rightarrow> InstanceRecord \<Rightarrow> bool" where
  "recordsConflict a b =
     (if r_Kind a = EntryNoop \<or> r_Kind b = EntryNoop \<or> r_Kind a = 0 \<or> r_Kind b = 0 then False
      else if recordHasGlobalConflictScope a \<or> recordHasGlobalConflictScope b then True
      else footprintsConflict (cmd_Footprint (r_Command a)) (cmd_Footprint (r_Command b)))"

definition dependencyKnownAfter :: "RawNode \<Rightarrow> InstanceRef \<Rightarrow> InstanceRef \<Rightarrow> Status \<Rightarrow> bool" where
  "dependencyKnownAfter n base other minStatus =
     (if ref_Conf base \<noteq> ref_Conf other then False
      else case (n_instances n base, n_instances n other) of
          (Some baseInst, Some otherInst) \<Rightarrow>
            (if r_Status (i_rec otherInst) < minStatus then False
             else if r_Seq (i_rec otherInst) \<le> r_Seq (i_rec baseInst) then False
             else
               let (idx, ok) = conf_Index (confFor n (ref_Conf base)) (ref_Replica base)
               in if \<not> ok \<or> idx \<ge> length (r_Deps (i_rec otherInst)) then False
                  else r_Deps (i_rec otherInst) ! idx \<ge> ref_Instance base)
        | _ \<Rightarrow> False)"

definition timingDomainFromMessage :: "Message \<Rightarrow> TimingDomain" where
  "timingDomainFromMessage m =
     (if m_TOQ m then TimingDomainTOQ else if m_ProcessAt m \<noteq> 0 then TimingDomainLogical else TimingDomainUntimed)"

definition recordUsesTOQ :: "InstanceRecord \<Rightarrow> bool" where
  "recordUsesTOQ rec \<longleftrightarrow> r_TimingDomain rec = TimingDomainTOQ"

definition recordTupleBallot :: "InstanceRecord \<Rightarrow> Ballot" where
  "recordTupleBallot rec = r_RecordBallot rec"

definition checkedLogicalAdd :: "u64 \<Rightarrow> u64 \<Rightarrow> error + u64" where
  "checkedLogicalAdd now after = (if NOT 0 - now < after then Inl ErrLogicalTimeExhausted else Inr (now + after))"

definition checkedLogicalDeadline :: "u64 \<Rightarrow> u64 \<Rightarrow> error + u64" where
  "checkedLogicalDeadline now after = checkedLogicalAdd now (if after = 0 then 1 else after)"

definition sortRefs :: "InstanceRef list \<Rightarrow> InstanceRef list" where
  "sortRefs refs = sort refs"

section \<open>The Ready queues and record loads\<close>

text \<open>An update through the pointer \<^verbatim>\<open>readyTarget\<close> returns.\<close>

definition updateReady :: "RawNode \<Rightarrow> (Ready \<Rightarrow> Ready) \<Rightarrow> RawNode" where
  "updateReady n f = (if n_awaitAdvance n then n\<lparr>n_nextReady := f (n_nextReady n)\<rparr> else n\<lparr>n_pendingReady := f (n_pendingReady n)\<rparr>)"

definition enqueueMessage :: "(bytes \<Rightarrow> bytes) \<Rightarrow> RawNode \<Rightarrow> Message \<Rightarrow> RawNode" where
  "enqueueMessage H n m =
     (let m = (if m_Deps m = [] \<and> (m_Type m = MsgPreAcceptResp \<or> m_Type m = MsgAcceptResp \<or> m_Type m = MsgPrepareResp \<or>
                 m_Type m = MsgTryPreAcceptResp \<or> m_Type m = MsgEvidenceResp)
               then m\<lparr>m_Deps := depsForConf n (ref_Conf (m_Ref m))\<rparr> else m);
          m = m\<lparr>m_FromIncarnation := voterIncarnation n (m_From m), m_ToIncarnation := voterIncarnation n (m_To m)\<rparr>;
          m = m\<lparr>m_Checksum := ChecksumMessage H m\<rparr>
      in updateReady n (\<lambda>t. t\<lparr>rd_Messages := rd_Messages t @ [m]\<rparr>))"

definition deferRecordLoadWith :: "RawNode \<Rightarrow> InstanceRef \<Rightarrow> Message \<Rightarrow> bool \<Rightarrow> bool \<Rightarrow> RawNode \<times> error option" where
  "deferRecordLoadWith n ref m required keepMessage =
     (if n_pendingRecordLoads n ref = None \<and> keepMessage \<and> n_pendingRecordLoadMessages n \<ge> n_maxDeferredRecordLoads n
      then (n, Some ErrDeferredRecordLoadFull)
      else
        let (n, wait) =
              (case n_pendingRecordLoads n ref of
                 Some wait \<Rightarrow> (n, wait)
               | None \<Rightarrow>
                   (updateReady n (\<lambda>t. t\<lparr>rd_RecordLoads := remdups_adj (sortRefs (rd_RecordLoads t @ [ref]))\<rparr>),
                    \<lparr>w_messages = [], w_requested = True, w_required = False, w_needReadyRecord = False, w_exports = []\<rparr>));
            wait = wait\<lparr>w_required := w_required wait \<or> required\<rparr>
        in if \<not> keepMessage then (n\<lparr>n_pendingRecordLoads := (n_pendingRecordLoads n)(ref \<mapsto> wait)\<rparr>, None)
           else if n_pendingRecordLoadMessages n \<ge> n_maxDeferredRecordLoads n
           then (n\<lparr>n_pendingRecordLoads := (n_pendingRecordLoads n)(ref \<mapsto> wait)\<rparr>, Some ErrDeferredRecordLoadFull)
           else (n\<lparr>n_pendingRecordLoads := (n_pendingRecordLoads n)(ref \<mapsto> wait\<lparr>w_messages := w_messages wait @ [m]\<rparr>),
                   n_pendingRecordLoadMessages := n_pendingRecordLoadMessages n + 1\<rparr>, None))"

definition deferRecordLoad :: "RawNode \<Rightarrow> InstanceRef \<Rightarrow> Message \<Rightarrow> RawNode \<times> error option" where
  "deferRecordLoad n ref m = deferRecordLoadWith n ref m False True"

definition deferRecordLoadRequired :: "RawNode \<Rightarrow> InstanceRef \<Rightarrow> Message \<Rightarrow> RawNode \<times> error option" where
  "deferRecordLoadRequired n ref m = deferRecordLoadWith n ref m True True"

definition deferRecordLoadRequiredWithoutMessage :: "RawNode \<Rightarrow> InstanceRef \<Rightarrow> RawNode \<times> error option" where
  "deferRecordLoadRequiredWithoutMessage n ref = deferRecordLoadWith n ref zero_message True False"

definition updateWait :: "RawNode \<Rightarrow> InstanceRef \<Rightarrow> (recordLoadWait \<Rightarrow> recordLoadWait) \<Rightarrow> RawNode" where
  "updateWait n ref f = n\<lparr>n_pendingRecordLoads := (n_pendingRecordLoads n)(ref := map_option f (n_pendingRecordLoads n ref))\<rparr>"

definition deferRecordLoadExport :: "RawNode \<Rightarrow> InstanceRef \<Rightarrow> MessageType \<Rightarrow> ReplicaID \<Rightarrow> RawNode" where
  "deferRecordLoadExport n ref messageType to =
     (case deferRecordLoadRequiredWithoutMessage n ref of
        (n, Some err) \<Rightarrow> n
      | (n, None) \<Rightarrow>
          updateWait n ref (\<lambda>wait.
            if \<exists>export \<in> set (w_exports wait). ex_messageType export = messageType \<and> ex_to export = to then wait
            else wait\<lparr>w_exports := w_exports wait @ [\<lparr>ex_messageType = messageType, ex_to = to\<rparr>]\<rparr>))"

definition needsRecordLoad :: "RawNode \<Rightarrow> InstanceRef \<Rightarrow> bool" where
  "needsRecordLoad n ref =
     (if ref_IsZero ref \<or> ref_Instance ref = 0 then False
      else if n_instances n ref \<noteq> None then False
      else ref_Instance ref \<le> foldedThrough (n_engine n) (laneFor ref))"

text \<open>Whether the payload of an instance is there; if not, the message waits for it.\<close>

definition requirePayload :: "RawNode \<Rightarrow> InstanceRef \<Rightarrow> Message \<Rightarrow> RawNode \<times> bool \<times> error option" where
  "requirePayload n ref m =
     (case n_instances n ref of
        None \<Rightarrow> (n, True, None)
      | Some inst \<Rightarrow>
          if \<not> i_payloadAbsent inst then (n, True, None)
          else let (n, err) = deferRecordLoadRequired n ref m in (n, False, err))"

definition exportRecord :: "RawNode \<Rightarrow> InstanceRef \<Rightarrow> RawNode \<times> InstanceRecord option" where
  "exportRecord n ref =
     (case n_instances n ref of
        None \<Rightarrow> (n, None)
      | Some inst \<Rightarrow>
          if \<not> i_payloadAbsent inst then (n, Some (i_rec inst))
          else (fst (deferRecordLoadRequiredWithoutMessage n ref), None))"

definition enqueueRecord :: "(bytes \<Rightarrow> bytes) \<Rightarrow> RawNode \<Rightarrow> InstanceRecord \<Rightarrow> RawNode" where
  "enqueueRecord H n rec =
     (if (case n_instances n (r_Ref rec) of None \<Rightarrow> False | Some inst \<Rightarrow> i_payloadAbsent inst)
      then (case deferRecordLoadRequiredWithoutMessage n (r_Ref rec) of
              (n, None) \<Rightarrow> updateWait n (r_Ref rec) (\<lambda>wait. wait\<lparr>w_needReadyRecord := True\<rparr>)
            | (n, Some err) \<Rightarrow> n)
      else
        let rec = (if r_Checksum rec = zero_digest then rec\<lparr>r_Checksum := ChecksumRecord H rec\<rparr> else rec)
        in updateReady n (\<lambda>t. t\<lparr>rd_Records := rd_Records t @ [rec], rd_MustSync := True\<rparr>))"

definition messageFromRecord :: "RawNode \<Rightarrow> MessageType \<Rightarrow> ReplicaID \<Rightarrow> InstanceRecord \<Rightarrow> Message" where
  "messageFromRecord n typ to rec = zero_message\<lparr>m_Type := typ, m_From := n_id n, m_To := to, m_Ref := r_Ref rec,
     m_Ballot := r_Ballot rec, m_Seq := r_Seq rec, m_Deps := r_Deps rec, m_Kind := r_Kind rec,
     m_Command := r_Command rec, m_ConfChange := r_ConfChange rec, m_ProtocolControl := r_ProtocolControl rec,
     m_ProcessAt := r_ProcessAt rec, m_TOQ := recordUsesTOQ rec\<rparr>"

definition sendReject :: "(bytes \<Rightarrow> bytes) \<Rightarrow> RawNode \<Rightarrow> MessageType \<Rightarrow> ReplicaID \<Rightarrow> InstanceRef \<Rightarrow> Ballot \<Rightarrow> RawNode" where
  "sendReject H n t to ref hint =
     enqueueMessage H n (zero_message\<lparr>m_Type := t, m_From := n_id n, m_To := to, m_Ref := ref, m_Ballot := hint,
       m_Reject := True, m_RejectReason := (if t = MsgTryPreAcceptResp then RejectStaleBallot else RejectNone),
       m_RejectHint := hint, m_Deps := depsForConf n (ref_Conf ref)\<rparr>)"

definition sendCommitTo :: "(bytes \<Rightarrow> bytes) \<Rightarrow> RawNode \<Rightarrow> ReplicaID \<Rightarrow> InstanceRecord \<Rightarrow> RawNode" where
  "sendCommitTo H n to rec =
     (case exportRecord n (r_Ref rec) of
        (n, None) \<Rightarrow> deferRecordLoadExport n (r_Ref rec) MsgCommit to
      | (n, Some rec) \<Rightarrow>
          enqueueMessage H n ((messageFromRecord n MsgCommit to rec)\<lparr>m_RecordBallot := recordTupleBallot rec,
            m_AcceptSeq := r_AcceptSeq rec, m_AcceptDeps := r_AcceptDeps rec, m_AcceptEvidence := r_AcceptEvidence rec\<rparr>))"

section \<open>Deferred messages\<close>

definition preAcceptOrderBefore :: "u64 \<Rightarrow> InstanceRef \<Rightarrow> u64 \<Rightarrow> InstanceRef \<Rightarrow> bool" where
  "preAcceptOrderBefore aProcessAt aRef bProcessAt bRef =
     (if aProcessAt \<noteq> bProcessAt then aProcessAt < bProcessAt
      else if ref_Conf aRef \<noteq> ref_Conf bRef then ref_Conf aRef < ref_Conf bRef
      else if ref_Replica aRef \<noteq> ref_Replica bRef then ref_Replica aRef < ref_Replica bRef
      else ref_Instance aRef < ref_Instance bRef)"

definition preAcceptMessageLess :: "Message \<Rightarrow> Message \<Rightarrow> bool" where
  "preAcceptMessageLess a b =
     (if preAcceptOrderBefore (m_ProcessAt a) (m_Ref a) (m_ProcessAt b) (m_Ref b) then True
      else if preAcceptOrderBefore (m_ProcessAt b) (m_Ref b) (m_ProcessAt a) (m_Ref a) then False
      else m_From a < m_From b)"

definition deferred_Less :: "deferredPreAccept \<Rightarrow> deferredPreAccept \<Rightarrow> bool" where
  "deferred_Less x y =
     (let a = de_message x; b = de_message y in
      if preAcceptMessageLess a b then True
      else if preAcceptMessageLess b a then False
      else if bal_Epoch (m_Ballot a) \<noteq> bal_Epoch (m_Ballot b) then bal_Epoch (m_Ballot a) < bal_Epoch (m_Ballot b)
      else if bal_Number (m_Ballot a) \<noteq> bal_Number (m_Ballot b) then bal_Number (m_Ballot a) < bal_Number (m_Ballot b)
      else bal_Replica (m_Ballot a) < bal_Replica (m_Ballot b))"

text \<open>Removing an entry from its queue: at its index, unless it is not in the queue.\<close>

definition removeEntry :: "deferredPreAccept list \<Rightarrow> deferredPreAcceptKey \<Rightarrow> deferredPreAccept list" where
  "removeEntry queue key =
     (let index = length (takeWhile (\<lambda>e. de_key e \<noteq> key) queue)
      in if index < length queue then heap_Remove deferred_Less queue index else queue)"

fun removeDeferred :: "deferredPreAcceptKey list \<Rightarrow> InstanceRef \<Rightarrow> RawNode \<Rightarrow> RawNode" where
  "removeDeferred [] ref n = n"
| "removeDeferred (key # keys) ref n =
     removeDeferred keys ref
       (if dk_ref key \<noteq> ref \<or> n_deferredIndex n key = None then n
        else
          let n = (if dk_domain key = preAcceptTOQ then n\<lparr>n_toqPreAccepts := removeEntry (n_toqPreAccepts n) key\<rparr>
                   else n\<lparr>n_logicalPreAccepts := removeEntry (n_logicalPreAccepts n) key\<rparr>)
          in n\<lparr>n_deferredIndex := (n_deferredIndex n)(key := None)\<rparr>)"

definition removeDeferredPreAccepts :: "deferredPreAcceptKey list \<Rightarrow> RawNode \<Rightarrow> InstanceRef \<Rightarrow> RawNode" where
  "removeDeferredPreAccepts keys n ref = removeDeferred keys ref n"

section \<open>Instances\<close>

definition observeInstanceRef :: "RawNode \<Rightarrow> InstanceRef \<Rightarrow> RawNode" where
  "observeInstanceRef n ref =
     (if ref_Replica ref \<noteq> n_id n \<or> n_nextInstance n = 0 \<or> ref_Instance ref < n_nextInstance n then n
      else case instanceSuccessor (ref_Instance ref) of
          None \<Rightarrow> n\<lparr>n_nextInstance := 0\<rparr>
        | Some nxt \<Rightarrow> n\<lparr>n_nextInstance := nxt\<rparr>)"

definition markPendingConf :: "RawNode \<Rightarrow> InstanceRecord \<Rightarrow> RawNode" where
  "markPendingConf n rec =
     (if r_Kind rec = EntryConfChange \<and> r_Status rec < StatusExecuted \<and> (r_Status rec \<ge> StatusPreAccepted \<or> r_TOQPending rec)
      then n\<lparr>n_pendingConf := True\<rparr> else n)"

definition schedule :: "RawNode \<Rightarrow> inst \<Rightarrow> timerKind \<Rightarrow> u64 \<Rightarrow> RawNode \<times> error option" where
  "schedule n inst kind after =
     (case checkedLogicalDeadline (n_tick n) after of
        Inl err \<Rightarrow> (n, Some err)
      | Inr deadline \<Rightarrow>
          (n\<lparr>n_timers := putTimer (n_timers n)
               \<lparr>t_deadline = deadline, t_ref = r_Ref (i_rec inst), t_kind = kind, t_gen = i_generation inst\<rparr>\<rparr>, None))"

definition updateInstance :: "RawNode \<Rightarrow> InstanceRef \<Rightarrow> (inst \<Rightarrow> inst) \<Rightarrow> RawNode" where
  "updateInstance n ref f = n\<lparr>n_instances := (n_instances n)(ref := map_option f (n_instances n ref))\<rparr>"

definition scheduleRecovery :: "RawNode \<Rightarrow> InstanceRef \<Rightarrow> RawNode \<times> error option" where
  "scheduleRecovery n ref =
     (case n_instances n ref of
        None \<Rightarrow> (n, None)
      | Some inst \<Rightarrow>
          if r_Status (i_rec inst) \<ge> StatusCommitted \<or> i_phase inst = phasePrepare then (n, None)
          else if i_waitDeadline inst > n_tick n then (n, None)
          else case checkedLogicalDeadline (n_tick n) (n_recoveryTicks n) of
              Inl err \<Rightarrow> (n, Some err)
            | Inr deadline \<Rightarrow>
                (case schedule n inst timerPrepare (n_recoveryTicks n) of
                   (n, Some err) \<Rightarrow> (n, Some err)
                 | (n, None) \<Rightarrow> (updateInstance n ref (\<lambda>i. i\<lparr>i_waitDeadline := deadline\<rparr>), None)))"

definition cancelTimersForRef :: "RawNode \<Rightarrow> InstanceRef \<Rightarrow> RawNode" where
  "cancelTimersForRef n ref = n\<lparr>n_timers := cancelTimers (n_timers n) ref\<rparr>"

definition dropTryEvidenceChecksForTarget :: "RawNode \<Rightarrow> InstanceRef \<Rightarrow> RawNode" where
  "dropTryEvidenceChecksForTarget n target =
     n\<lparr>n_tryEvidenceChecks := (\<lambda>key. if ek_target key = target then None else n_tryEvidenceChecks n key)\<rparr>"

text \<open>The sets that go back to their pools are reset; the instance forgets them.\<close>

definition releaseInstanceVolatile :: "inst \<Rightarrow> inst" where
  "releaseInstanceVolatile inst = inst\<lparr>i_preOK := None, i_accOK := 0, i_prepareOK := None, i_prepareEvidence := None,
     i_tryOK := 0, i_tryDeferred := {}, i_tryIgnored := {}, i_waitDeadline := 0, i_processAt := r_ProcessAt (i_rec inst)\<rparr>"

function noteLoop :: "(InstanceRef \<rightharpoonup> inst) \<Rightarrow> instanceLane \<Rightarrow> InstanceNum \<Rightarrow> (instanceLane \<Rightarrow> InstanceNum) \<Rightarrow>
    (instanceLane \<Rightarrow> InstanceNum)" where
  "noteLoop instances lane cur through =
     (case instances (refOf lane cur) of
        None \<Rightarrow> through
      | Some inst \<Rightarrow>
          if r_Status (i_rec inst) < StatusCommitted then through
          else case instanceSuccessor cur of
              None \<Rightarrow> through(lane := cur)
            | Some nxt \<Rightarrow> noteLoop instances lane nxt (through(lane := cur)))"
  by pat_completeness auto
termination
proof (relation "measure (\<lambda>(instances, lane, cur, through). 2 ^ 64 - unat cur)", simp)
  fix instances :: "InstanceRef \<rightharpoonup> inst" and lane :: instanceLane and cur nxt :: InstanceNum and through inst
  assume "instanceSuccessor cur = Some nxt"
  then have "unat nxt = Suc (unat cur)" by (rule instanceSuccessor_Some)
  moreover have "unat nxt < 2 ^ 64" using unsigned_less [of nxt] by simp
  ultimately show "((instances, lane, nxt, through(lane := cur)), instances, lane, cur, through) \<in>
      measure (\<lambda>(instances, lane, cur, through). 2 ^ 64 - unat cur)" by simp
qed

declare noteLoop.simps [simp del]

definition noteCommitted :: "RawNode \<Rightarrow> InstanceRef \<Rightarrow> RawNode" where
  "noteCommitted n ref =
     (if ref_IsZero ref \<or> ref_Instance ref = 0 then n
      else
        let lane = laneFor ref; through = n_committedThrough n lane
        in if ref_Instance ref \<le> through then n
           else case instanceSuccessor through of
               None \<Rightarrow> n
             | Some next \<Rightarrow>
                 if ref_Instance ref \<noteq> next then n
                 else n\<lparr>n_committedThrough := noteLoop (n_instances n) lane next (n_committedThrough n)\<rparr>)"

text \<open>The instance is new, so that the one it replaces is another one.\<close>

definition installInstance :: "RawNode \<Rightarrow> inst \<Rightarrow> RawNode" where
  "installInstance n inst =
     (let ref = r_Ref (i_rec inst);
          previous = map_option i_rec (n_instances n ref);
          n = (if previous \<noteq> None then cancelTimersForRef n ref else n);
          n = dropTryEvidenceChecksForTarget n ref;
          n = n\<lparr>n_engine := engine_apply (n_engine n) previous (i_rec inst), n_instances := (n_instances n)(ref \<mapsto> inst)\<rparr>;
          n = (if r_Status (i_rec inst) \<ge> StatusCommitted
               then updateInstance (noteCommitted n ref) ref releaseInstanceVolatile else n)
      in if r_Status (i_rec inst) = StatusExecuted then n\<lparr>n_executed := tracker_add (n_executed n) ref\<rparr> else n)"

end
