(* ===== verification/Tarjan.thy ===== *)
theory Tarjan
  imports Prelude "HOL-Library.While_Combinator"
begin

text \<open>
  The strongly connected components of \<^verbatim>\<open>executionComponents\<close> in \<^verbatim>\<open>epaxos/sparse_progress.go\<close>: Tarjan's
  algorithm with an explicit stack of frames. The graph is a parameter here, a list of dependencies
  for each vertex and a test that skips some of them; the execution view supplies both. The maps
  \<^verbatim>\<open>index\<close>, \<^verbatim>\<open>low\<close> and \<^verbatim>\<open>onStack\<close> of the workspace are functions, the two stacks are lists with the top
  first, and a frame that has not been entered has no iterator yet.
\<close>

section \<open>The algorithm\<close>

record 'v tarjanFrame =
  fr_vertex :: 'v
  fr_iter :: "'v list option"
  fr_child :: "'v option"

record 'v executionWorkspace =
  ws_index :: "'v \<rightharpoonup> nat"
  ws_low :: "'v \<Rightarrow> nat"
  ws_onStack :: "'v \<Rightarrow> bool"
  ws_tarjanStack :: "'v list"
  ws_dfs :: "'v tarjanFrame list"
  ws_components :: "'v list list"
  ws_nextIndex :: nat

definition zero_workspace :: "'v executionWorkspace" where
  "zero_workspace = \<lparr>ws_index = Map.empty, ws_low = (\<lambda>_. 0), ws_onStack = (\<lambda>_. False), ws_tarjanStack = [],
     ws_dfs = [], ws_components = [], ws_nextIndex = 0\<rparr>"

definition newFrame :: "'v \<Rightarrow> 'v tarjanFrame" where
  "newFrame v = \<lparr>fr_vertex = v, fr_iter = None, fr_child = None\<rparr>"

text \<open>Entering a frame, and taking over the low link of the child a frame waited for.\<close>

definition enterFrame :: "('v \<Rightarrow> 'v list) \<Rightarrow> 'v executionWorkspace \<Rightarrow> 'v tarjanFrame \<Rightarrow>
    'v executionWorkspace \<times> 'v tarjanFrame" where
  "enterFrame deps ws f =
     (if fr_iter f \<noteq> None then (ws, f)
      else (ws\<lparr>ws_index := (ws_index ws)(fr_vertex f \<mapsto> ws_nextIndex ws),
               ws_low := (ws_low ws)(fr_vertex f := ws_nextIndex ws),
               ws_nextIndex := ws_nextIndex ws + 1,
               ws_tarjanStack := fr_vertex f # ws_tarjanStack ws,
               ws_onStack := (ws_onStack ws)(fr_vertex f := True)\<rparr>,
            f\<lparr>fr_iter := Some (deps (fr_vertex f))\<rparr>))"

definition absorbChild :: "'v executionWorkspace \<Rightarrow> 'v tarjanFrame \<Rightarrow> 'v executionWorkspace \<times> 'v tarjanFrame" where
  "absorbChild ws f =
     (case fr_child f of
        None \<Rightarrow> (ws, f)
      | Some c \<Rightarrow>
          (if ws_low ws c < ws_low ws (fr_vertex f) then ws\<lparr>ws_low := (ws_low ws)(fr_vertex f := ws_low ws c)\<rparr> else ws,
           f\<lparr>fr_child := None\<rparr>))"

text \<open>The loop over the dependencies of a frame, up to the first one not seen.\<close>

fun scanDependencies :: "('v \<Rightarrow> bool) \<Rightarrow> 'v executionWorkspace \<Rightarrow> nat \<Rightarrow> 'v list \<Rightarrow> nat \<times> 'v list \<times> 'v option" where
  "scanDependencies skip ws low [] = (low, [], None)"
| "scanDependencies skip ws low (d # ds) =
     (if skip d then scanDependencies skip ws low ds
      else case ws_index ws d of
          None \<Rightarrow> (low, ds, Some d)
        | Some i \<Rightarrow> scanDependencies skip ws (if ws_onStack ws d \<and> i < low then i else low) ds)"

fun popMembers :: "'v \<Rightarrow> 'v list \<Rightarrow> 'v list \<times> 'v list" where
  "popMembers v [] = ([], [])"
| "popMembers v (m # ms) = (if m = v then ([m], ms) else let (c, rest) = popMembers v ms in (m # c, rest))"

definition closeFrame :: "'v executionWorkspace \<Rightarrow> 'v \<Rightarrow> 'v executionWorkspace" where
  "closeFrame ws v =
     (if ws_index ws v = Some (ws_low ws v)
      then let (c, rest) = popMembers v (ws_tarjanStack ws)
           in ws\<lparr>ws_tarjanStack := rest, ws_onStack := (\<lambda>u. ws_onStack ws u \<and> u \<notin> set c),
                 ws_components := ws_components ws @ [c]\<rparr>
      else ws)"

definition dfsStep :: "('v \<Rightarrow> 'v list) \<Rightarrow> ('v \<Rightarrow> 'v \<Rightarrow> bool) \<Rightarrow> 'v executionWorkspace \<Rightarrow> 'v executionWorkspace" where
  "dfsStep deps skip ws =
     (case ws_dfs ws of
        [] \<Rightarrow> ws
      | f # fs \<Rightarrow>
          (let (ws, f) = enterFrame deps ws f;
               (ws, f) = absorbChild ws f;
               v = fr_vertex f;
               (low, ds, child) = scanDependencies (skip v) ws (ws_low ws v) (the (fr_iter f));
               ws = ws\<lparr>ws_low := (ws_low ws)(v := low)\<rparr>
           in case child of
                Some d \<Rightarrow> ws\<lparr>ws_dfs := newFrame d # f\<lparr>fr_iter := Some ds, fr_child := Some d\<rparr> # fs\<rparr>
              | None \<Rightarrow> (closeFrame ws v)\<lparr>ws_dfs := fs\<rparr>))"

definition dfsLoop :: "('v \<Rightarrow> 'v list) \<Rightarrow> ('v \<Rightarrow> 'v \<Rightarrow> bool) \<Rightarrow> 'v executionWorkspace \<Rightarrow> 'v executionWorkspace option" where
  "dfsLoop deps skip = while_option (\<lambda>ws. ws_dfs ws \<noteq> []) (dfsStep deps skip)"

fun visitRoots :: "('v \<Rightarrow> 'v list) \<Rightarrow> ('v \<Rightarrow> 'v \<Rightarrow> bool) \<Rightarrow> ('v \<Rightarrow> bool) \<Rightarrow> 'v list \<Rightarrow> 'v executionWorkspace \<Rightarrow>
    'v executionWorkspace option" where
  "visitRoots deps skip live [] ws = Some ws"
| "visitRoots deps skip live (r # rs) ws =
     (if \<not> live r \<or> ws_index ws r \<noteq> None then visitRoots deps skip live rs ws
      else case dfsLoop deps skip (ws\<lparr>ws_dfs := [newFrame r]\<rparr>) of
          None \<Rightarrow> None
        | Some ws \<Rightarrow> visitRoots deps skip live rs ws)"

section \<open>The graph\<close>

text \<open>
  The contract of the graph: it is finite, and the dependencies that are not skipped stay in it.
\<close>

locale dependency_graph =
  fixes deps :: "'v \<Rightarrow> 'v list" and skip :: "'v \<Rightarrow> 'v \<Rightarrow> bool" and V :: "'v set"
  assumes finite_V: "finite V"
    and closed_V: "v \<in> V \<Longrightarrow> d \<in> set (deps v) \<Longrightarrow> \<not> skip v d \<Longrightarrow> d \<in> V"
begin

abbreviation E :: "'v \<Rightarrow> 'v set" where
  "E v \<equiv> {d \<in> set (deps v). \<not> skip v d}"

abbreviation R :: "('v \<times> 'v) set" where
  "R \<equiv> {(u, d). d \<in> E u}"

abbreviation idx :: "'v executionWorkspace \<Rightarrow> 'v \<Rightarrow> nat" where
  "idx ws v \<equiv> the (ws_index ws v)"

text \<open>The entered frames, and their vertices: the path from the root to the current vertex.\<close>

definition entered :: "'v tarjanFrame list \<Rightarrow> 'v tarjanFrame list" where
  "entered fs = filter (\<lambda>f. fr_iter f \<noteq> None) fs"

definition path :: "'v executionWorkspace \<Rightarrow> 'v set" where
  "path ws = fr_vertex ` set (entered (ws_dfs ws))"

definition eff :: "'v executionWorkspace \<Rightarrow> 'v tarjanFrame \<Rightarrow> nat" where
  "eff ws f =
     (case fr_child f of
        None \<Rightarrow> ws_low ws (fr_vertex f)
      | Some c \<Rightarrow> if c \<in> dom (ws_index ws) \<and> c \<notin> path ws then min (ws_low ws (fr_vertex f)) (ws_low ws c)
                  else ws_low ws (fr_vertex f))"

definition owner :: "'v executionWorkspace \<Rightarrow> 'v \<Rightarrow> 'v \<Rightarrow> bool" where
  "owner ws w p \<longleftrightarrow> idx ws p \<le> idx ws w \<and> (\<forall>q \<in> path ws. idx ws q \<le> idx ws w \<longrightarrow> idx ws q \<le> idx ws p)"

text \<open>The components found so far: complete, mutually reachable, dependencies first.\<close>

definition comps_ok :: "'v list list \<Rightarrow> bool" where
  "comps_ok cs \<longleftrightarrow> distinct (concat cs) \<and> (\<forall>c \<in> set cs. c \<noteq> [] \<and> (\<forall>u \<in> set c. \<forall>v \<in> set c. (u, v) \<in> R\<^sup>*)) \<and>
     (\<forall>i < length cs. \<forall>u \<in> set (cs ! i). E u \<subseteq> set (concat (take (Suc i) cs)))"

definition stack_ok :: "'v executionWorkspace \<Rightarrow> bool" where
  "stack_ok ws \<longleftrightarrow>
     sorted_wrt (\<lambda>a b. idx ws a > idx ws b) (ws_tarjanStack ws) \<and>
     set (ws_tarjanStack ws) = Collect (ws_onStack ws) \<and>
     dom (ws_index ws) = set (ws_tarjanStack ws) \<union> set (concat (ws_components ws)) \<and>
     set (ws_tarjanStack ws) \<inter> set (concat (ws_components ws)) = {} \<and>
     dom (ws_index ws) \<subseteq> V \<and> (\<forall>v \<in> dom (ws_index ws). idx ws v < ws_nextIndex ws) \<and>
     comps_ok (ws_components ws)"

definition dfs_ok :: "'v executionWorkspace \<Rightarrow> bool" where
  "dfs_ok ws \<longleftrightarrow>
     (\<forall>f \<in> set (tl (ws_dfs ws)). fr_iter f \<noteq> None) \<and>
     (\<forall>f \<in> set (ws_dfs ws). fr_iter f = None \<longrightarrow> fr_vertex f \<in> V \<and> fr_vertex f \<notin> dom (ws_index ws) \<and> fr_child f = None) \<and>
     successively (\<lambda>g f. fr_child f = Some (fr_vertex g) \<and> fr_vertex g \<in> E (fr_vertex f)) (ws_dfs ws) \<and>
     sorted_wrt (\<lambda>f g. idx ws (fr_vertex f) > idx ws (fr_vertex g)) (entered (ws_dfs ws)) \<and>
     path ws \<subseteq> set (ws_tarjanStack ws)"

text \<open>
  A frame: what it has scanned is visited, and its low link covers what it and the finished
  vertices it owns depend on; the child it waits for; and what it reaches.
\<close>

definition scanned :: "'v executionWorkspace \<Rightarrow> 'v tarjanFrame \<Rightarrow> 'v list \<Rightarrow> bool" where
  "scanned ws f pre \<longleftrightarrow> deps (fr_vertex f) = pre @ the (fr_iter f) \<and>
     (\<forall>x \<in> set pre. \<not> skip (fr_vertex f) x \<longrightarrow>
        (x \<in> dom (ws_index ws) \<or> fr_child f = Some x) \<and> (x \<in> set (ws_tarjanStack ws) \<longrightarrow> eff ws f \<le> idx ws x))"

definition owned :: "'v executionWorkspace \<Rightarrow> 'v tarjanFrame \<Rightarrow> bool" where
  "owned ws f \<longleftrightarrow> (\<forall>w \<in> set (ws_tarjanStack ws). w \<notin> path ws \<longrightarrow> owner ws w (fr_vertex f) \<longrightarrow>
     (\<forall>x \<in> E w \<inter> set (ws_tarjanStack ws). eff ws f \<le> idx ws x))"

definition child_ok :: "'v executionWorkspace \<Rightarrow> 'v \<Rightarrow> 'v \<Rightarrow> bool" where
  "child_ok ws v c \<longleftrightarrow> c \<in> E v \<and>
     (c \<in> dom (ws_index ws) \<or> (\<exists>g \<in> set (ws_dfs ws). fr_iter g = None \<and> fr_vertex g = c)) \<and>
     (c \<in> dom (ws_index ws) \<longrightarrow> idx ws v < idx ws c \<and> (c \<in> set (ws_tarjanStack ws) \<or> idx ws c \<le> ws_low ws c))"

definition reaches :: "'v executionWorkspace \<Rightarrow> 'v \<Rightarrow> bool" where
  "reaches ws v \<longleftrightarrow> (\<forall>w \<in> set (ws_tarjanStack ws). idx ws v \<le> idx ws w \<longrightarrow> (v, w) \<in> R\<^sup>*)"

definition frame_ok :: "'v executionWorkspace \<Rightarrow> 'v tarjanFrame \<Rightarrow> bool" where
  "frame_ok ws f \<longleftrightarrow> (\<exists>pre. scanned ws f pre) \<and> owned ws f \<and>
     (\<forall>c. fr_child f = Some c \<longrightarrow> child_ok ws (fr_vertex f) c) \<and> reaches ws (fr_vertex f)"

definition low_ok :: "'v executionWorkspace \<Rightarrow> bool" where
  "low_ok ws \<longleftrightarrow>
     (\<forall>w \<in> set (ws_tarjanStack ws). ws_low ws w \<le> idx ws w \<and>
        (\<exists>x \<in> set (ws_tarjanStack ws). idx ws x = ws_low ws w \<and> (w, x) \<in> R\<^sup>*) \<and>
        (w \<notin> path ws \<longrightarrow> E w \<subseteq> dom (ws_index ws) \<and> ws_low ws w < idx ws w))"

definition tarjan_inv :: "'v executionWorkspace \<Rightarrow> bool" where
  "tarjan_inv ws \<longleftrightarrow> stack_ok ws \<and> dfs_ok ws \<and> (\<forall>f \<in> set (entered (ws_dfs ws)). frame_ok ws f) \<and> low_ok ws"

lemma entered_simps [simp]:
  "entered [] = []" "entered (f # fs) = (if fr_iter f = None then entered fs else f # entered fs)"
  by (auto simp: entered_def)

lemma entered_all [simp]: "\<forall>f \<in> set fs. fr_iter f \<noteq> None \<Longrightarrow> entered fs = fs"
  by (simp add: entered_def)

lemma stack_okD:
  assumes "stack_ok ws"
  shows "sorted_wrt (\<lambda>a b. idx ws a > idx ws b) (ws_tarjanStack ws)"
    and "ws_onStack ws u \<longleftrightarrow> u \<in> set (ws_tarjanStack ws)"
    and "dom (ws_index ws) = set (ws_tarjanStack ws) \<union> set (concat (ws_components ws))"
    and "set (ws_tarjanStack ws) \<inter> set (concat (ws_components ws)) = {}"
    and "dom (ws_index ws) \<subseteq> V" and "v \<in> dom (ws_index ws) \<Longrightarrow> idx ws v < ws_nextIndex ws"
    and "comps_ok (ws_components ws)"
  using assms by (auto simp: stack_ok_def set_eq_iff)

lemma dfs_okD:
  assumes "dfs_ok ws" "ws_dfs ws = f # fs"
  shows "\<forall>g \<in> set fs. fr_iter g \<noteq> None"
    and "fr_iter f = None \<Longrightarrow> fr_vertex f \<in> V \<and> fr_vertex f \<notin> dom (ws_index ws) \<and> fr_child f = None"
    and "successively (\<lambda>g f. fr_child f = Some (fr_vertex g) \<and> fr_vertex g \<in> E (fr_vertex f)) (f # fs)"
    and "sorted_wrt (\<lambda>f g. idx ws (fr_vertex f) > idx ws (fr_vertex g)) (entered (f # fs))"
    and "path ws \<subseteq> set (ws_tarjanStack ws)"
  using assms by (auto simp: dfs_ok_def)

lemma low_okD:
  assumes "low_ok ws" "w \<in> set (ws_tarjanStack ws)"
  shows "ws_low ws w \<le> idx ws w" "\<exists>x \<in> set (ws_tarjanStack ws). idx ws x = ws_low ws w \<and> (w, x) \<in> R\<^sup>*"
    "w \<notin> path ws \<Longrightarrow> E w \<subseteq> dom (ws_index ws)" "w \<notin> path ws \<Longrightarrow> ws_low ws w < idx ws w"
  using assms by (auto simp: low_ok_def)

lemma frame_okD:
  assumes "frame_ok ws f"
  shows "\<exists>pre. scanned ws f pre" "owned ws f" "fr_child f = Some c \<Longrightarrow> child_ok ws (fr_vertex f) c" "reaches ws (fr_vertex f)"
  using assms by (auto simp: frame_ok_def)

lemma frame_okI:
  "scanned ws f pre \<Longrightarrow> owned ws f \<Longrightarrow> (\<And>c. fr_child f = Some c \<Longrightarrow> child_ok ws (fr_vertex f) c) \<Longrightarrow> reaches ws (fr_vertex f) \<Longrightarrow> frame_ok ws f"
  by (auto simp: frame_ok_def)

subsection \<open>Entering a frame\<close>

definition enterTop :: "'v executionWorkspace \<Rightarrow> 'v tarjanFrame \<Rightarrow> 'v tarjanFrame list \<Rightarrow> 'v executionWorkspace" where
  "enterTop ws f fs = (fst (enterFrame deps ws f))\<lparr>ws_dfs := snd (enterFrame deps ws f) # fs\<rparr>"

lemma tarjan_invD:
  assumes "tarjan_inv ws"
  shows "stack_ok ws" "dfs_ok ws" "low_ok ws" "f \<in> set (entered (ws_dfs ws)) \<Longrightarrow> frame_ok ws f"
  using assms by (auto simp: tarjan_inv_def)

lemma eff_le: "eff ws g \<le> ws_low ws (fr_vertex g)"
  by (auto simp: eff_def split: option.split)

lemma path_low: "tarjan_inv ws \<Longrightarrow> q \<in> path ws \<Longrightarrow> ws_low ws q \<le> idx ws q"
  by (auto simp: tarjan_inv_def dfs_ok_def low_ok_def)

lemma enter_facts:
  assumes inv: "tarjan_inv ws" and dfs: "ws_dfs ws = f # fs" and new: "fr_iter f = None"
  shows "ws_index (enterTop ws f fs) = (ws_index ws)(fr_vertex f \<mapsto> ws_nextIndex ws)"
    "ws_low (enterTop ws f fs) = (ws_low ws)(fr_vertex f := ws_nextIndex ws)"
    "ws_nextIndex (enterTop ws f fs) = ws_nextIndex ws + 1" "ws_tarjanStack (enterTop ws f fs) = fr_vertex f # ws_tarjanStack ws"
    "ws_onStack (enterTop ws f fs) = (ws_onStack ws)(fr_vertex f := True)"
    "ws_dfs (enterTop ws f fs) = f\<lparr>fr_iter := Some (deps (fr_vertex f))\<rparr> # fs" "ws_components (enterTop ws f fs) = ws_components ws"
    "path ws = fr_vertex ` set fs" "path (enterTop ws f fs) = insert (fr_vertex f) (path ws)"
    "w \<in> set (ws_tarjanStack ws) \<Longrightarrow> w \<noteq> fr_vertex f" "w \<in> set (ws_tarjanStack ws) \<Longrightarrow> idx ws w < ws_nextIndex ws"
    "path ws \<subseteq> set (ws_tarjanStack ws)" "fr_vertex f \<in> V" "fr_vertex f \<notin> dom (ws_index ws)" "fr_child f = None"
proof -
  note stk = stack_okD [OF tarjan_invD(1) [OF inv]] and d = dfs_okD [OF tarjan_invD(2) [OF inv] dfs]
  show new_v: "fr_vertex f \<in> V" "fr_vertex f \<notin> dom (ws_index ws)" "fr_child f = None" using d(2) new by auto
  show "path ws = fr_vertex ` set fs" using d(1) new by (simp add: path_def dfs)
  show "path (enterTop ws f fs) = insert (fr_vertex f) (path ws)"
    using d(1) new by (simp add: path_def dfs enterTop_def enterFrame_def)
  show "path ws \<subseteq> set (ws_tarjanStack ws)" by (rule d(5))
  show "w \<noteq> fr_vertex f" if "w \<in> set (ws_tarjanStack ws)" using that new_v(2) stk(3) by auto
  show "idx ws w < ws_nextIndex ws" if "w \<in> set (ws_tarjanStack ws)" using stk(3,6) that by auto
qed (use new in \<open>simp_all add: enterTop_def enterFrame_def\<close>)

lemma enter_stack_ok:
  assumes "tarjan_inv ws" "ws_dfs ws = f # fs" "fr_iter f = None"
  shows "stack_ok (enterTop ws f fs)"
proof -
  note en = enter_facts [OF assms] and stk = stack_okD [OF tarjan_invD(1) [OF assms(1)]]
  let ?ws = "enterTop ws f fs"
  show ?thesis
    unfolding stack_ok_def
  proof (intro conjI)
    have "sorted_wrt (\<lambda>a b. idx ?ws a > idx ?ws b) (ws_tarjanStack ws)"
      by (rule sorted_wrt_mono_rel [OF _ stk(1)]) (use en(10) in \<open>auto simp: en(1)\<close>)
    then show "sorted_wrt (\<lambda>a b. idx ?ws a > idx ?ws b) (ws_tarjanStack ?ws)"
      using en(10,11) by (auto simp: en(1,4))
    show "set (ws_tarjanStack ?ws) \<inter> set (concat (ws_components ?ws)) = {}" using stk(3,4) en(14) by (auto simp: en(4,7))
    show "set (ws_tarjanStack ?ws) = Collect (ws_onStack ?ws)" using stk(2) by (auto simp: en(4,5) split: if_splits)
    show "\<forall>u \<in> dom (ws_index ?ws). idx ?ws u < ws_nextIndex ?ws" using stk(6) by (auto simp: en(1,3) less_Suc_eq)
  qed (use stk(3,5,7) en(13) in \<open>auto simp: en(1,4,7)\<close>)
qed

lemma enter_dfs_ok:
  assumes "tarjan_inv ws" "ws_dfs ws = f # fs" "fr_iter f = None"
  shows "dfs_ok (enterTop ws f fs)"
proof -
  note en = enter_facts [OF assms] and d = dfs_okD [OF tarjan_invD(2) [OF assms(1)] assms(2)]
  let ?ws = "enterTop ws f fs"
  have S: "fr_vertex g \<in> set (ws_tarjanStack ws)" if "g \<in> set fs" for g using that en(8,12) by blast
  show ?thesis
    unfolding dfs_ok_def
  proof (intro conjI)
    show "path ?ws \<subseteq> set (ws_tarjanStack ?ws)" using en(12) unfolding en(4,9) by auto
    have "sorted_wrt (\<lambda>f g. idx ?ws (fr_vertex f) > idx ?ws (fr_vertex g)) fs"
      by (rule sorted_wrt_mono_rel [of _ "\<lambda>f g. idx ws (fr_vertex f) > idx ws (fr_vertex g)"])
        (use d(1,4) assms(3) en(10) [OF S] in \<open>auto simp: en(1)\<close>)
    then show "sorted_wrt (\<lambda>f g. idx ?ws (fr_vertex f) > idx ?ws (fr_vertex g)) (entered (ws_dfs ?ws))"
      using en(10,11) [OF S] d(1) by (simp add: en(1,6))
    show "successively (\<lambda>g f. fr_child f = Some (fr_vertex g) \<and> fr_vertex g \<in> E (fr_vertex f)) (ws_dfs ?ws)"
      unfolding en(6) using d(3) by (cases fs) auto
  qed (use d(1) in \<open>auto simp: en(6)\<close>)
qed

lemma enter_low_ok:
  assumes "tarjan_inv ws" "ws_dfs ws = f # fs" "fr_iter f = None"
  shows "low_ok (enterTop ws f fs)"
  unfolding low_ok_def
proof (intro ballI)
  note en = enter_facts [OF assms] and lo = low_okD [OF tarjan_invD(3) [OF assms(1)]]
  let ?ws = "enterTop ws f fs"
  fix w assume "w \<in> set (ws_tarjanStack ?ws)"
  then consider "w = fr_vertex f" | "w \<in> set (ws_tarjanStack ws)" "w \<noteq> fr_vertex f" using en(10) by (auto simp: en(4))
  then show "ws_low ?ws w \<le> idx ?ws w \<and> (\<exists>x \<in> set (ws_tarjanStack ?ws). idx ?ws x = ws_low ?ws w \<and> (w, x) \<in> R\<^sup>*) \<and>
      (w \<notin> path ?ws \<longrightarrow> E w \<subseteq> dom (ws_index ?ws) \<and> ws_low ?ws w < idx ?ws w)"
  proof cases
    case 1
    then show ?thesis unfolding en(9) by (simp add: en(1,2,4))
  next
    case 2
    obtain x where x: "x \<in> set (ws_tarjanStack ws)" "idx ws x = ws_low ws w" "(w, x) \<in> R\<^sup>*" using lo(2) [OF 2(1)] by blast
    then show ?thesis
      using 2 lo(1,3,4) [OF 2(1)] en(10) [OF x(1)] unfolding en(9) by (auto simp: en(1,2,4))
  qed
qed

lemma enter_reach:
  assumes "tarjan_inv ws" "ws_dfs ws = f # fs" "fr_iter f = None" "g \<in> set fs"
  shows "(fr_vertex g, fr_vertex f) \<in> R\<^sup>*"
proof -
  note d = dfs_okD [OF tarjan_invD(2) [OF assms(1)] assms(2)] and en = enter_facts [OF assms(1-3)]
  obtain h hs where fs: "fs = h # hs" using assms(4) by (cases fs) auto
  have h: "fr_vertex f \<in> E (fr_vertex h)" "h \<in> set fs" using d(3) by (simp_all add: fs)
  have "idx ws (fr_vertex g) \<le> idx ws (fr_vertex h)" using d(4) d(1) assms(3,4) by (auto simp: fs)
  moreover have "fr_vertex h \<in> set (ws_tarjanStack ws)" using en(8,12) h(2) by blast
  moreover have "frame_ok ws g" using tarjan_invD(4) [OF assms(1)] d(1) assms(2-4) by simp
  ultimately have "(fr_vertex g, fr_vertex h) \<in> R\<^sup>*" using frame_okD(4) by (auto simp: reaches_def)
  moreover have "(fr_vertex h, fr_vertex f) \<in> R" using h(1) by simp
  ultimately show ?thesis by (rule rtrancl_into_rtrancl)
qed

lemma enter_eff:
  assumes "tarjan_inv ws" "ws_dfs ws = f # fs" "fr_iter f = None" "g \<in> set fs"
  shows "eff (enterTop ws f fs) g = eff ws g"
proof -
  note en = enter_facts [OF assms(1-3)]
  have "fr_vertex g \<noteq> fr_vertex f" using assms(4) en(8,10,12) by blast
  then show ?thesis unfolding eff_def en(9) using en(14) by (auto simp: en(1,2) split: option.split)
qed

lemma enter_frame_ok:
  assumes "tarjan_inv ws" "ws_dfs ws = f # fs" "fr_iter f = None" "g \<in> set fs"
  shows "frame_ok (enterTop ws f fs) g"
proof -
  let ?ws = "enterTop ws f fs" and ?S = "set (ws_tarjanStack ws)"
  note en = enter_facts [OF assms(1-3)] and lo = low_okD [OF tarjan_invD(3) [OF assms(1)]] and eff = enter_eff [OF assms]
  have "frame_ok ws g"
    using tarjan_invD(4) [OF assms(1)] dfs_okD(1) [OF tarjan_invD(2) [OF assms(1)] assms(2)] assms(2-4) by simp
  note ok = frame_okD [OF this]
  have gp: "fr_vertex g \<in> path ws" using assms(4) en(8) by blast
  then have gS: "fr_vertex g \<in> ?S" using en(12) by blast
  have own: "owner ?ws w (fr_vertex g) \<longleftrightarrow> owner ws w (fr_vertex g)" if "w \<in> ?S" for w
    using en(10) [OF that] en(10) [OF gS] en(11) [OF that] en(12) en(10) unfolding owner_def en(9) by (auto simp: en(1))
  obtain pre where pre: "scanned ws g pre" using ok(1) by blast
  show ?thesis
  proof (rule frame_okI)
    have "eff ws g \<le> ws_nextIndex ws" using eff_le [of ws g] path_low [OF assms(1) gp] en(11) [OF gS] by linarith
    then show "scanned ?ws g pre" using pre unfolding scanned_def eff by (auto simp: en(1,4))
    show "owned ?ws g"
      unfolding owned_def eff
    proof (intro ballI impI)
      fix w x assume w: "w \<in> set (ws_tarjanStack ?ws)" "w \<notin> path ?ws" "owner ?ws w (fr_vertex g)"
        and x: "x \<in> E w \<inter> set (ws_tarjanStack ?ws)"
      have w': "w \<in> ?S" "w \<notin> path ws" "owner ws w (fr_vertex g)" using w own unfolding en(4,9) by auto
      then have "x \<noteq> fr_vertex f" using lo(3) [OF w'(1,2)] en(14) x by auto
      then show "eff ws g \<le> idx ?ws x" using ok(2) w' x by (auto simp: owned_def en(1,4))
    qed
    show "child_ok ?ws (fr_vertex g) c" if "fr_child g = Some c" for c
      using ok(3) [OF that] en(10,11) [OF gS] en(14) unfolding child_ok_def by (auto simp: en(1,2,4,6) assms(2))
    show "reaches ?ws (fr_vertex g)"
      using ok(4) en(10) [OF gS] enter_reach [OF assms] unfolding reaches_def by (auto simp: en(1,4))
  qed
qed

lemma enter_inv:
  assumes "tarjan_inv ws" "ws_dfs ws = f # fs" "fr_iter f = None"
  shows "tarjan_inv (enterTop ws f fs)"
proof -
  note en = enter_facts [OF assms] and d = dfs_okD(1) [OF tarjan_invD(2) [OF assms(1)] assms(2)]
  let ?ws = "enterTop ws f fs" and ?f = "f\<lparr>fr_iter := Some (deps (fr_vertex f))\<rparr>"
  have "frame_ok ?ws ?f"
  proof (rule frame_okI)
    show "scanned ?ws ?f []" by (simp add: scanned_def)
    show "owned ?ws ?f" using en(11) unfolding owned_def owner_def en(9) by (auto simp: en(1,4) dest: leD)
    show "reaches ?ws (fr_vertex ?f)" using en(11) unfolding reaches_def by (auto simp: en(1,4) dest: leD)
  qed (simp add: en(15))
  then show ?thesis
    using enter_frame_ok [OF assms] enter_stack_ok [OF assms] enter_dfs_ok [OF assms] enter_low_ok [OF assms] d
    by (simp add: tarjan_inv_def en(6))
qed

subsection \<open>Changing the top frame\<close>

definition retop :: "'v executionWorkspace \<Rightarrow> nat \<Rightarrow> 'v tarjanFrame \<Rightarrow> 'v tarjanFrame list \<Rightarrow> 'v executionWorkspace" where
  "retop ws l f fs = ws\<lparr>ws_low := (ws_low ws)(fr_vertex f := l), ws_dfs := f # fs\<rparr>"

lemma retop_simps [simp]:
  "ws_index (retop ws l f fs) = ws_index ws" "ws_low (retop ws l f fs) = (ws_low ws)(fr_vertex f := l)"
  "ws_nextIndex (retop ws l f fs) = ws_nextIndex ws" "ws_tarjanStack (retop ws l f fs) = ws_tarjanStack ws"
  "ws_onStack (retop ws l f fs) = ws_onStack ws" "ws_dfs (retop ws l f fs) = f # fs" "ws_components (retop ws l f fs) = ws_components ws"
  by (simp_all add: retop_def)

lemma retop_retop [simp]: "fr_vertex g = fr_vertex f \<Longrightarrow> retop (retop ws a f hs) b g fs = retop ws b g fs"
  by (simp add: retop_def)

lemma top_facts:
  assumes inv: "tarjan_inv ws" and dfs: "ws_dfs ws = f # fs" and ent: "fr_iter f \<noteq> None"
  shows "frame_ok ws f" "g \<in> set fs \<Longrightarrow> frame_ok ws g" "path ws = insert (fr_vertex f) (fr_vertex ` set fs)"
    "g \<in> set fs \<Longrightarrow> idx ws (fr_vertex g) < idx ws (fr_vertex f)" "fr_vertex f \<in> set (ws_tarjanStack ws)"
    "\<forall>g \<in> set fs. fr_iter g \<noteq> None" "fr_child g = Some c \<Longrightarrow> g \<in> set (f # fs) \<Longrightarrow> c \<in> dom (ws_index ws)"
    "fr_child f = Some c \<Longrightarrow> c \<notin> path ws"
proof -
  note d = dfs_okD [OF tarjan_invD(2) [OF inv] dfs]
  show fs: "\<forall>g \<in> set fs. fr_iter g \<noteq> None" by (rule d(1))
  show path: "path ws = insert (fr_vertex f) (fr_vertex ` set fs)" using fs ent by (auto simp: path_def dfs)
  show fr: "frame_ok ws f" "g \<in> set fs \<Longrightarrow> frame_ok ws g" for g using tarjan_invD(4) [OF inv] fs ent by (simp_all add: dfs)
  show less: "g \<in> set fs \<Longrightarrow> idx ws (fr_vertex g) < idx ws (fr_vertex f)" for g using d(4) fs ent by simp
  show "fr_vertex f \<in> set (ws_tarjanStack ws)" using d(5) path by blast
  show child: "c \<in> dom (ws_index ws)" if "fr_child g = Some c" "g \<in> set (f # fs)" for g c
  proof -
    have "frame_ok ws g" using fr that(2) by auto
    from frame_okD(3) [OF this that(1)] show ?thesis using fs ent by (auto simp: child_ok_def dfs)
  qed
  show "c \<notin> path ws" if c: "fr_child f = Some c"
    using frame_okD(3) [OF fr(1) c] child [OF c] less unfolding path child_ok_def by (auto dest: less_asym)
qed

lemma retop_inv:
  assumes inv: "tarjan_inv ws" and dfs: "ws_dfs ws = f # fs" and ent: "fr_iter f \<noteq> None"
    and l: "l \<le> eff ws f" "\<exists>x \<in> set (ws_tarjanStack ws). idx ws x = l \<and> (fr_vertex f, x) \<in> R\<^sup>*"
    and sc: "scanned (retop ws l (f\<lparr>fr_iter := Some its, fr_child := None\<rparr>) fs) (f\<lparr>fr_iter := Some its, fr_child := None\<rparr>) pre"
  shows "tarjan_inv (retop ws l (f\<lparr>fr_iter := Some its, fr_child := None\<rparr>) fs)"
proof -
  let ?f = "f\<lparr>fr_iter := Some its, fr_child := None\<rparr>"
  let ?ws = "retop ws l ?f fs"
  note t = top_facts [OF inv dfs ent] and d = dfs_okD [OF tarjan_invD(2) [OF inv] dfs]
  have path: "path ?ws = path ws" unfolding t(3) using t(6) by (simp add: path_def)
  have own: "owner ?ws w q = owner ws w q" for w q unfolding owner_def path by simp
  have eff: "eff ?ws ?f = l" by (simp add: eff_def)
  have "owned ?ws ?f"
    using frame_okD(2) [OF t(1)] l(1) unfolding owned_def path own eff by (auto intro: le_trans)
  then have top: "frame_ok ?ws ?f"
    using frame_okD(4) [OF t(1)] by (intro frame_okI [OF sc]) (simp_all add: reaches_def)
  have fr: "frame_ok ?ws g" if g: "g \<in> set fs" for g
  proof -
    note ok = frame_okD [OF t(2) [OF g]]
    obtain pre where pre: "scanned ws g pre" using ok(1) by blast
    have "fr_vertex g \<noteq> fr_vertex f" using t(4) [OF g] by auto
    then have eff: "eff ?ws g = eff ws g" unfolding eff_def path using t(3) by (auto split: option.split)
    show ?thesis
    proof (rule frame_okI)
      show "scanned ?ws g pre" using pre unfolding scanned_def eff by simp
      show "owned ?ws g" using ok(2) unfolding owned_def eff path own by simp
      show "child_ok ?ws (fr_vertex g) c" if "fr_child g = Some c" for c
        using ok(3) [OF that] t(5) t(7) [OF that] g unfolding child_ok_def by auto
      show "reaches ?ws (fr_vertex g)" using ok(4) by (simp add: reaches_def)
    qed
  qed
  have "low_ok ?ws"
    using tarjan_invD(3) [OF inv] l(2) path_low [OF inv, of "fr_vertex f"] order_trans [OF l(1) eff_le] t(3)
    unfolding low_ok_def path by auto
  moreover have "dfs_ok ?ws"
    using tarjan_invD(2) [OF inv] ent unfolding dfs_ok_def path by (cases fs) (auto simp: dfs)
  moreover have "stack_ok ?ws" using tarjan_invD(1) [OF inv] unfolding stack_ok_def retop_simps .
  ultimately show ?thesis using top fr t(6) by (simp add: tarjan_inv_def)
qed

lemma absorb_inv:
  assumes inv: "tarjan_inv ws" and dfs: "ws_dfs ws = f # fs" and it: "fr_iter f = Some its"
  shows "tarjan_inv (retop ws (eff ws f) (f\<lparr>fr_iter := Some its, fr_child := None\<rparr>) fs)"
proof -
  note t = top_facts [OF inv dfs] and lo = low_okD [OF tarjan_invD(3) [OF inv]]
  have ent: "fr_iter f \<noteq> None" using it by simp
  obtain pre where pre: "scanned ws f pre" using frame_okD(1) [OF t(1) [OF ent]] by blast
  show ?thesis
  proof (rule retop_inv [OF inv dfs ent order_refl])
    show "scanned (retop ws (eff ws f) (f\<lparr>fr_iter := Some its, fr_child := None\<rparr>) fs) (f\<lparr>fr_iter := Some its, fr_child := None\<rparr>) pre"
      using pre t(7) [OF ent, of f] it by (auto simp: scanned_def eff_def)
    have vS: "fr_vertex f \<in> set (ws_tarjanStack ws)" by (rule t(5) [OF ent])
    have "eff ws f = ws_low ws (fr_vertex f) \<or> (\<exists>c. fr_child f = Some c \<and> c \<in> set (ws_tarjanStack ws) \<and> eff ws f = ws_low ws c)"
    proof (cases "fr_child f")
      case (Some c)
      note ch = frame_okD(3) [OF t(1) [OF ent] Some] and c = t(7) [OF ent Some] t(8) [OF ent Some]
      have "ws_low ws (fr_vertex f) \<le> ws_low ws c" if "c \<notin> set (ws_tarjanStack ws)"
        using ch lo(1) [OF vS] c(1) that by (auto simp: child_ok_def)
      then show ?thesis using c Some by (auto simp: eff_def min_def)
    qed (simp add: eff_def)
    then show "\<exists>x \<in> set (ws_tarjanStack ws). idx ws x = eff ws f \<and> (fr_vertex f, x) \<in> R\<^sup>*"
    proof (elim disjE exE conjE)
      fix c assume c: "fr_child f = Some c" "c \<in> set (ws_tarjanStack ws)" "eff ws f = ws_low ws c"
      have "(fr_vertex f, c) \<in> R" using frame_okD(3) [OF t(1) [OF ent] c(1)] by (simp add: child_ok_def)
      then show ?thesis using lo(2) [OF c(2)] c(3) by (auto intro: converse_rtrancl_into_rtrancl)
    qed (use lo(2) [OF vS] in simp)
  qed
qed

lemma scan_one:
  assumes inv: "tarjan_inv ws" and dfs: "ws_dfs ws = f # fs" and it: "fr_iter f = Some (d # ds)" and ch: "fr_child f = None"
    and seen: "skip (fr_vertex f) d \<or> d \<in> dom (ws_index ws)"
  defines "low \<equiv> ws_low ws (fr_vertex f)"
  defines "l \<equiv> (if \<not> skip (fr_vertex f) d \<and> ws_onStack ws d \<and> idx ws d < low then idx ws d else low)"
  shows "tarjan_inv (retop ws l (f\<lparr>fr_iter := Some ds, fr_child := None\<rparr>) fs)"
proof -
  have ent: "fr_iter f \<noteq> None" using it by simp
  note t = top_facts [OF inv dfs ent] and lo = low_okD [OF tarjan_invD(3) [OF inv]] and on = stack_okD(2) [OF tarjan_invD(1) [OF inv]]
  obtain pre where pre: "scanned ws f pre" using frame_okD(1) [OF t(1)] by blast
  have eff: "eff ws f = low" by (simp add: eff_def ch low_def)
  have l: "l \<le> low" "l = low \<or> l = idx ws d \<and> ws_onStack ws d \<and> \<not> skip (fr_vertex f) d"
    "\<not> skip (fr_vertex f) d \<Longrightarrow> ws_onStack ws d \<Longrightarrow> l \<le> idx ws d" by (auto simp: l_def)
  have d: "d \<in> set (deps (fr_vertex f))" using pre it by (auto simp: scanned_def)
  show ?thesis
  proof (rule retop_inv [OF inv dfs ent])
    show "l \<le> eff ws f" using l(1) eff by simp
    show "scanned (retop ws l (f\<lparr>fr_iter := Some ds, fr_child := None\<rparr>) fs) (f\<lparr>fr_iter := Some ds, fr_child := None\<rparr>) (pre @ [d])"
      using pre it seen l(1,3) on ch unfolding scanned_def eff by (auto simp: eff_def intro: le_trans)
    show "\<exists>x \<in> set (ws_tarjanStack ws). idx ws x = l \<and> (fr_vertex f, x) \<in> R\<^sup>*"
      using l(2)
    proof
      assume "l = low"
      then show ?thesis using lo(2) [OF t(5)] by (simp add: low_def)
    next
      assume "l = idx ws d \<and> ws_onStack ws d \<and> \<not> skip (fr_vertex f) d"
      then show ?thesis using on d by (intro bexI [of _ d]) auto
    qed
  qed
qed

lemma scan_inv:
  assumes "tarjan_inv (retop ws low (f\<lparr>fr_iter := Some ds, fr_child := None\<rparr>) fs)"
    "scanDependencies (skip (fr_vertex f)) ws low ds = (l, rest, child)"
  shows "\<exists>ds'. tarjan_inv (retop ws l (f\<lparr>fr_iter := Some ds', fr_child := None\<rparr>) fs) \<and>
    (case child of None \<Rightarrow> ds' = [] | Some d \<Rightarrow> ds' = d # rest \<and> \<not> skip (fr_vertex f) d \<and> ws_index ws d = None)"
  using assms
proof (induction ds arbitrary: low)
  case (Cons d ds)
  show ?case
  proof (cases "skip (fr_vertex f) d \<or> d \<in> dom (ws_index ws)")
    case True
    then show ?thesis
      using Cons.IH [of low] Cons.IH [of "if ws_onStack ws d \<and> idx ws d < low then idx ws d else low"] Cons.prems(2)
        scan_one [OF Cons.prems(1) retop_simps(6), of d ds]
      by (cases "skip (fr_vertex f) d"; cases "ws_onStack ws d \<and> idx ws d < low") auto
  next
    case False
    then have "ws_index ws d = None" by (simp add: domIff)
    then show ?thesis using False Cons.prems by auto
  qed
qed simp

lemma stack_ok_dfs [simp]: "stack_ok (ws\<lparr>ws_dfs := fs\<rparr>) = stack_ok ws"
  by (simp add: stack_ok_def)

lemma push_inv:
  assumes inv: "tarjan_inv ws" and dfs: "ws_dfs ws = f # fs" and it: "fr_iter f = Some (d # ds)" and ch: "fr_child f = None"
    and unseen: "\<not> skip (fr_vertex f) d" "ws_index ws d = None"
  shows "tarjan_inv (ws\<lparr>ws_dfs := newFrame d # f\<lparr>fr_iter := Some ds, fr_child := Some d\<rparr> # fs\<rparr>)"
proof -
  let ?f = "f\<lparr>fr_iter := Some ds, fr_child := Some d\<rparr>"
  define ws' where "ws' = ws\<lparr>ws_dfs := newFrame d # ?f # fs\<rparr>"
  have ent: "fr_iter f \<noteq> None" using it by simp
  note t = top_facts [OF inv dfs ent] and df = dfs_okD [OF tarjan_invD(2) [OF inv] dfs] and st = stack_okD [OF tarjan_invD(1) [OF inv]]
  have path: "path ws' = path ws" unfolding t(3) using t(6) by (simp add: path_def ws'_def newFrame_def)
  have fields: "ws_index ws' = ws_index ws" "ws_low ws' = ws_low ws" "ws_tarjanStack ws' = ws_tarjanStack ws" "ws_dfs ws' = newFrame d # ?f # fs"
    by (simp_all add: ws'_def)
  have own: "owner ws' w q = owner ws w q" for w q unfolding owner_def path fields ..
  have eff: "eff ws' g = eff ws g" for g unfolding eff_def path fields ..
  obtain pre where pre: "scanned ws f pre" using frame_okD(1) [OF t(1)] by blast
  have d: "d \<in> E (fr_vertex f)" "d \<in> V"
    using pre it unseen(1) closed_V [of "fr_vertex f" d] t(5) st(3,5) by (auto simp: scanned_def)
  have efff: "eff ws' ?f = eff ws f" unfolding eff using unseen(2) ch by (simp add: eff_def domIff)
  have top: "frame_ok ws' ?f"
  proof (rule frame_okI)
    show "scanned ws' ?f (pre @ [d])"
      using pre it ch unseen(2) st(3) unfolding scanned_def efff by (auto simp: fields domIff)
    show "owned ws' ?f" using frame_okD(2) [OF t(1)] unfolding owned_def path own efff fields by simp
    show "child_ok ws' (fr_vertex ?f) c" if "fr_child ?f = Some c" for c
      using that d(1) unseen(2) by (auto simp: child_ok_def fields newFrame_def)
    show "reaches ws' (fr_vertex ?f)" using frame_okD(4) [OF t(1)] by (simp add: reaches_def fields)
  qed
  have fr: "frame_ok ws' g" if g: "g \<in> set fs" for g
  proof -
    note ok = frame_okD [OF t(2) [OF g]]
    obtain pre where pre: "scanned ws g pre" using ok(1) by blast
    show ?thesis
    proof (rule frame_okI)
      show "scanned ws' g pre" using pre unfolding scanned_def eff fields .
      show "owned ws' g" using ok(2) unfolding owned_def path own eff fields .
      show "child_ok ws' (fr_vertex g) c" if "fr_child g = Some c" for c
        using ok(3) [OF that] t(7) [OF that] g unfolding child_ok_def fields by simp
      show "reaches ws' (fr_vertex g)" using ok(4) by (simp add: reaches_def fields)
    qed
  qed
  have "dfs_ok ws'"
    using tarjan_invD(2) [OF inv] d unseen(2) it ch unfolding dfs_ok_def path fields
    by (cases fs) (auto simp: dfs newFrame_def domIff)
  moreover have "low_ok ws'" using tarjan_invD(3) [OF inv] unfolding low_ok_def path fields .
  moreover have "stack_ok ws'" using tarjan_invD(1) [OF inv] by (simp add: ws'_def)
  ultimately show ?thesis
    using top fr t(6) unfolding tarjan_inv_def ws'_def [symmetric] by (simp add: fields newFrame_def)
qed

subsection \<open>Leaving a frame\<close>

lemma reach_path:
  assumes "tarjan_inv ws" "w \<in> set (ws_tarjanStack ws)"
  shows "\<exists>p \<in> path ws. idx ws p \<le> idx ws w \<and> (w, p) \<in> R\<^sup>*"
  using assms(2)
proof (induction "idx ws w" arbitrary: w rule: less_induct)
  case less
  note lo = low_okD [OF tarjan_invD(3) [OF assms(1)] less.prems]
  show ?case
  proof (cases "w \<in> path ws")
    case False
    obtain x where x: "x \<in> set (ws_tarjanStack ws)" "idx ws x = ws_low ws w" "(w, x) \<in> R\<^sup>*" using lo(2) by blast
    have lt: "idx ws x < idx ws w" using lo(4) [OF False] x(2) by simp
    obtain p where "p \<in> path ws" "idx ws p \<le> idx ws x" "(x, p) \<in> R\<^sup>*" using less.hyps [OF lt x(1)] by blast
    then show ?thesis using lt x(3) by (intro bexI [of _ p]) (auto intro: rtrancl_trans)
  qed blast
qed

lemma finished_facts:
  assumes inv: "tarjan_inv ws" and dfs: "ws_dfs ws = f # fs" and it: "fr_iter f = Some []" and ch: "fr_child f = None"
  shows "E (fr_vertex f) \<subseteq> dom (ws_index ws)"
    "w \<in> set (ws_tarjanStack ws) \<Longrightarrow> idx ws (fr_vertex f) \<le> idx ws w \<Longrightarrow> x \<in> E w \<Longrightarrow> x \<in> set (ws_tarjanStack ws) \<Longrightarrow>
      ws_low ws (fr_vertex f) \<le> idx ws x"
    "w \<in> path ws \<Longrightarrow> idx ws w \<le> idx ws (fr_vertex f)"
    "w \<in> set (ws_tarjanStack ws) \<Longrightarrow> w \<in> path ws \<Longrightarrow> idx ws (fr_vertex f) \<le> idx ws w \<Longrightarrow> w = fr_vertex f"
proof -
  have ent: "fr_iter f \<noteq> None" using it by simp
  note t = top_facts [OF inv dfs ent]
  obtain pre where pre: "scanned ws f pre" using frame_okD(1) [OF t(1)] by blast
  have eff: "eff ws f = ws_low ws (fr_vertex f)" by (simp add: eff_def ch)
  show "E (fr_vertex f) \<subseteq> dom (ws_index ws)" using pre it ch by (auto simp: scanned_def)
  show max: "idx ws w \<le> idx ws (fr_vertex f)" if "w \<in> path ws" for w using that t(4) unfolding t(3) by (auto intro: less_imp_le)
  show top: "w = fr_vertex f" if "w \<in> path ws" "idx ws (fr_vertex f) \<le> idx ws w" for w
    using that t(4) unfolding t(3) by (auto dest: leD)
  show "ws_low ws (fr_vertex f) \<le> idx ws x"
    if w: "w \<in> set (ws_tarjanStack ws)" "idx ws (fr_vertex f) \<le> idx ws w" and x: "x \<in> E w" "x \<in> set (ws_tarjanStack ws)"
  proof (cases "w \<in> path ws")
    case True
    then show ?thesis using top [OF _ w(2)] x pre it by (auto simp: scanned_def eff)
  next
    case False
    then show ?thesis using frame_okD(2) [OF t(1)] w x max by (auto simp: owned_def owner_def eff)
  qed
qed

lemma parent_eff:
  assumes inv: "tarjan_inv ws" and dfs: "ws_dfs ws = f # fs" and ent: "fr_iter f \<noteq> None" and g: "g \<in> set fs"
    and ws': "ws_index ws' = ws_index ws" "ws_low ws' = ws_low ws" "path ws' = path ws - {fr_vertex f}"
  shows "eff ws' g = (if fr_child g = Some (fr_vertex f) then min (ws_low ws (fr_vertex g)) (ws_low ws (fr_vertex f)) else eff ws g)"
    "fr_child g = Some (fr_vertex f) \<Longrightarrow> eff ws g = ws_low ws (fr_vertex g)" "\<exists>c \<in> path ws. fr_child g = Some c"
proof -
  note t = top_facts [OF inv dfs ent] and d = dfs_okD(3) [OF tarjan_invD(2) [OF inv] dfs]
  have chain: "successively (\<lambda>g f. fr_child f = Some (fr_vertex g) \<and> P g f) (a # xs) \<Longrightarrow> y \<in> set xs \<Longrightarrow>
      \<exists>z \<in> set (a # xs). fr_child y = Some (fr_vertex z)" for P a xs and y :: "'v tarjanFrame"
    by (induction xs arbitrary: a) auto
  show c: "\<exists>c \<in> path ws. fr_child g = Some c" using chain [OF d g] unfolding t(3) by auto
  have dom: "fr_vertex f \<in> dom (ws_index ws)" using t(5) stack_okD(3) [OF tarjan_invD(1) [OF inv]] by blast
  show "fr_child g = Some (fr_vertex f) \<Longrightarrow> eff ws g = ws_low ws (fr_vertex g)" using t(3) by (simp add: eff_def)
  show "eff ws' g = (if fr_child g = Some (fr_vertex f) then min (ws_low ws (fr_vertex g)) (ws_low ws (fr_vertex f)) else eff ws g)"
    using c dom unfolding eff_def ws' by (auto split: option.split)
qed

lemma leave_path:
  assumes "tarjan_inv ws" "ws_dfs ws = f # fs" "fr_iter f \<noteq> None" "ws_dfs ws' = fs"
  shows "path ws' = path ws - {fr_vertex f}"
proof -
  note t = top_facts [OF assms(1-3)]
  have "fr_vertex f \<notin> fr_vertex ` set fs" using t(4) by (metis imageE less_irrefl)
  then show ?thesis unfolding t(3) using t(6) by (simp add: path_def assms(4))
qed

lemma leave_dfs_ok:
  assumes "tarjan_inv ws" "ws_dfs ws = f # fs" "fr_iter f \<noteq> None"
    and "ws_dfs ws' = fs" "ws_index ws' = ws_index ws" "fr_vertex ` set fs \<subseteq> set (ws_tarjanStack ws')"
  shows "dfs_ok ws'"
proof -
  note d = dfs_okD [OF tarjan_invD(2) [OF assms(1)] assms(2)]
  have "path ws' = fr_vertex ` set fs" using d(1) by (simp add: path_def assms(4))
  then show ?thesis
    using d(1,3,4) assms(3,6) unfolding dfs_ok_def assms(4,5) by (cases fs) (auto dest: list.set_sel(2))
qed

lemma hd_frame:
  assumes "sorted_wrt (\<lambda>f g. m f > (m g :: nat)) (h # hs)" "g \<in> set (h # hs)" "m h \<le> m g"
  shows "g = h"
  using assms by (auto dest: leD)

lemma leave_owned:
  assumes inv: "tarjan_inv ws" and dfs: "ws_dfs ws = f # fs" and it: "fr_iter f = Some []" and ch: "fr_child f = None"
    and g: "g \<in> set fs"
  shows "owned (ws\<lparr>ws_dfs := fs\<rparr>) g"
  unfolding owned_def
proof (intro ballI impI)
  let ?ws = "ws\<lparr>ws_dfs := fs\<rparr>" and ?v = "fr_vertex f"
  have ent: "fr_iter f \<noteq> None" using it by simp
  note t = top_facts [OF inv dfs ent] and fin = finished_facts [OF inv dfs it ch] and d = dfs_okD [OF tarjan_invD(2) [OF inv] dfs]
  have path: "path ?ws = path ws - {?v}" by (rule leave_path [OF inv dfs ent]) simp
  note eff = parent_eff [OF inv dfs ent g, of ?ws, simplified, OF path]
  fix w x assume w: "w \<in> set (ws_tarjanStack ?ws)" "w \<notin> path ?ws" "owner ?ws w (fr_vertex g)" and x: "x \<in> E w \<inter> set (ws_tarjanStack ?ws)"
  show "eff ?ws g \<le> idx ?ws x"
  proof (cases "idx ws ?v \<le> idx ws w")
    case True
    obtain h hs where fs: "fs = h # hs" using g by (cases fs) auto
    have "fr_vertex h \<in> path ?ws" using t(6) fs by (auto simp: path_def)
    moreover have "idx ws (fr_vertex h) \<le> idx ws w" using t(4) [of h] fs True by simp
    ultimately have "idx ws (fr_vertex h) \<le> idx ws (fr_vertex g)" using w(3) by (simp add: owner_def)
    then have "g = h" using d(4) t(6) ent g by (intro hd_frame [of "\<lambda>f. idx ws (fr_vertex f)" h hs]) (auto simp: fs)
    then have "eff ?ws g \<le> ws_low ws ?v" using d(3) eff(1) by (simp add: fs)
    then show ?thesis using fin(2) [of w x] w(1) x True by simp
  next
    case False
    then have "w \<notin> path ws" "owner ws w (fr_vertex g)" using w(2,3) unfolding owner_def path by auto
    then have "eff ws g \<le> idx ws x" using frame_okD(2) [OF t(2) [OF g]] w(1) x by (auto simp: owned_def)
    then show ?thesis using eff(1,2) by (auto split: if_splits)
  qed
qed

lemma leave_inv:
  assumes inv: "tarjan_inv ws" and dfs: "ws_dfs ws = f # fs" and it: "fr_iter f = Some []" and ch: "fr_child f = None"
    and low: "ws_low ws (fr_vertex f) < idx ws (fr_vertex f)"
  shows "tarjan_inv (ws\<lparr>ws_dfs := fs\<rparr>)"
proof -
  let ?ws = "ws\<lparr>ws_dfs := fs\<rparr>" and ?v = "fr_vertex f"
  have ent: "fr_iter f \<noteq> None" using it by simp
  note t = top_facts [OF inv dfs ent] and fin = finished_facts [OF inv dfs it ch]
  have path: "path ?ws = path ws - {?v}" by (rule leave_path [OF inv dfs ent]) simp
  have "fr_vertex ` set fs \<subseteq> set (ws_tarjanStack ws)"
    using dfs_okD(5) [OF tarjan_invD(2) [OF inv] dfs] t(3) by blast
  then have "dfs_ok ?ws" by (intro leave_dfs_ok [OF inv dfs ent]) simp_all
  moreover have "frame_ok ?ws g" if g: "g \<in> set fs" for g
  proof -
    note ok = frame_okD [OF t(2) [OF g]] and eff = parent_eff [OF inv dfs ent g, of ?ws, simplified, OF path]
    obtain pre where pre: "scanned ws g pre" using ok(1) by blast
    have le: "eff ?ws g \<le> eff ws g" using eff(1,2) by (auto split: if_splits)
    show ?thesis
    proof (rule frame_okI)
      show "scanned ?ws g pre" using pre le unfolding scanned_def by (auto intro: le_trans)
      show "owned ?ws g" by (rule leave_owned [OF inv dfs it ch g])
      show "child_ok ?ws (fr_vertex g) c" if "fr_child g = Some c" for c
        using ok(3) [OF that] t(7) [OF that] g unfolding child_ok_def by simp
      show "reaches ?ws (fr_vertex g)" using ok(4) by (simp add: reaches_def)
    qed
  qed
  moreover have "low_ok ?ws"
    using tarjan_invD(3) [OF inv] fin(1) low unfolding low_ok_def path by auto
  ultimately show ?thesis using tarjan_invD(1) [OF inv] t(6) by (simp add: tarjan_inv_def)
qed

lemma popMembers_split:
  "v \<in> set xs \<Longrightarrow> popMembers v xs = (c, rest) \<Longrightarrow> \<exists>c'. c = c' @ [v] \<and> xs = c @ rest"
  by (induction xs arbitrary: c) (auto split: if_splits prod.splits)

lemma component_facts:
  assumes inv: "tarjan_inv ws" and dfs: "ws_dfs ws = f # fs" and ent: "fr_iter f \<noteq> None"
    and pop: "popMembers (fr_vertex f) (ws_tarjanStack ws) = (c, rest)"
  shows "ws_tarjanStack ws = c @ rest" "fr_vertex f \<in> set c" "u \<in> set rest \<longleftrightarrow> u \<in> set (ws_tarjanStack ws) \<and> idx ws u < idx ws (fr_vertex f)"
    "u \<in> set c \<longleftrightarrow> u \<in> set (ws_tarjanStack ws) \<and> idx ws (fr_vertex f) \<le> idx ws u" "distinct (c @ rest)"
proof -
  note t = top_facts [OF inv dfs ent] and st = stack_okD [OF tarjan_invD(1) [OF inv]]
  obtain c' where c: "c = c' @ [fr_vertex f]" "ws_tarjanStack ws = c @ rest" using popMembers_split [OF t(5) pop] by blast
  then show "ws_tarjanStack ws = c @ rest" "fr_vertex f \<in> set c" by simp_all
  have "sorted_wrt (\<lambda>a b. idx ws a > idx ws b) (c' @ [fr_vertex f] @ rest)" using st(1) c by simp
  then have hi: "x \<in> set c' \<Longrightarrow> idx ws (fr_vertex f) < idx ws x" and lo: "x \<in> set rest \<Longrightarrow> idx ws x < idx ws (fr_vertex f)" for x
    by (auto simp: sorted_wrt_append)
  show "u \<in> set rest \<longleftrightarrow> u \<in> set (ws_tarjanStack ws) \<and> idx ws u < idx ws (fr_vertex f)"
    "u \<in> set c \<longleftrightarrow> u \<in> set (ws_tarjanStack ws) \<and> idx ws (fr_vertex f) \<le> idx ws u" for u
    using hi [of u] lo [of u] by (auto simp: c)
  have "sorted_wrt (\<lambda>a b. idx ws a > idx ws b) xs \<Longrightarrow> distinct xs" for xs by (induction xs) auto
  then have "distinct (ws_tarjanStack ws)" using st(1) by blast
  then show "distinct (c @ rest)" using c(2) by simp
qed

lemma comps_ok_snoc:
  assumes "comps_ok cs" "c \<noteq> []" "distinct c" "set c \<inter> set (concat cs) = {}"
    and "\<And>u v. u \<in> set c \<Longrightarrow> v \<in> set c \<Longrightarrow> (u, v) \<in> R\<^sup>*" "\<And>u. u \<in> set c \<Longrightarrow> E u \<subseteq> set (concat cs) \<union> set c"
  shows "comps_ok (cs @ [c])"
  unfolding comps_ok_def
proof (intro conjI allI impI)
  show "distinct (concat (cs @ [c]))" using assms(1,3,4) by (auto simp: comps_ok_def)
  show "\<forall>c \<in> set (cs @ [c]). c \<noteq> [] \<and> (\<forall>u \<in> set c. \<forall>v \<in> set c. (u, v) \<in> R\<^sup>*)"
    using assms(1,2,5) by (auto simp: comps_ok_def)
  fix i assume "i < length (cs @ [c])"
  then consider "i < length cs" | "i = length cs" by fastforce
  then show "\<forall>u \<in> set ((cs @ [c]) ! i). E u \<subseteq> set (concat (take (Suc i) (cs @ [c])))"
  proof cases
    case 1
    then show ?thesis using assms(1) by (simp add: comps_ok_def nth_append)
  next
    case 2
    then show ?thesis using assms(6) by auto
  qed
qed

lemma component_stack_ok:
  assumes inv: "tarjan_inv ws" and dfs: "ws_dfs ws = f # fs" and it: "fr_iter f = Some []" and ch: "fr_child f = None"
    and low: "ws_low ws (fr_vertex f) = idx ws (fr_vertex f)"
    and pop: "popMembers (fr_vertex f) (ws_tarjanStack ws) = (c, rest)"
    and ws': "ws_tarjanStack ws' = rest" "ws_onStack ws' = (\<lambda>u. ws_onStack ws u \<and> u \<notin> set c)" "ws_components ws' = ws_components ws @ [c]"
      "ws_index ws' = ws_index ws" "ws_nextIndex ws' = ws_nextIndex ws"
  shows "stack_ok ws'"
proof -
  have ent: "fr_iter f \<noteq> None" using it by simp
  note t = top_facts [OF inv dfs ent] and fin = finished_facts [OF inv dfs it ch] and lo = low_okD [OF tarjan_invD(3) [OF inv]]
    and c = component_facts [OF inv dfs ent pop] and st = stack_okD [OF tarjan_invD(1) [OF inv]]
  have up: "(u, fr_vertex f) \<in> R\<^sup>*" if "u \<in> set c" for u
  proof -
    obtain p where p: "p \<in> path ws" "(u, p) \<in> R\<^sup>*" using reach_path [OF inv] c(4) \<open>u \<in> set c\<close> by blast
    then obtain g where g: "g \<in> set (f # fs)" "p = fr_vertex g" unfolding t(3) by auto
    have "(p, fr_vertex f) \<in> R\<^sup>*"
      using frame_okD(4) [of ws g] g t(1,2) t(4) t(5) by (auto simp: reaches_def intro: less_imp_le)
    then show ?thesis using p(2) by (rule rtrancl_trans [rotated])
  qed
  have down: "(fr_vertex f, u) \<in> R\<^sup>*" if "u \<in> set c" for u
    using frame_okD(4) [OF t(1)] c(4) that by (auto simp: reaches_def)
  have closed: "E u \<subseteq> set (concat (ws_components ws)) \<union> set c" if u: "u \<in> set c" for u
  proof
    fix x assume x: "x \<in> E u"
    have uS: "u \<in> set (ws_tarjanStack ws)" "idx ws (fr_vertex f) \<le> idx ws u" using u c(4) by auto
    have "x \<in> dom (ws_index ws)" using x fin(1) fin(4) [OF uS(1) _ uS(2)] lo(3) [OF uS(1)] by blast
    then show "x \<in> set (concat (ws_components ws)) \<union> set c" using fin(2) [OF uS x] c(4) [of x] st(3) low by auto
  qed
  have "comps_ok (ws_components ws @ [c])"
  proof (rule comps_ok_snoc)
    show "(u, v) \<in> R\<^sup>*" if "u \<in> set c" "v \<in> set c" for u v using up [OF that(1)] down [OF that(2)] by (rule rtrancl_trans)
  qed (use c(1,2,5) st(4,7) closed in auto)
  moreover have "sorted_wrt (\<lambda>a b. idx ws a > idx ws b) rest" using st(1) by (simp add: c(1) sorted_wrt_append)
  ultimately show ?thesis
    using st(2-6) c(1,5) unfolding stack_ok_def ws' by auto
qed

lemma component_frame_ok:
  assumes inv: "tarjan_inv ws" and dfs: "ws_dfs ws = f # fs" and it: "fr_iter f = Some []" and ch: "fr_child f = None"
    and low: "ws_low ws (fr_vertex f) = idx ws (fr_vertex f)" and g: "g \<in> set fs"
    and pop: "popMembers (fr_vertex f) (ws_tarjanStack ws) = (c, rest)"
    and ws': "ws_tarjanStack ws' = rest" "ws_index ws' = ws_index ws" "ws_low ws' = ws_low ws" "ws_dfs ws' = fs"
  shows "frame_ok ws' g"
proof -
  have ent: "fr_iter f \<noteq> None" using it by simp
  note t = top_facts [OF inv dfs ent] and c = component_facts [OF inv dfs ent pop]
  have path: "path ws' = path ws - {fr_vertex f}" by (rule leave_path [OF inv dfs ent ws'(4)])
  note ok = frame_okD [OF t(2) [OF g]] and pe = parent_eff [OF inv dfs ent g ws'(2,3) path]
  obtain pre where pre: "scanned ws g pre" using ok(1) by blast
  have "fr_vertex g \<in> path ws" using g t(3) by blast
  then have "ws_low ws (fr_vertex g) \<le> ws_low ws (fr_vertex f)" using path_low [OF inv] t(4) [OF g] low by fastforce
  then have eff: "eff ws' g = eff ws g" using pe(1,2) by auto
  have own: "owner ws w (fr_vertex g)" if "w \<in> set rest" "owner ws' w (fr_vertex g)" for w
    using that c(3) [of w] unfolding owner_def path ws' by auto
  show ?thesis
  proof (rule frame_okI)
    show "scanned ws' g pre" using pre c(1) unfolding scanned_def eff ws' by auto
    show "owned ws' g"
      unfolding owned_def eff
    proof (intro ballI impI)
      fix w x assume w: "w \<in> set (ws_tarjanStack ws')" "w \<notin> path ws'" "owner ws' w (fr_vertex g)"
        and x: "x \<in> E w \<inter> set (ws_tarjanStack ws')"
      then have "w \<in> set (ws_tarjanStack ws)" "w \<notin> path ws" "owner ws w (fr_vertex g)"
        using c(3) [of w] own [of w] unfolding path ws' by auto
      then show "eff ws g \<le> idx ws' x" using ok(2) x c(3) unfolding owned_def ws' by blast
    qed
    show "child_ok ws' (fr_vertex g) d" if "fr_child g = Some d" for d
      using ok(3) [OF that] t(7) [OF that] g c(3) [of d] low pe(3) that t(3,4) dfs_okD(5) [OF tarjan_invD(2) [OF inv] dfs]
      unfolding child_ok_def ws' by auto
    show "reaches ws' (fr_vertex g)" using ok(4) c(1) unfolding reaches_def ws' by auto
  qed
qed

lemma component_inv:
  assumes inv: "tarjan_inv ws" and dfs: "ws_dfs ws = f # fs" and it: "fr_iter f = Some []" and ch: "fr_child f = None"
    and low: "ws_low ws (fr_vertex f) = idx ws (fr_vertex f)"
  shows "tarjan_inv ((closeFrame ws (fr_vertex f))\<lparr>ws_dfs := fs\<rparr>)"
proof -
  let ?v = "fr_vertex f"
  obtain c rest where pop: "popMembers ?v (ws_tarjanStack ws) = (c, rest)" by fastforce
  define ws' where "ws' = (closeFrame ws ?v)\<lparr>ws_dfs := fs\<rparr>"
  have ent: "fr_iter f \<noteq> None" using it by simp
  note t = top_facts [OF inv dfs ent] and c = component_facts [OF inv dfs ent pop] and lo = low_okD [OF tarjan_invD(3) [OF inv]]
  have "?v \<in> dom (ws_index ws)" using t(5) stack_okD(3) [OF tarjan_invD(1) [OF inv]] by blast
  then have "ws_index ws ?v = Some (ws_low ws ?v)" using low by auto
  then have f: "ws_tarjanStack ws' = rest" "ws_onStack ws' = (\<lambda>u. ws_onStack ws u \<and> u \<notin> set c)" "ws_components ws' = ws_components ws @ [c]"
      "ws_index ws' = ws_index ws" "ws_nextIndex ws' = ws_nextIndex ws" "ws_low ws' = ws_low ws" "ws_dfs ws' = fs"
    by (simp_all add: ws'_def closeFrame_def pop)
  have path: "path ws' = path ws - {?v}" by (rule leave_path [OF inv dfs ent f(7)])
  have "stack_ok ws'" by (rule component_stack_ok [OF inv dfs it ch low pop f(1-5)])
  moreover have "fr_vertex ` set fs \<subseteq> set rest"
    using dfs_okD(5) [OF tarjan_invD(2) [OF inv] dfs] t(3,4) c(3) by auto
  then have "dfs_ok ws'" by (intro leave_dfs_ok [OF inv dfs ent f(7,4)]) (simp add: f)
  moreover have "low_ok ws'"
    unfolding low_ok_def
  proof (intro ballI)
    fix w assume "w \<in> set (ws_tarjanStack ws')"
    then have w: "w \<in> set (ws_tarjanStack ws)" "idx ws w < idx ws ?v" using c(3) f(1) by auto
    obtain x where x: "x \<in> set (ws_tarjanStack ws)" "idx ws x = ws_low ws w" "(w, x) \<in> R\<^sup>*" using lo(2) [OF w(1)] by blast
    have "x \<in> set rest" using c(3) [of x] x(1,2) lo(1) [OF w(1)] w(2) by simp
    then show "ws_low ws' w \<le> idx ws' w \<and> (\<exists>x \<in> set (ws_tarjanStack ws'). idx ws' x = ws_low ws' w \<and> (w, x) \<in> R\<^sup>*) \<and>
        (w \<notin> path ws' \<longrightarrow> E w \<subseteq> dom (ws_index ws') \<and> ws_low ws' w < idx ws' w)"
      using x(2,3) lo(1,3,4) [OF w(1)] w(2) unfolding f path by auto
  qed
  moreover have "frame_ok ws' g" if "g \<in> set fs" for g
    by (rule component_frame_ok [OF inv dfs it ch low that pop f(1,4,6,7)])
  ultimately show ?thesis using t(6) unfolding tarjan_inv_def ws'_def [symmetric] f by simp
qed

subsection \<open>The loops\<close>

lemma scanDependencies_cong:
  "ws_index ws' = ws_index ws \<Longrightarrow> ws_onStack ws' = ws_onStack ws \<Longrightarrow> scanDependencies sk ws' low ds = scanDependencies sk ws low ds"
  by (induction sk ws low ds rule: scanDependencies.induct) (auto split: option.split)

lemma closeFrame_dfs:
  "(closeFrame (ws\<lparr>ws_dfs := gs, ws_low := l\<rparr>) v)\<lparr>ws_dfs := fs\<rparr> = (closeFrame (ws\<lparr>ws_low := l\<rparr>) v)\<lparr>ws_dfs := fs\<rparr>"
  by (auto simp: closeFrame_def split: prod.split)

lemma enter_top:
  assumes inv: "tarjan_inv ws" and dfs: "ws_dfs ws = f # fs"
  obtains ws1 f1 its where "enterFrame deps ws f = (ws1, f1)" "tarjan_inv (ws1\<lparr>ws_dfs := f1 # fs\<rparr>)"
    "fr_vertex f1 = fr_vertex f" "fr_iter f1 = Some its" "dom (ws_index ws1) = insert (fr_vertex f) (dom (ws_index ws))"
proof (cases "fr_iter f")
  case None
  show thesis
    by (rule that [of "fst (enterFrame deps ws f)" "snd (enterFrame deps ws f)" "deps (fr_vertex f)"])
      (use enter_inv [OF inv dfs None] None in \<open>auto simp: enterTop_def enterFrame_def\<close>)
next
  case (Some its)
  have "fr_vertex f \<in> dom (ws_index ws)"
    using top_facts(5) [OF inv dfs] Some stack_okD(3) [OF tarjan_invD(1) [OF inv]] by auto
  moreover have "ws\<lparr>ws_dfs := f # fs\<rparr> = ws" using dfs by simp
  ultimately show thesis using that [of ws f its] inv Some by (auto simp: enterFrame_def)
qed

text \<open>A step, after the top frame is entered and has taken over the low link of its child.\<close>

lemma step_unfold:
  assumes inv: "tarjan_inv ws" and dfs: "ws_dfs ws = f # fs"
  obtains W F its where "tarjan_inv W" "ws_dfs W = F # fs" "F = \<lparr>fr_vertex = fr_vertex f, fr_iter = Some its, fr_child = None\<rparr>"
    "dom (ws_index W) = insert (fr_vertex f) (dom (ws_index ws))"
    "dfsStep deps skip ws = (case scanDependencies (skip (fr_vertex f)) W (ws_low W (fr_vertex f)) its of (low, ds, child) \<Rightarrow>
       (case child of
          Some d \<Rightarrow> (W\<lparr>ws_low := (ws_low W)(fr_vertex f := low)\<rparr>)\<lparr>ws_dfs := newFrame d # F\<lparr>fr_iter := Some ds, fr_child := Some d\<rparr> # fs\<rparr>
        | None \<Rightarrow> (closeFrame (W\<lparr>ws_low := (ws_low W)(fr_vertex f := low)\<rparr>) (fr_vertex f))\<lparr>ws_dfs := fs\<rparr>))"
proof -
  let ?v = "fr_vertex f"
  obtain ws1 f1 its where en: "enterFrame deps ws f = (ws1, f1)" and 1: "tarjan_inv (ws1\<lparr>ws_dfs := f1 # fs\<rparr>)"
    and f1: "fr_vertex f1 = ?v" "fr_iter f1 \<noteq> None" and its: "fr_iter f1 = Some its"
    and dom: "dom (ws_index ws1) = insert ?v (dom (ws_index ws))"
    by (rule enter_top [OF inv dfs]) simp
  let ?W1 = "ws1\<lparr>ws_dfs := f1 # fs\<rparr>"
  obtain ws2 f2 where ab: "absorbChild ws1 f1 = (ws2, f2)" by fastforce
  define F where "F = \<lparr>fr_vertex = ?v, fr_iter = Some its, fr_child = None\<rparr>"
  have F: "f1\<lparr>fr_iter := Some its, fr_child := None\<rparr> = F" "f2 = F"
    using ab f1(1) its by (auto simp: F_def absorbChild_def split: option.splits)
  have eff: "eff ?W1 f1 = (case fr_child f1 of None \<Rightarrow> ws_low ws1 ?v | Some c \<Rightarrow> min (ws_low ws1 ?v) (ws_low ws1 c))"
    using top_facts(7,8) [OF 1 _ f1(2), of fs] f1(1) by (auto simp: eff_def split: option.split)
  define W where "W = retop ?W1 (eff ?W1 f1) F fs"
  have W: "tarjan_inv W" using absorb_inv [OF 1 _ its, of fs] by (simp add: W_def F)
  have ws2: "W = ws2\<lparr>ws_dfs := F # fs\<rparr>"
    using ab f1(1) unfolding W_def retop_def eff by (auto simp: absorbChild_def F_def min_def fun_upd_triv split: option.splits if_splits)
  have sc: "scanDependencies sk W low ds = scanDependencies sk ws2 low ds" for sk low ds
    by (rule scanDependencies_cong) (simp_all add: ws2)
  have vf: "fr_vertex F = ?v" "fr_iter F = Some its" by (simp_all add: F_def)
  show thesis
  proof (rule that [OF W _ F_def])
    show "ws_dfs W = F # fs" by (simp add: W_def)
    show "dom (ws_index W) = insert ?v (dom (ws_index ws))" using dom by (simp add: W_def)
    show "dfsStep deps skip ws = (case scanDependencies (skip ?v) W (ws_low W ?v) its of (low, ds, child) \<Rightarrow>
       (case child of
          Some d \<Rightarrow> (W\<lparr>ws_low := (ws_low W)(?v := low)\<rparr>)\<lparr>ws_dfs := newFrame d # F\<lparr>fr_iter := Some ds, fr_child := Some d\<rparr> # fs\<rparr>
        | None \<Rightarrow> (closeFrame (W\<lparr>ws_low := (ws_low W)(?v := low)\<rparr>) ?v)\<lparr>ws_dfs := fs\<rparr>))"
      unfolding sc by (simp add: dfsStep_def dfs en ab F(2) vf ws2 Let_def closeFrame_dfs split: prod.split option.split)
  qed
qed

definition steps_left :: "'v executionWorkspace \<Rightarrow> nat" where
  "steps_left ws = 3 * card (V - dom (ws_index ws)) + length (ws_dfs ws) +
     (case ws_dfs ws of f # _ \<Rightarrow> if fr_iter f = None then 0 else 2 | [] \<Rightarrow> 2)"

definition covered :: "'v executionWorkspace \<Rightarrow> 'v set" where
  "covered ws = dom (ws_index ws) \<union> fr_vertex ` set (ws_dfs ws)"

lemma card_unvisited:
  assumes "tarjan_inv ws" "ws_dfs ws = f # fs" "D = insert (fr_vertex f) (dom (ws_index ws))"
  shows "card (V - dom (ws_index ws)) = (if fr_iter f = None then Suc (card (V - D)) else card (V - D))"
proof (cases "fr_iter f = None")
  case True
  then have v: "fr_vertex f \<in> V - dom (ws_index ws)" using dfs_okD(2) [OF tarjan_invD(2) [OF assms(1)] assms(2)] by blast
  have "V - D = V - dom (ws_index ws) - {fr_vertex f}" using assms(3) by auto
  then show ?thesis using True card_Suc_Diff1 [of "V - dom (ws_index ws)", OF _ v] finite_V by simp
next
  case False
  then have "fr_vertex f \<in> dom (ws_index ws)"
    using top_facts(5) [OF assms(1,2)] stack_okD(3) [OF tarjan_invD(1) [OF assms(1)]] by auto
  then show ?thesis using False assms(3) by (simp add: insert_absorb)
qed

lemma step_scanned:
  assumes inv: "tarjan_inv ws" and dfs: "ws_dfs ws = f # fs"
  obtains X F ds d where "tarjan_inv X" "ws_dfs X = F # fs" "fr_vertex F = fr_vertex f" "fr_child F = None"
    "dom (ws_index X) = insert (fr_vertex f) (dom (ws_index ws))"
    "fr_iter F = Some [] \<and> dfsStep deps skip ws = (closeFrame X (fr_vertex F))\<lparr>ws_dfs := fs\<rparr> \<or>
     fr_iter F = Some (d # ds) \<and> \<not> skip (fr_vertex F) d \<and> ws_index X d = None \<and>
     dfsStep deps skip ws = X\<lparr>ws_dfs := newFrame d # F\<lparr>fr_iter := Some ds, fr_child := Some d\<rparr> # fs\<rparr>"
proof (rule step_unfold [OF inv dfs])
  let ?v = "fr_vertex f"
  fix W F its
  assume W: "tarjan_inv W" "ws_dfs W = F # fs" and F: "F = \<lparr>fr_vertex = ?v, fr_iter = Some its, fr_child = None\<rparr>"
    and dom: "dom (ws_index W) = insert ?v (dom (ws_index ws))"
    and step: "dfsStep deps skip ws = (case scanDependencies (skip ?v) W (ws_low W ?v) its of (low, ds, child) \<Rightarrow>
       (case child of
          Some d \<Rightarrow> (W\<lparr>ws_low := (ws_low W)(?v := low)\<rparr>)\<lparr>ws_dfs := newFrame d # F\<lparr>fr_iter := Some ds, fr_child := Some d\<rparr> # fs\<rparr>
        | None \<Rightarrow> (closeFrame (W\<lparr>ws_low := (ws_low W)(?v := low)\<rparr>) ?v)\<lparr>ws_dfs := fs\<rparr>))"
  obtain low ds child where sc: "scanDependencies (skip ?v) W (ws_low W ?v) its = (low, ds, child)"
    by (cases "scanDependencies (skip ?v) W (ws_low W ?v) its")
  have self: "retop W (ws_low W ?v) (F\<lparr>fr_iter := Some its, fr_child := None\<rparr>) fs = W"
    using W(2) by (simp add: retop_def F)
  have vF: "fr_vertex F = ?v" by (simp add: F)
  obtain ds' where ds': "tarjan_inv (retop W low (F\<lparr>fr_iter := Some ds', fr_child := None\<rparr>) fs)"
    "case child of None \<Rightarrow> ds' = [] | Some d \<Rightarrow> ds' = d # ds \<and> \<not> skip ?v d \<and> ws_index W d = None"
    using scan_inv [where ws = W and f = F and fs = fs, unfolded vF self, OF _ sc] W(1) self by auto
  let ?F = "F\<lparr>fr_iter := Some ds', fr_child := None\<rparr>"
  have X: "retop W low ?F fs = W\<lparr>ws_dfs := ?F # fs, ws_low := (ws_low W)(?v := low)\<rparr>" by (simp add: retop_def F)
  show thesis
  proof (rule that [OF ds'(1), of ?F "case child of None \<Rightarrow> undefined | Some d \<Rightarrow> d" ds])
    show "fr_iter ?F = Some [] \<and> dfsStep deps skip ws = (closeFrame (retop W low ?F fs) (fr_vertex ?F))\<lparr>ws_dfs := fs\<rparr> \<or>
      fr_iter ?F = Some ((case child of None \<Rightarrow> undefined | Some d \<Rightarrow> d) # ds) \<and> \<not> skip (fr_vertex ?F) (case child of None \<Rightarrow> undefined | Some d \<Rightarrow> d) \<and>
      ws_index (retop W low ?F fs) (case child of None \<Rightarrow> undefined | Some d \<Rightarrow> d) = None \<and>
      dfsStep deps skip ws = (retop W low ?F fs)\<lparr>ws_dfs := newFrame (case child of None \<Rightarrow> undefined | Some d \<Rightarrow> d) #
        ?F\<lparr>fr_iter := Some ds, fr_child := Some (case child of None \<Rightarrow> undefined | Some d \<Rightarrow> d)\<rparr> # fs\<rparr>"
      unfolding X step sc using ds'(2) by (cases child) (simp_all add: F closeFrame_dfs)
  qed (use dom in \<open>simp_all add: F\<close>)
qed

lemma dfsStep_inv:
  assumes inv: "tarjan_inv ws" and dfs: "ws_dfs ws \<noteq> []"
  shows "tarjan_inv (dfsStep deps skip ws) \<and> steps_left (dfsStep deps skip ws) < steps_left ws \<and>
    covered ws \<subseteq> covered (dfsStep deps skip ws)"
proof -
  obtain f fs where fs: "ws_dfs ws = f # fs" using dfs by (cases "ws_dfs ws") auto
  note ok = dfs_okD(1) [OF tarjan_invD(2) [OF inv] fs]
  show ?thesis
  proof (rule step_scanned [OF inv fs])
    fix X F ds d
    assume X: "tarjan_inv X" "ws_dfs X = F # fs" "fr_vertex F = fr_vertex f" "fr_child F = None"
      and dom: "dom (ws_index X) = insert (fr_vertex f) (dom (ws_index ws))"
      and step: "fr_iter F = Some [] \<and> dfsStep deps skip ws = (closeFrame X (fr_vertex F))\<lparr>ws_dfs := fs\<rparr> \<or>
         fr_iter F = Some (d # ds) \<and> \<not> skip (fr_vertex F) d \<and> ws_index X d = None \<and>
         dfsStep deps skip ws = X\<lparr>ws_dfs := newFrame d # F\<lparr>fr_iter := Some ds, fr_child := Some d\<rparr> # fs\<rparr>"
    note card = card_unvisited [OF inv fs dom]
    from step show ?thesis
    proof (elim disjE conjE)
      assume it: "fr_iter F = Some []" and st: "dfsStep deps skip ws = (closeFrame X (fr_vertex F))\<lparr>ws_dfs := fs\<rparr>"
      note low = path_low [OF X(1), of "fr_vertex F"] top_facts(3) [OF X(1,2)]
      have vX: "ws_index X (fr_vertex F) = Some (idx X (fr_vertex F))" using dom X(3) by (auto simp: domD)
      have "tarjan_inv ((closeFrame X (fr_vertex F))\<lparr>ws_dfs := fs\<rparr>)"
      proof (cases "ws_low X (fr_vertex F) = idx X (fr_vertex F)")
        case True
        then show ?thesis by (rule component_inv [OF X(1,2) it X(4)])
      next
        case False
        then have "ws_index X (fr_vertex F) \<noteq> Some (ws_low X (fr_vertex F))" using vX by auto
        then have "closeFrame X (fr_vertex F) = X" by (simp add: closeFrame_def)
        moreover have "ws_low X (fr_vertex F) < idx X (fr_vertex F)" using False low it by auto
        ultimately show ?thesis using leave_inv [OF X(1,2) it X(4)] by simp
      qed
      moreover have "ws_index (closeFrame X (fr_vertex F)) = ws_index X" by (simp add: closeFrame_def split: prod.split)
      ultimately show ?thesis
        unfolding st steps_left_def covered_def using card dom fs ok by (auto split: list.split)
    next
      assume it: "fr_iter F = Some (d # ds)" "\<not> skip (fr_vertex F) d" "ws_index X d = None"
        and st: "dfsStep deps skip ws = X\<lparr>ws_dfs := newFrame d # F\<lparr>fr_iter := Some ds, fr_child := Some d\<rparr> # fs\<rparr>"
      show ?thesis
        unfolding st steps_left_def covered_def
        using push_inv [OF X(1,2) it(1) X(4) it(2,3)] card dom fs X(3) by (auto simp: newFrame_def)
    qed
  qed
qed

lemma dfsLoop_total:
  assumes "tarjan_inv ws"
  shows "\<exists>ws'. dfsLoop deps skip ws = Some ws' \<and> tarjan_inv ws' \<and> ws_dfs ws' = [] \<and> covered ws \<subseteq> dom (ws_index ws')"
proof -
  let ?P = "\<lambda>ws'. tarjan_inv ws' \<and> covered ws \<subseteq> covered ws'"
  have step: "?P (dfsStep deps skip x) \<and> steps_left (dfsStep deps skip x) < steps_left x" if "?P x" "ws_dfs x \<noteq> []" for x
    using dfsStep_inv [of x] that by blast
  obtain ws' where ws': "while_option (\<lambda>ws. ws_dfs ws \<noteq> []) (dfsStep deps skip) ws = Some ws'"
    using measure_while_option_Some [of ?P "\<lambda>ws. ws_dfs ws \<noteq> []" "dfsStep deps skip" steps_left ws] step assms by blast
  have "?P ws'"
    by (rule while_option_rule [OF _ ws', where P = ?P]) (use step assms in blast)+
  moreover have "ws_dfs ws' = []" using while_option_stop [OF ws'] by simp
  ultimately show ?thesis using ws' by (auto simp: dfsLoop_def covered_def)
qed

lemma idle_stack: "tarjan_inv ws \<Longrightarrow> ws_dfs ws = [] \<Longrightarrow> ws_tarjanStack ws = []"
  using reach_path [of ws] by (cases "ws_tarjanStack ws") (auto simp: path_def)

lemma start_inv:
  assumes "tarjan_inv ws" "ws_dfs ws = []" "r \<in> V" "ws_index ws r = None"
  shows "tarjan_inv (ws\<lparr>ws_dfs := [newFrame r]\<rparr>)"
  using assms idle_stack [OF assms(1,2)]
  by (simp add: tarjan_inv_def dfs_ok_def low_ok_def path_def newFrame_def domIff)

lemma visitRoots_total:
  assumes "tarjan_inv ws" "ws_dfs ws = []" "\<And>r. r \<in> set rs \<Longrightarrow> live r \<Longrightarrow> r \<in> V"
  shows "\<exists>ws'. visitRoots deps skip live rs ws = Some ws' \<and> tarjan_inv ws' \<and> ws_dfs ws' = [] \<and>
    dom (ws_index ws) \<union> {r \<in> set rs. live r} \<subseteq> dom (ws_index ws')"
  using assms
proof (induction rs arbitrary: ws)
  case (Cons r rs)
  show ?case
  proof (cases "\<not> live r \<or> ws_index ws r \<noteq> None")
    case True
    moreover obtain ws' where "visitRoots deps skip live rs ws = Some ws'" "tarjan_inv ws'" "ws_dfs ws' = []"
      "dom (ws_index ws) \<union> {r \<in> set rs. live r} \<subseteq> dom (ws_index ws')"
      using Cons.IH [OF Cons.prems(1,2)] Cons.prems(3) by auto
    ultimately show ?thesis by (intro exI [of _ ws']) auto
  next
    case False
    then have r: "live r" "ws_index ws r = None" by auto
    obtain ws1 where ws1: "dfsLoop deps skip (ws\<lparr>ws_dfs := [newFrame r]\<rparr>) = Some ws1" "tarjan_inv ws1" "ws_dfs ws1 = []"
      "covered (ws\<lparr>ws_dfs := [newFrame r]\<rparr>) \<subseteq> dom (ws_index ws1)"
      using dfsLoop_total [OF start_inv [OF Cons.prems(1,2) _ r(2)]] Cons.prems(3) r(1) by auto
    have "dom (ws_index ws) \<subseteq> dom (ws_index ws1)" "r \<in> dom (ws_index ws1)"
      using ws1(4) by (auto simp: covered_def newFrame_def)
    moreover obtain ws' where "visitRoots deps skip live rs ws1 = Some ws'" "tarjan_inv ws'" "ws_dfs ws' = []"
      "dom (ws_index ws1) \<union> {r \<in> set rs. live r} \<subseteq> dom (ws_index ws')"
      using Cons.IH [OF ws1(2,3)] Cons.prems(3) by auto
    ultimately show ?thesis using r ws1(1) by (intro exI [of _ ws']) auto
  qed
qed simp

lemma zero_inv: "tarjan_inv zero_workspace" "ws_dfs zero_workspace = []"
  by (simp_all add: zero_workspace_def tarjan_inv_def stack_ok_def dfs_ok_def low_ok_def path_def comps_ok_def)

text \<open>The components of a full run.\<close>

lemma components_correct:
  assumes "\<And>r. r \<in> set rs \<Longrightarrow> live r \<Longrightarrow> r \<in> V" "V \<subseteq> {r \<in> set rs. live r}"
  shows "\<exists>ws. visitRoots deps skip live rs zero_workspace = Some ws \<and> comps_ok (ws_components ws) \<and> set (concat (ws_components ws)) = V"
proof -
  obtain ws where ws: "visitRoots deps skip live rs zero_workspace = Some ws" "tarjan_inv ws" "ws_dfs ws = []"
    "{r \<in> set rs. live r} \<subseteq> dom (ws_index ws)"
    using visitRoots_total [OF zero_inv, of rs live] assms(1) by blast
  note st = stack_okD [OF tarjan_invD(1) [OF ws(2)]]
  have "dom (ws_index ws) = set (concat (ws_components ws))" using st(3) idle_stack [OF ws(2,3)] by simp
  then show ?thesis using ws(1,4) st(5,7) assms(2) by auto
qed

lemma in_concat_take: "x \<in> set (concat (take (Suc i) cs)) \<longleftrightarrow> (\<exists>j < length cs. j \<le> i \<and> x \<in> set (cs ! j))"
proof -
  have "x \<in> set (concat (take (Suc i) cs)) \<longleftrightarrow> list_ex (\<lambda>c. x \<in> set c) (take (Suc i) cs)" by (simp add: list_ex_iff)
  also have "\<dots> \<longleftrightarrow> (\<exists>j < length (take (Suc i) cs). x \<in> set (take (Suc i) cs ! j))" by (rule list_ex_length)
  also have "\<dots> \<longleftrightarrow> (\<exists>j < length cs. j \<le> i \<and> x \<in> set (cs ! j))"
    by (rule ex_cong1) (simp add: less_Suc_eq_le conj_ac cong: conj_cong)
  finally show ?thesis .
qed

lemma concat_unique:
  assumes "distinct (concat cs)" "i < length cs" "j < length cs" "x \<in> set (cs ! i)" "x \<in> set (cs ! j)"
  shows "i = j"
proof (rule ccontr)
  assume ne: "i \<noteq> j"
  have distinct: "i < j \<Longrightarrow> j < length cs \<Longrightarrow> x \<in> set (cs ! i) \<Longrightarrow> x \<in> set (cs ! j) \<Longrightarrow> False" for i j
  proof -
    assume a: "i < j" "j < length cs" "x \<in> set (cs ! i)" "x \<in> set (cs ! j)"
    have "concat cs = concat (take j cs) @ concat (drop j cs)" by (metis append_take_drop_id concat_append)
    moreover have "cs ! i \<in> set (take j cs)" "cs ! j \<in> set (drop j cs)"
      using nth_mem [of i "take j cs"] nth_mem [of 0 "drop j cs"] a by simp_all
    then have "x \<in> set (concat (take j cs))" "x \<in> set (concat (drop j cs))" using a(3,4) by auto
    ultimately show False using assms(1) by auto
  qed
  from ne show False using distinct [of i j] distinct [of j i] assms by (cases "i < j") auto
qed

lemma comps_ok_closed:
  assumes "comps_ok cs" "i < length cs" "u \<in> set (cs ! i)" "(u, v) \<in> R\<^sup>*"
  shows "\<exists>j < length cs. j \<le> i \<and> v \<in> set (cs ! j)"
  using assms(4)
proof (induction rule: rtrancl_induct)
  case base
  then show ?case using assms(2,3) by blast
next
  case (step y z)
  obtain j where j: "j < length cs" "j \<le> i" "y \<in> set (cs ! j)" using step.IH by blast
  have "E y \<subseteq> set (concat (take (Suc j) cs))" using assms(1) j(1,3) by (simp only: comps_ok_def)
  moreover have "z \<in> E y" using step.hyps(2) by simp
  ultimately have "z \<in> set (concat (take (Suc j) cs))" by (rule subsetD)
  then obtain k where "k < length cs" "k \<le> j" "z \<in> set (cs ! k)" unfolding in_concat_take by (elim exE conjE) (rule that)
  then show ?case using j(2) by (intro exI [of _ k]) simp
qed

lemma comps_ok_scc:
  assumes "comps_ok cs" "i < length cs" "u \<in> set (cs ! i)"
  shows "v \<in> set (cs ! i) \<longleftrightarrow> (u, v) \<in> R\<^sup>* \<and> (v, u) \<in> R\<^sup>*"
proof
  have "cs ! i \<in> set cs" using assms(2) by simp
  then show "(u, v) \<in> R\<^sup>* \<and> (v, u) \<in> R\<^sup>*" if "v \<in> set (cs ! i)" using assms that unfolding comps_ok_def by blast
  assume uv: "(u, v) \<in> R\<^sup>* \<and> (v, u) \<in> R\<^sup>*"
  obtain j where j: "j < length cs" "j \<le> i" "v \<in> set (cs ! j)" using comps_ok_closed [OF assms] uv by blast
  obtain k where k: "k < length cs" "k \<le> j" "u \<in> set (cs ! k)" using comps_ok_closed [OF assms(1) j(1,3)] uv by blast
  have "k = i" using concat_unique [OF _ k(1) assms(2) k(3) assms(3)] assms(1) by (simp add: comps_ok_def)
  then show "v \<in> set (cs ! i)" using j k(2) by (metis le_antisym)
qed

end

end
