(* ===== verification/Execution.thy ===== *)
theory Execution
  imports Node Tarjan
begin

text \<open>
  The execution scheduler of \<^verbatim>\<open>epaxos/sparse_progress.go\<close>: the view of the records a node holds, the
  components it executes together, and the test that a component may be executed now.

  A range over \<^verbatim>\<open>n.instances\<close> takes the order of the keys as a parameter. The iterator that
  \<^verbatim>\<open>dependencyRefs\<close> returns is the list of the refs that \<^verbatim>\<open>next\<close> has yet to return, and the reused
  buffers of the workspace are fresh values. The candidates that a call appends through its
  pointer are a second result.
\<close>

section \<open>The view\<close>

record refRange =
  rr_first :: nat
  rr_last :: nat

record executionView =
  view_refs :: "InstanceRef list"
  view_lanes :: "instanceLane \<rightharpoonup> refRange"

function laneRanges :: "InstanceRef list \<Rightarrow> nat \<Rightarrow> (instanceLane \<rightharpoonup> refRange) \<Rightarrow> (instanceLane \<rightharpoonup> refRange)" where
  "laneRanges refs first ranges =
     (if first < length refs
      then let lane = laneFor (refs ! first);
               last = first + 1 + length (takeWhile (\<lambda>r. laneFor r = lane) (drop (first + 1) refs))
           in laneRanges refs last (ranges(lane \<mapsto> \<lparr>rr_first = first, rr_last = last\<rparr>))
      else ranges)"
  by pat_completeness auto
termination
  by (relation "measure (\<lambda>(refs, first, ranges). length refs - first)") auto

declare laneRanges.simps [simp del]

definition newExecutionView :: "InstanceRef list \<Rightarrow> executionView" where
  "newExecutionView keys =
     (let refs = sortRefs keys in \<lparr>view_refs = refs, view_lanes = laneRanges refs 0 Map.empty\<rparr>)"

text \<open>The refs that one slot of the dependencies covers, and those of all slots.\<close>

definition slotRefs :: "executionView \<Rightarrow> InstanceRef \<Rightarrow> InstanceNum \<Rightarrow> ReplicaID \<Rightarrow> InstanceRef list" where
  "slotRefs vw base through replica =
     (if through = 0 then []
      else case view_lanes vw \<lparr>lane_conf = ref_Conf base, lane_replica = replica\<rparr> of
          None \<Rightarrow> []
        | Some window \<Rightarrow>
            let width = rr_last window - rr_first window;
                len = sort_Search width (\<lambda>offset. ref_Instance (view_refs vw ! (rr_first window + offset)) > through)
            in filter (\<lambda>ref. ref \<noteq> base) (take len (drop (rr_first window) (view_refs vw))))"

definition dependencyRefs :: "executionView \<Rightarrow> RawNode \<Rightarrow> InstanceRef \<Rightarrow> InstanceRef list" where
  "dependencyRefs vw n base =
     (case n_instances n base of
        None \<Rightarrow> []
      | Some inst \<Rightarrow>
          concat (map2 (slotRefs vw base) (r_Deps (i_rec inst)) (conf_Voters (confFor n (ref_Conf base)))))"

section \<open>The components\<close>

definition liveRoot :: "RawNode \<Rightarrow> InstanceRef \<Rightarrow> bool" where
  "liveRoot n root =
     (case n_instances n root of
        None \<Rightarrow> False
      | Some rootInst \<Rightarrow> \<not> (r_Status (i_rec rootInst) < StatusCommitted \<or> tracker_contains (n_executed n) root))"

definition skipDependency :: "RawNode \<Rightarrow> InstanceRef \<Rightarrow> InstanceRef \<Rightarrow> bool" where
  "skipDependency n vertex dependency =
     (if tracker_contains (n_executed n) dependency then True
      else case n_instances n dependency of
          None \<Rightarrow> True
        | Some dependencyInst \<Rightarrow>
            r_Status (i_rec dependencyInst) < StatusCommitted \<or>
            dependencyKnownAfter n vertex dependency StatusCommitted \<and>
            (case n_instances n vertex of None \<Rightarrow> True | Some baseInst \<Rightarrow> r_Kind (i_rec baseInst) \<noteq> EntryCheckpoint) \<and>
            r_Kind (i_rec dependencyInst) \<noteq> EntryCheckpoint)"

definition executionComponents :: "RawNode \<Rightarrow> executionView \<Rightarrow> InstanceRef list list option" where
  "executionComponents n vw =
     map_option ws_components
       (visitRoots (dependencyRefs vw n) (skipDependency n) (liveRoot n) (view_refs vw) zero_workspace)"

section \<open>Whether a component may be executed\<close>

abbreviation (input) recoverySourcePrefix :: u8 where "recoverySourcePrefix \<equiv> 1"
abbreviation (input) recoverySourceConflict :: u8 where "recoverySourceConflict \<equiv> 2"

abbreviation zero_lane :: instanceLane where
  "zero_lane \<equiv> \<lparr>lane_conf = 0, lane_replica = 0\<rparr>"

record recoverySource =
  rs_kind :: u8
  rs_base :: InstanceRef
  rs_lane :: instanceLane
  rs_conflict :: InstanceRef

record recoveryCandidate =
  cand_source :: recoverySource
  cand_ref :: InstanceRef

text \<open>
  The loop of \<^verbatim>\<open>firstPrefixBlocker\<close>; \<^verbatim>\<open>current\<close> wraps around, so the distance to \<^verbatim>\<open>through\<close> decreases
  from any start.
\<close>

lemma word_distance:
  fixes a b :: u64
  assumes "a \<noteq> b"
  shows "unat (b - (a + 1)) < unat (b - a)"
proof -
  have ne: "b - a \<noteq> 0" using assms by simp
  then have "unat (b - a) \<noteq> 0" by (simp only: unat_eq_zero simp_thms)
  moreover have "unat ((b - a) - 1) = unat (b - a) - 1" by (rule unat_minus_one [OF ne])
  ultimately show ?thesis by (simp only: diff_diff_eq [symmetric])
qed

definition discharged :: "RawNode \<Rightarrow> InstanceRef \<Rightarrow> InstanceRef set \<Rightarrow> InstanceRef \<Rightarrow> bool" where
  "discharged n base inside ref \<longleftrightarrow> ref = base \<or> ref \<in> inside \<or> tracker_contains (n_executed n) ref"

function prefixLoop :: "RawNode \<Rightarrow> InstanceRef \<Rightarrow> instanceLane \<Rightarrow> InstanceRef set \<Rightarrow> InstanceNum \<Rightarrow> InstanceNum \<Rightarrow>
    bool \<times> InstanceRef" where
  "prefixLoop n base lane inside through current =
     (let ref = refOf lane current;
          next = (if current = through then (False, zero_ref) else prefixLoop n base lane inside through (current + 1))
      in if discharged n base inside ref then next
         else case n_instances n ref of
             None \<Rightarrow> (True, ref)
           | Some inst \<Rightarrow>
               if r_Status (i_rec inst) < StatusCommitted then (True, ref)
               else if \<not> dependencyKnownAfter n base ref StatusCommitted then (True, zero_ref)
               else next)"
  by pat_completeness auto
termination
  by (relation "measure (\<lambda>(n, base, lane, inside, through, current). unat (through - current))")
    (simp_all add: word_distance)

declare prefixLoop.simps [simp del]

definition firstPrefixBlocker :: "RawNode \<Rightarrow> InstanceRef \<Rightarrow> instanceLane \<Rightarrow> InstanceNum \<Rightarrow> InstanceRef set \<Rightarrow>
    bool \<times> InstanceRef" where
  "firstPrefixBlocker n base lane through inside =
     (if through = 0 \<or> tracker_prefix (n_executed n) lane \<ge> through then (False, zero_ref)
      else case instanceSuccessor (tracker_prefix (n_executed n) lane) of
          None \<Rightarrow> (False, zero_ref)
        | Some current \<Rightarrow> prefixLoop n base lane inside through current)"

definition unresolvedConflict :: "RawNode \<Rightarrow> InstanceRef \<Rightarrow> InstanceRecord \<Rightarrow> InstanceRef set \<Rightarrow> InstanceRef \<Rightarrow> bool" where
  "unresolvedConflict n base rec inside otherRef =
     (if otherRef = base then False
      else if otherRef \<in> inside \<or> tracker_contains (n_executed n) otherRef then False
      else case n_instances n otherRef of
          None \<Rightarrow> False
        | Some other \<Rightarrow>
            if r_Status (i_rec other) = StatusNone \<or> r_Status (i_rec other) \<ge> StatusCommitted then False
            else recordsConflict rec (i_rec other) \<and> \<not> dependencyKnownAfter n base otherRef StatusPreAccepted)"

definition hasUnresolvedKnownConflict :: "RawNode \<Rightarrow> executionView \<Rightarrow> InstanceRef \<Rightarrow> InstanceRef set \<Rightarrow>
    bool \<times> recoveryCandidate list" where
  "hasUnresolvedKnownConflict n vw base inside =
     (case n_instances n base of
        None \<Rightarrow> (False, [])
      | Some inst \<Rightarrow>
          let found = filter (unresolvedConflict n base (i_rec inst) inside) (view_refs vw)
          in (found \<noteq> [], map (\<lambda>r. \<lparr>cand_source = \<lparr>rs_kind = recoverySourceConflict, rs_base = base, rs_lane = zero_lane, rs_conflict = r\<rparr>, cand_ref = r\<rparr>) found))"

text \<open>The slots of one member: whether they are all clear, and the refs to recover.\<close>

definition slotReady :: "RawNode \<Rightarrow> InstanceRef \<Rightarrow> InstanceRef set \<Rightarrow> InstanceNum \<Rightarrow> ReplicaID \<Rightarrow>
    bool \<times> recoveryCandidate list" where
  "slotReady n base inside through replica =
     (if through = 0 then (True, [])
      else
        let lane = \<lparr>lane_conf = ref_Conf base, lane_replica = replica\<rparr>;
            (blocked, recoverRef) = firstPrefixBlocker n base lane through inside
        in if \<not> blocked then (True, [])
           else (False,
                 if ref_IsZero recoverRef then []
                 else [\<lparr>cand_source = \<lparr>rs_kind = recoverySourcePrefix, rs_base = base, rs_lane = lane, rs_conflict = zero_ref\<rparr>, cand_ref = recoverRef\<rparr>]))"

definition memberReady :: "RawNode \<Rightarrow> executionView \<Rightarrow> InstanceRef set \<Rightarrow> InstanceRef \<Rightarrow> bool \<times> recoveryCandidate list" where
  "memberReady n vw inside base =
     (let (conflict, found) = hasUnresolvedKnownConflict n vw base inside
      in case n_instances n base of
           None \<Rightarrow> (False, found)
         | Some inst \<Rightarrow>
             let slots = map2 (slotReady n base inside) (r_Deps (i_rec inst)) (conf_Voters (confFor n (ref_Conf base)))
             in (\<not> conflict \<and> (\<forall>s \<in> set slots. fst s), found @ concat (map snd slots)))"

definition componentReady :: "RawNode \<Rightarrow> executionView \<Rightarrow> InstanceRef list \<Rightarrow> bool \<times> recoveryCandidate list" where
  "componentReady n vw component =
     (let members = map (memberReady n vw (set component)) (sortRefs component)
      in (\<forall>m \<in> set members. fst m, concat (map snd members)))"

section \<open>What the view lists\<close>

lemma lane_convex:
  assumes "laneFor x = laneFor z" "x \<le> y" "y \<le> z"
  shows "laneFor y = laneFor x"
  using assms by (cases x; cases y; cases z) (auto simp: less_eq_InstanceRef_def lessRef_def laneFor_def simp del: lessRef_iff split: if_splits)

lemma lane_le: "laneFor x = laneFor y \<Longrightarrow> x \<le> y \<longleftrightarrow> ref_Instance x \<le> ref_Instance y"
  by (cases x; cases y) (auto simp: less_eq_InstanceRef_def lessRef_def laneFor_def simp del: lessRef_iff split: if_splits)

lemma lane_dropWhile:
  assumes "sorted (r # xs)" "y \<in> set (dropWhile (\<lambda>x. laneFor x = laneFor r) xs)"
  shows "laneFor y \<noteq> laneFor r"
  using assms
proof (induction xs)
  case (Cons x xs)
  show ?case
  proof (cases "laneFor x = laneFor r")
    case True
    then show ?thesis using Cons by simp
  next
    case False
    then have "x \<le> y" "r \<le> x" using Cons.prems by auto
    then show ?thesis using lane_convex [of r y x] False by auto
  qed
qed simp

abbreviation inLane :: "instanceLane \<Rightarrow> InstanceRef \<Rightarrow> bool" where
  "inLane lane \<equiv> \<lambda>r. laneFor r = lane"

text \<open>The ranges of the lanes among the first \<open>k\<close> refs, and that the other refs are in other lanes.\<close>

definition ranges_ok :: "InstanceRef list \<Rightarrow> nat \<Rightarrow> (instanceLane \<rightharpoonup> refRange) \<Rightarrow> bool" where
  "ranges_ok refs k ranges \<longleftrightarrow>
     (\<forall>lane. case ranges lane of
          None \<Rightarrow> filter (inLane lane) (take k refs) = []
        | Some w \<Rightarrow> rr_first w \<le> rr_last w \<and> rr_last w \<le> length refs \<and>
            take (rr_last w - rr_first w) (drop (rr_first w) refs) = filter (inLane lane) (take k refs)) \<and>
     (\<forall>x \<in> set (take k refs). \<forall>y \<in> set (drop k refs). laneFor x \<noteq> laneFor y)"

lemma ranges_ok_step:
  assumes ok: "ranges_ok refs first ranges" and srt: "sorted refs" and lt: "first < length refs"
    and lane: "lane = laneFor (refs ! first)"
    and lastdef: "lst = first + 1 + length (takeWhile (inLane lane) (drop (first + 1) refs))"
  shows "ranges_ok refs lst (ranges(lane \<mapsto> \<lparr>rr_first = first, rr_last = lst\<rparr>))"
proof -
  define r where "r = refs ! first"
  define xs where "xs = drop (first + 1) refs"
  define run where "run = r # takeWhile (inLane lane) xs"
  have tail: "drop first refs = r # xs" using lt by (simp add: r_def xs_def Cons_nth_drop_Suc)
  have split: "drop first refs = run @ dropWhile (inLane lane) xs" by (simp add: tail run_def)
  have lstlen: "lst = first + length run" using lastdef by (simp add: run_def xs_def)
  have tk: "take lst refs = take first refs @ run"
    unfolding lstlen take_add split by simp
  have dr: "drop lst refs = dropWhile (inLane lane) xs"
    unfolding lstlen drop_drop [symmetric] add.commute [of first] split by simp
  have "length run \<le> length (drop first refs)" unfolding split by simp
  then have le: "lst \<le> length refs" using lt lstlen by simp
  have in_run: "laneFor x = lane" if "x \<in> set run" for x
    using that by (auto simp: run_def lane r_def dest: set_takeWhileD)
  have win: "take (lst - first) (drop first refs) = run" unfolding split lstlen by simp
  have sep: "laneFor x \<noteq> laneFor y" if "x \<in> set (take first refs)" "y \<in> set (drop first refs)" for x y
    using ok that by (simp add: ranges_ok_def)
  have r_in: "r \<in> set (drop first refs)" unfolding tail by simp
  have none: "filter (inLane lane) (take first refs) = []"
    unfolding filter_empty_conv using sep [OF _ r_in] by (auto simp: lane r_def)
  have srt': "sorted (r # xs)" using sorted_wrt_drop [OF srt, of first] by (simp only: tail)
  have far: "laneFor y \<noteq> lane" if "y \<in> set (drop lst refs)" for y
    using lane_dropWhile [OF srt', of y] that by (simp add: dr lane r_def)
  have "case (ranges(lane \<mapsto> \<lparr>rr_first = first, rr_last = lst\<rparr>)) l of
          None \<Rightarrow> filter (inLane l) (take lst refs) = []
        | Some w \<Rightarrow> rr_first w \<le> rr_last w \<and> rr_last w \<le> length refs \<and>
            take (rr_last w - rr_first w) (drop (rr_first w) refs) = filter (inLane l) (take lst refs)" for l
  proof (cases "l = lane")
    case True
    have "filter (inLane lane) run = run" using in_run by (simp add: filter_id_conv)
    then have "filter (inLane lane) (take lst refs) = run" using none by (simp add: tk)
    then show ?thesis using True le win lstlen by simp
  next
    case False
    have "filter (inLane l) run = []" using in_run False by (auto simp: filter_empty_conv)
    then have "filter (inLane l) (take lst refs) = filter (inLane l) (take first refs)" by (simp add: tk)
    then show ?thesis using ok [unfolded ranges_ok_def, THEN conjunct1, rule_format, of l] False by (cases "ranges l") simp_all
  qed
  moreover have "laneFor x \<noteq> laneFor y" if "x \<in> set (take lst refs)" "y \<in> set (drop lst refs)" for x y
  proof (cases "x \<in> set run")
    case True
    then show ?thesis using in_run far [OF that(2)] by auto
  next
    case False
    then have "x \<in> set (take first refs)" using that(1) by (simp add: tk)
    moreover have "y \<in> set (drop first refs)" using that(2) by (simp add: dr split)
    ultimately show ?thesis by (rule sep)
  qed
  ultimately show ?thesis unfolding ranges_ok_def by blast
qed

lemma laneRanges_ok:
  "sorted refs \<Longrightarrow> ranges_ok refs first ranges \<Longrightarrow> first \<le> length refs \<Longrightarrow>
   ranges_ok refs (length refs) (laneRanges refs first ranges)"
proof (induction refs first ranges rule: laneRanges.induct)
  case (1 refs first ranges)
  show ?case
  proof (cases "first < length refs")
    case True
    define lane where "lane = laneFor (refs ! first)"
    define lst where "lst = first + 1 + length (takeWhile (inLane lane) (drop (first + 1) refs))"
    have "length (takeWhile (inLane lane) (drop (first + 1) refs)) \<le> length (drop (first + 1) refs)"
      by (rule length_takeWhile_le)
    then have "lst \<le> length refs" using True by (simp add: lst_def)
    then have "ranges_ok refs (length refs) (laneRanges refs lst (ranges(lane \<mapsto> \<lparr>rr_first = first, rr_last = lst\<rparr>)))"
      using 1(1) [OF True lane_def lst_def 1(2)] ranges_ok_step [OF 1(3,2) True lane_def lst_def] by blast
    then show ?thesis using True unfolding laneRanges.simps [of refs first ranges] Let_def lane_def lst_def by simp
  next
    case False
    then show ?thesis using 1(3,4) unfolding laneRanges.simps [of refs first ranges] by simp
  qed
qed

lemma view_refs_new [simp]: "view_refs (newExecutionView keys) = sort keys"
  by (simp add: newExecutionView_def Let_def sortRefs_def)

lemma view_lanes_new:
  "case view_lanes (newExecutionView keys) lane of
     None \<Rightarrow> filter (inLane lane) (sort keys) = []
   | Some w \<Rightarrow> rr_first w \<le> rr_last w \<and> rr_last w \<le> length keys \<and>
       take (rr_last w - rr_first w) (drop (rr_first w) (sort keys)) = filter (inLane lane) (sort keys)"
proof -
  have "ranges_ok (sort keys) (length (sort keys)) (laneRanges (sort keys) 0 Map.empty)"
    by (rule laneRanges_ok) (simp_all add: ranges_ok_def)
  from this [unfolded ranges_ok_def, THEN conjunct1, rule_format, of lane]
  show ?thesis
    by (cases "laneRanges (sort keys) 0 Map.empty lane") (simp_all add: newExecutionView_def sortRefs_def Let_def)
qed


lemma sorted_lane:
  assumes "sorted refs"
  shows "sorted (map ref_Instance (filter (inLane lane) refs))"
  using assms by (induction refs) (auto simp: lane_le)

lemma take_search:
  assumes "sorted (map f W)" "\<And>k. k < length W \<Longrightarrow> P k \<longleftrightarrow> x < f (W ! k)"
  shows "sort_Search (length W) P \<le> length W" "set (take (sort_Search (length W) P) W) = {w \<in> set W. f w \<le> x}"
proof -
  have mono: "\<forall>k l. k \<le> l \<and> l < length W \<and> P k \<longrightarrow> P l"
  proof (intro allI impI, elim conjE)
    fix k l assume kl: "k \<le> l" "l < length W" "P k"
    then have "f (W ! k) \<le> f (W ! l)" using sorted_nth_mono [OF assms(1), of k l] by simp
    moreover have "x < f (W ! k)" using assms(2) [of k] kl by simp
    ultimately show "P l" using assms(2) [of l] kl(2) by simp
  qed
  note s = sort_Search_correct [OF mono]
  let ?m = "sort_Search (length W) P"
  show m: "?m \<le> length W" by (rule s(1))
  have "f w \<le> x" if w: "w \<in> set (take ?m W)" for w
  proof -
    obtain k where "k < ?m" "w = W ! k" using w m by (auto simp: in_set_conv_nth)
    then show ?thesis using s(2) [of k] assms(2) [of k] m by simp
  qed
  moreover have "\<not> f w \<le> x" if w: "w \<in> set (drop ?m W)" for w
  proof -
    obtain k where "?m + k < length W" "w = W ! (?m + k)" using w m by (auto simp: in_set_conv_nth less_diff_conv add.commute)
    then show ?thesis using s(3) [of "?m + k"] assms(2) [of "?m + k"] by simp
  qed
  moreover have "set W = set (take ?m W) \<union> set (drop ?m W)" by (metis append_take_drop_id set_append)
  ultimately show "set (take ?m W) = {w \<in> set W. f w \<le> x}" by blast
qed

lemma set_slotRefs:
  "ref \<in> set (slotRefs (newExecutionView keys) base through replica) \<longleftrightarrow>
     through \<noteq> 0 \<and> ref \<in> set keys \<and> ref \<noteq> base \<and>
     laneFor ref = \<lparr>lane_conf = ref_Conf base, lane_replica = replica\<rparr> \<and> ref_Instance ref \<le> through"
  (is "_ \<longleftrightarrow> ?rhs")
proof (cases "through = 0 \<or> view_lanes (newExecutionView keys) \<lparr>lane_conf = ref_Conf base, lane_replica = replica\<rparr> = None")
  case True
  then show ?thesis
    using view_lanes_new [where keys = keys and lane = "\<lparr>lane_conf = ref_Conf base, lane_replica = replica\<rparr>"]
    by (auto simp: slotRefs_def filter_empty_conv)
next
  case False
  let ?lane = "\<lparr>lane_conf = ref_Conf base, lane_replica = replica\<rparr>"
  obtain w where w: "view_lanes (newExecutionView keys) ?lane = Some w" using False by blast
  define W where "W = filter (inLane ?lane) (sort keys)"
  define width where "width = rr_last w - rr_first w"
  define P where "P = (\<lambda>offset. through < ref_Instance (sort keys ! (rr_first w + offset)))"
  have ok: "rr_first w \<le> rr_last w" "rr_last w \<le> length keys" "take width (drop (rr_first w) (sort keys)) = W"
    using view_lanes_new [where keys = keys and lane = ?lane] by (simp_all add: w W_def width_def)
  have len: "length W = width" using ok by (simp add: width_def flip: ok(3))
  have nth: "W ! k = sort keys ! (rr_first w + k)" if "k < width" for k
    using that ok(1,2) by (simp add: width_def flip: ok(3))
  have srt: "sorted (map ref_Instance W)" unfolding W_def by (rule sorted_lane) simp
  have P: "P k \<longleftrightarrow> through < ref_Instance (W ! k)" if "k < length W" for k using that by (simp add: P_def nth len)
  note search = take_search [OF srt P, unfolded len]
  have "slotRefs (newExecutionView keys) base through replica =
      filter (\<lambda>ref. ref \<noteq> base) (take (sort_Search width P) (drop (rr_first w) (sort keys)))"
    using False by (simp add: slotRefs_def w width_def P_def Let_def)
  also have "take (sort_Search width P) (drop (rr_first w) (sort keys)) = take (sort_Search width P) W"
    using search(1) by (simp add: min_def flip: ok(3))
  finally show ?thesis using False search(2) by (auto simp: W_def)
qed

text \<open>
  The edges of the graph: the records that the dependencies of a record cover, as far as they are
  not executed, committed, and not known to be ordered after it.
\<close>

definition covers :: "RawNode \<Rightarrow> InstanceRef \<Rightarrow> InstanceRef \<Rightarrow> bool" where
  "covers n base ref \<longleftrightarrow>
     (\<exists>inst slot. n_instances n base = Some inst \<and> slot < length (r_Deps (i_rec inst)) \<and>
        slot < length (conf_Voters (confFor n (ref_Conf base))) \<and>
        laneFor ref = \<lparr>lane_conf = ref_Conf base, lane_replica = conf_Voters (confFor n (ref_Conf base)) ! slot\<rparr> \<and>
        r_Deps (i_rec inst) ! slot \<noteq> 0 \<and> ref_Instance ref \<le> r_Deps (i_rec inst) ! slot)"

lemma bex_zip: "(\<exists>(x, y) \<in> set (zip xs ys). P x y) \<longleftrightarrow> (\<exists>i. i < length xs \<and> i < length ys \<and> P (xs ! i) (ys ! i))"
  by (auto simp: set_zip)

lemma set_dependencyRefs:
  "ref \<in> set (dependencyRefs (newExecutionView keys) n base) \<longleftrightarrow> ref \<in> set keys \<and> ref \<noteq> base \<and> covers n base ref"
proof (cases "n_instances n base")
  case (Some inst)
  let ?deps = "r_Deps (i_rec inst)" and ?voters = "conf_Voters (confFor n (ref_Conf base))"
  have "ref \<in> set (dependencyRefs (newExecutionView keys) n base) \<longleftrightarrow>
      (\<exists>(d, v) \<in> set (zip ?deps ?voters). ref \<in> set (slotRefs (newExecutionView keys) base d v))"
    by (auto simp: dependencyRefs_def Some)
  then show ?thesis unfolding bex_zip set_slotRefs covers_def Some option.inject by blast
qed (simp add: dependencyRefs_def covers_def)

section \<open>The components are the cycles, in dependency order\<close>

interpretation exec: dependency_graph
  "dependencyRefs (newExecutionView keys) n" "skipDependency n" "{ref \<in> set keys. liveRoot n ref}" for keys n
proof
  show "finite {ref \<in> set keys. liveRoot n ref}" by simp
  fix v d assume "d \<in> set (dependencyRefs (newExecutionView keys) n v)" "\<not> skipDependency n v d"
  then show "d \<in> {ref \<in> set keys. liveRoot n ref}"
    by (auto simp: set_dependencyRefs skipDependency_def liveRoot_def split: if_splits option.splits)
qed

definition precedes :: "RawNode \<Rightarrow> InstanceRef rel" where
  "precedes n = {(base, ref). ref \<noteq> base \<and> covers n base ref \<and> \<not> skipDependency n base ref}"

lemma skip_unknown: "n_instances n ref = None \<Longrightarrow> skipDependency n base ref"
  by (simp add: skipDependency_def)

lemma exec_R:
  assumes "set keys = dom (n_instances n)"
  shows "{(u, d). d \<in> {d \<in> set (dependencyRefs (newExecutionView keys) n u). \<not> skipDependency n u d}} = precedes n"
proof -
  have "ref \<in> set keys" if "\<not> skipDependency n base ref" for base ref using that skip_unknown assms by blast
  then show ?thesis by (auto simp: set_dependencyRefs precedes_def)
qed

lemma liveRoot_known: "liveRoot n ref \<Longrightarrow> ref \<in> dom (n_instances n)"
  by (auto simp: liveRoot_def split: option.splits)

lemma components_of:
  assumes "set keys = dom (n_instances n)"
  shows "\<exists>cs. executionComponents n (newExecutionView keys) = Some cs \<and> exec.comps_ok keys n cs \<and>
     set (concat cs) = Collect (liveRoot n)"
proof -
  have V: "{ref \<in> set keys. liveRoot n ref} = Collect (liveRoot n)" using liveRoot_known assms by blast
  show ?thesis
    using exec.components_correct [where rs = "sort keys" and live = "liveRoot n" and keys = keys and n = n]
    by (auto simp: executionComponents_def V)
qed


definition example_node :: RawNode where
  "example_node =
     (let ref = (\<lambda>r i. InstanceRef r i 1);
          put = (\<lambda>ref seq deps. newInstance (zero_record\<lparr>r_Ref := ref, r_Status := StatusCommitted, r_Kind := EntryCommand,
                   r_Seq := seq, r_Deps := deps\<rparr>) phaseCommitted)
      in (emptyNode 1 [1 \<mapsto> \<lparr>conf_ID = 1, conf_Voters = [1, 2, 3]\<rparr>])\<lparr>n_instances :=
           [ref 1 1 \<mapsto> put (ref 1 1) 2 [0, 1, 0], ref 2 1 \<mapsto> put (ref 2 1) 2 [1, 0, 1],
            ref 3 1 \<mapsto> put (ref 3 1) 1 [0, 0, 0]]\<rparr>)"

definition example_keys :: "InstanceRef list" where
  "example_keys = [InstanceRef 2 1 1, InstanceRef 3 1 1, InstanceRef 1 1 1]"

lemma example_computes:
  "executionComponents example_node (newExecutionView example_keys) =
     Some [[InstanceRef 3 1 1], [InstanceRef 2 1 1, InstanceRef 1 1 1]]"
  by code_simp


section \<open>What readiness means\<close>

lemma knownAfter_committed:
  "dependencyKnownAfter n base ref minStatus \<Longrightarrow>
   \<exists>inst. n_instances n ref = Some inst \<and> \<not> r_Status (i_rec inst) < minStatus"
  by (auto simp: dependencyKnownAfter_def split: option.splits if_splits)

definition settled :: "RawNode \<Rightarrow> InstanceRef \<Rightarrow> InstanceRef set \<Rightarrow> InstanceRef \<Rightarrow> bool" where
  "settled n base inside ref \<longleftrightarrow> discharged n base inside ref \<or> dependencyKnownAfter n base ref StatusCommitted"

definition unresolved :: "RawNode \<Rightarrow> InstanceRef \<Rightarrow> bool" where
  "unresolved n ref \<longleftrightarrow> \<not> tracker_contains (n_executed n) ref \<and>
     (\<forall>inst. n_instances n ref = Some inst \<longrightarrow> r_Status (i_rec inst) < StatusCommitted)"

lemma word_interval:
  fixes a b x :: u64
  assumes "a \<le> b" "a \<noteq> b"
  shows "a + 1 \<le> b" "a \<le> x \<longleftrightarrow> x = a \<or> a + 1 \<le> x"
proof -
  have "a < b" using assms by simp
  then have "a \<noteq> -1" using word_n1_ge [of b] leD by blast
  then have u: "unat (a + 1) = Suc (unat a)" by (rule unat_succ)
  show "a + 1 \<le> b" using \<open>a < b\<close> unfolding word_le_nat_alt word_less_nat_alt u by simp
  have "x = a \<longleftrightarrow> unat x = unat a" by (simp add: word_unat_eq_iff)
  then show "a \<le> x \<longleftrightarrow> x = a \<or> a + 1 \<le> x" unfolding word_le_nat_alt u by linarith
qed

lemma prefixLoop_clear:
  "current \<le> through \<Longrightarrow>
   \<not> fst (prefixLoop n base lane inside through current) \<longleftrightarrow>
     (\<forall>x. current \<le> x \<and> x \<le> through \<longrightarrow> settled n base inside (refOf lane x))"
proof (induction n base lane inside through current rule: prefixLoop.induct)
  case (1 n base lane inside through current)
  define ref where "ref = refOf lane current"
  define more where "more = (if current = through then (False, zero_ref) else prefixLoop n base lane inside through (current + 1))"
  have unfold: "\<not> fst (prefixLoop n base lane inside through current) \<longleftrightarrow> settled n base inside ref \<and> \<not> fst more"
    using knownAfter_committed [of n base ref StatusCommitted]
    by (auto simp: prefixLoop.simps [of n base lane inside through current] more_def ref_def settled_def Let_def
        split: option.splits if_splits)
  show ?case
  proof (cases "current = through")
    case True
    then show ?thesis unfolding unfold using order_antisym [of current] by (auto simp: more_def ref_def)
  next
    case False
    note w = word_interval [OF 1(2) False]
    have more: "\<not> fst more \<longleftrightarrow> (\<forall>x. current + 1 \<le> x \<and> x \<le> through \<longrightarrow> settled n base inside (refOf lane x))"
      using 1(1) [OF ref_def False w(1)] False by (simp add: more_def)
    show ?thesis unfolding unfold more w(2) ref_def using 1(2) by blast
  qed
qed

lemma prefixLoop_recovers:
  "prefixLoop n base lane inside through current = (True, ref) \<Longrightarrow> ref \<noteq> zero_ref \<Longrightarrow>
   unresolved n ref \<and> ref \<noteq> base \<and> ref \<notin> inside \<and> laneFor ref = lane"
proof (induction n base lane inside through current rule: prefixLoop.induct)
  case (1 n base lane inside through current)
  from 1(2) show ?case
    unfolding prefixLoop.simps [of n base lane inside through current] Let_def
    using 1(1) [OF refl _ _ 1(3)] 1(3)
    by (auto simp: unresolved_def discharged_def split: if_splits option.splits)
qed

lemma settled_prefix:
  assumes "x \<le> tracker_prefix (n_executed n) lane" "x \<noteq> 0"
  shows "settled n base inside (refOf lane x)"
  using assms by (simp add: settled_def discharged_def contains_iff tracker_prefix_def)

lemma firstPrefixBlocker_clear:
  "\<not> fst (firstPrefixBlocker n base lane through inside) \<longleftrightarrow>
     (\<forall>x. x \<noteq> 0 \<and> x \<le> through \<longrightarrow> settled n base inside (refOf lane x))"
proof (cases "through = 0 \<or> through \<le> tracker_prefix (n_executed n) lane")
  case True
  then show ?thesis
    using settled_prefix order_trans by (auto simp: firstPrefixBlocker_def)
next
  case False
  define p where "p = tracker_prefix (n_executed n) lane"
  have lt: "p < through" using False by (simp only: p_def not_le de_Morgan_disj)
  have "p \<noteq> -1" using lt word_n1_ge [of through] leD by blast
  then obtain c where c: "instanceSuccessor p = Some c" by (simp add: instanceSuccessor_def)
  have u: "unat c = Suc (unat p)" by (rule instanceSuccessor_Some [OF c])
  have cx: "c \<le> x \<longleftrightarrow> \<not> x \<le> p" for x unfolding word_le_nat_alt u by linarith
  have "c \<le> through" unfolding cx using lt by (simp only: not_le)
  then have "\<not> fst (firstPrefixBlocker n base lane through inside) \<longleftrightarrow>
      (\<forall>x. c \<le> x \<and> x \<le> through \<longrightarrow> settled n base inside (refOf lane x))"
    using prefixLoop_clear [of c through] False c by (simp add: firstPrefixBlocker_def p_def)
  moreover have "c \<le> x \<Longrightarrow> x \<noteq> 0" for x unfolding word_le_nat_alt u by auto
  ultimately show ?thesis unfolding cx using settled_prefix [of _ n lane, folded p_def] by blast
qed

lemma firstPrefixBlocker_recovers:
  assumes "firstPrefixBlocker n base lane through inside = (True, ref)" "ref \<noteq> zero_ref"
  shows "unresolved n ref \<and> ref \<noteq> base \<and> ref \<notin> inside \<and> laneFor ref = lane"
  using assms prefixLoop_recovers by (auto simp: firstPrefixBlocker_def split: if_splits option.splits)

lemma slotReady_clear:
  "fst (slotReady n base inside through replica) \<longleftrightarrow>
     (\<forall>x. x \<noteq> 0 \<and> x \<le> through \<longrightarrow> settled n base inside (InstanceRef replica x (ref_Conf base)))"
proof -
  let ?lane = "\<lparr>lane_conf = ref_Conf base, lane_replica = replica\<rparr>"
  have "fst (slotReady n base inside through replica) \<longleftrightarrow> through = 0 \<or> \<not> fst (firstPrefixBlocker n base ?lane through inside)"
    by (simp add: slotReady_def Let_def case_prod_unfold)
  then show ?thesis unfolding firstPrefixBlocker_clear refOf_def by auto
qed

lemma slotReady_candidates:
  "c \<in> set (snd (slotReady n base inside through replica)) \<Longrightarrow>
   unresolved n (cand_ref c) \<and> cand_ref c \<notin> inside"
  using firstPrefixBlocker_recovers [of n base "\<lparr>lane_conf = ref_Conf base, lane_replica = replica\<rparr>" through inside]
  by (auto simp: slotReady_def Let_def case_prod_unfold prod_eq_iff split: if_splits)

text \<open>A record that conflicts, is not committed, and is not known to be ordered after \<open>base\<close>.\<close>

definition open_conflict :: "RawNode \<Rightarrow> InstanceRef \<Rightarrow> InstanceRef set \<Rightarrow> InstanceRef \<Rightarrow> bool" where
  "open_conflict n base inside ref \<longleftrightarrow>
     \<not> discharged n base inside ref \<and> \<not> dependencyKnownAfter n base ref StatusPreAccepted \<and>
     (\<exists>inst other. n_instances n base = Some inst \<and> n_instances n ref = Some other \<and>
        StatusNone < r_Status (i_rec other) \<and> r_Status (i_rec other) < StatusCommitted \<and>
        recordsConflict (i_rec inst) (i_rec other))"

lemma unresolvedConflict_iff:
  "n_instances n base = Some inst \<Longrightarrow>
   unresolvedConflict n base (i_rec inst) inside ref \<longleftrightarrow> open_conflict n base inside ref"
  by (auto simp: unresolvedConflict_def open_conflict_def discharged_def word_neq_0_conv not_le split: option.splits)

lemma conflict_clear:
  assumes "set keys = dom (n_instances n)"
  shows "fst (hasUnresolvedKnownConflict n (newExecutionView keys) base inside) \<longleftrightarrow> (\<exists>ref. open_conflict n base inside ref)"
    and "c \<in> set (snd (hasUnresolvedKnownConflict n (newExecutionView keys) base inside)) \<Longrightarrow>
      open_conflict n base inside (cand_ref c)"
proof -
  have dom: "open_conflict n base inside ref \<Longrightarrow> ref \<in> set keys \<and> (\<exists>inst. n_instances n base = Some inst)" for ref
    using assms by (auto simp: open_conflict_def)
  show "fst (hasUnresolvedKnownConflict n (newExecutionView keys) base inside) \<longleftrightarrow> (\<exists>ref. open_conflict n base inside ref)"
    using dom by (auto simp: hasUnresolvedKnownConflict_def Let_def filter_empty_conv unresolvedConflict_iff split: option.splits)
  show "c \<in> set (snd (hasUnresolvedKnownConflict n (newExecutionView keys) base inside)) \<Longrightarrow>
      open_conflict n base inside (cand_ref c)"
    by (auto simp: hasUnresolvedKnownConflict_def Let_def unresolvedConflict_iff split: option.splits)
qed

lemma open_conflict_unresolved: "open_conflict n base inside ref \<Longrightarrow> unresolved n ref \<and> ref \<notin> inside"
  by (auto simp: open_conflict_def unresolved_def discharged_def)

definition member_ready :: "RawNode \<Rightarrow> InstanceRef set \<Rightarrow> InstanceRef \<Rightarrow> bool" where
  "member_ready n inside base \<longleftrightarrow> base \<in> dom (n_instances n) \<and>
     (\<forall>ref. covers n base ref \<and> ref_Instance ref \<noteq> 0 \<longrightarrow> settled n base inside ref) \<and>
     \<not> (\<exists>ref. open_conflict n base inside ref)"

lemma covered_slots:
  assumes "n_instances n base = Some inst"
  shows "(\<forall>ref. covers n base ref \<and> ref_Instance ref \<noteq> 0 \<longrightarrow> settled n base inside ref) \<longleftrightarrow>
    (\<forall>(d, v) \<in> set (zip (r_Deps (i_rec inst)) (conf_Voters (confFor n (ref_Conf base)))).
       \<forall>x. x \<noteq> 0 \<and> x \<le> d \<longrightarrow> settled n base inside (InstanceRef v x (ref_Conf base)))"
proof -
  let ?zip = "zip (r_Deps (i_rec inst)) (conf_Voters (confFor n (ref_Conf base)))"
  have iff: "covers n base (InstanceRef v x c) \<longleftrightarrow> c = ref_Conf base \<and> (\<exists>(d, w) \<in> set ?zip. w = v \<and> d \<noteq> 0 \<and> x \<le> d)" for v x c
    unfolding bex_zip covers_def assms by (auto simp: laneFor_def)
  have from_slots: "settled n base inside ref"
    if all: "\<forall>(d, v) \<in> set ?zip. \<forall>x. x \<noteq> 0 \<and> x \<le> d \<longrightarrow> settled n base inside (InstanceRef v x (ref_Conf base))"
      and ref: "covers n base ref" "ref_Instance ref \<noteq> 0" for ref
  proof (cases ref)
    case (InstanceRef v x c)
    obtain d where "(d, v) \<in> set ?zip" "x \<le> d" "c = ref_Conf base" using ref(1) unfolding InstanceRef iff by (elim conjE bexE) (simp add: case_prod_unfold, metis prod.collapse)
    then show ?thesis using bspec [OF all, of "(d, v)"] ref(2) by (simp add: InstanceRef)
  qed
  have to_slots: "settled n base inside (InstanceRef v x (ref_Conf base))"
    if all: "\<forall>ref. covers n base ref \<and> ref_Instance ref \<noteq> 0 \<longrightarrow> settled n base inside ref"
      and x: "(d, v) \<in> set ?zip" "x \<noteq> 0" "x \<le> d" for d v x
  proof -
    have "d \<noteq> 0" using x(2,3) by auto
    then have "covers n base (InstanceRef v x (ref_Conf base))" unfolding iff using x(1,3) by blast
    then show ?thesis using all x(2) by simp
  qed
  show ?thesis (is "?refs \<longleftrightarrow> ?slots")
  proof
    show ?refs if ?slots using from_slots [OF that] by (intro allI impI) (elim conjE)
    show ?slots if ?refs using to_slots [OF that] by (intro ballI) (simp only: split_paired_all prod.case, intro allI impI, elim conjE)
  qed
qed

lemma memberReady_iff:
  assumes "set keys = dom (n_instances n)"
  shows "fst (memberReady n (newExecutionView keys) inside base) \<longleftrightarrow> member_ready n inside base"
    and "c \<in> set (snd (memberReady n (newExecutionView keys) inside base)) \<Longrightarrow>
      unresolved n (cand_ref c) \<and> cand_ref c \<notin> inside"
proof -
  note conflict = conflict_clear [OF assms, where base = base and inside = inside]
  show "fst (memberReady n (newExecutionView keys) inside base) \<longleftrightarrow> member_ready n inside base"
  proof (cases "n_instances n base")
    case (Some inst)
    show ?thesis
      unfolding member_ready_def covered_slots [OF Some] conflict(1) [symmetric]
      by (auto simp: memberReady_def Some case_prod_unfold Let_def slotReady_clear)
  qed (auto simp: memberReady_def member_ready_def case_prod_unfold)
  show "unresolved n (cand_ref c) \<and> cand_ref c \<notin> inside"
    if "c \<in> set (snd (memberReady n (newExecutionView keys) inside base))"
    using that conflict(2) [THEN open_conflict_unresolved] slotReady_candidates
    by (auto simp: memberReady_def case_prod_unfold Let_def split: option.splits)
qed

text \<open>
  C2. A component is reported ready exactly when, for each of its members, the record is there, every
  instance that its dependencies cover is executed, in the component, or committed and known to be
  ordered after it, and no conflicting record is still open. The instances proposed for recovery are
  outside the component, not executed and not committed.
\<close>

theorem componentReady_exact:
  assumes "set keys = dom (n_instances n)"
  shows "(fst (componentReady n (newExecutionView keys) component) \<longleftrightarrow>
      (\<forall>base \<in> set component. member_ready n (set component) base)) \<and>
    (\<forall>c \<in> set (snd (componentReady n (newExecutionView keys) component)).
      unresolved n (cand_ref c) \<and> cand_ref c \<notin> set component)"
  using memberReady_iff [OF assms] by (auto simp: componentReady_def Let_def sortRefs_def)

lemma example_ready:
  "componentReady example_node (newExecutionView example_keys) [InstanceRef 3 1 1] = (True, [])"
  by code_simp

theorem componentReady_exact_witness:
  "set example_keys = dom (n_instances example_node) \<and> member_ready example_node {InstanceRef 3 1 1} (InstanceRef 3 1 1)"
proof -
  have keys: "set example_keys = dom (n_instances example_node)"
    by (auto simp: example_keys_def example_node_def Let_def)
  from componentReady_exact [OF keys, of "[InstanceRef 3 1 1]"] show ?thesis
    using keys by (simp add: example_ready)
qed

end

