(* ===== verification/Spec2Isabelle.thy ===== *)
theory Spec2Isabelle
  imports Codec Validate ConflictQueries Execution
begin

text \<open>
  A verification of the EPaxos library under \<^verbatim>\<open>src/epaxos\<close>. The library is a deterministic state
  machine, \<^verbatim>\<open>RawNode\<close>: it proposes commands, exchanges messages with the other voters of a
  configuration, records per instance a command with a sequence number and dependencies, and executes
  committed instances in dependency order. The development models the parts that the state machine is
  built from, from the values on the wire up to the scheduler that decides what may be executed.

  \<^bold>\<open>Parts and theories.\<close> Each theory opens with its own conventions.

  \<^item> \<open>Prelude\<close>: machine words, byte strings and \<^verbatim>\<open>sort.Search\<close> of Go, and the shared lemmas.
  \<^item> \<open>Ids\<close>, \<open>Records\<close>: the values of \<^verbatim>\<open>types.go\<close> and \<^verbatim>\<open>message.go\<close>: references, ballots, configurations,
    commands, attributes, instance records, messages. Structs are records with the fields of the source.
  \<^item> \<open>Quorum\<close>: \<^verbatim>\<open>quorum.go\<close>. Which voter sets are accepted, and that slow, fast and witness quorums
    overlap as the protocol needs, as interpretations of the locale \<open>quorum_overlap\<close>.
  \<^item> \<open>Footprint\<close>: \<^verbatim>\<open>footprint.go\<close>. The keys a command touches; canonical form and the conflict test are
    compared with the set of keys \<open>fp_keys\<close>.
  \<^item> \<open>IntervalIndex\<close>: \<^verbatim>\<open>interval_index.go\<close>. The augmented AVL tree of resources, its invariant, its
    queries and its height; the contract \<open>resource_index\<close> is what the conflict engine uses.
  \<^item> \<open>VoteSet\<close>: \<^verbatim>\<open>vote_set.go\<close>. The tallies of votes and records, both interpretations of \<open>vote_tally\<close>.
  \<^item> \<open>Checksum\<close>, \<open>Parser\<close>, \<open>Codec\<close>: \<^verbatim>\<open>checksum.go\<close> and \<^verbatim>\<open>codec.go\<close>. The bytes that are hashed, the wire
    format and its decoders. Injectivity of the layouts comes from the locale \<open>prefix_code\<close>.
  \<^item> \<open>Checkpoints\<close>: \<^verbatim>\<open>checkpoint.go\<close>. Execution frontiers, descriptors, certificates and control messages.
  \<^item> \<open>Validate\<close>: \<^verbatim>\<open>Message.Validate\<close> of \<^verbatim>\<open>message.go\<close>, check by check.
  \<^item> \<open>Radix\<close>, \<open>LaneTree\<close>, \<open>LaneIndex\<close>, \<open>ConflictEngine\<close>, \<open>ConflictQueries\<close>: \<^verbatim>\<open>conflict_engine.go\<close>. The radix
    trie that the lane tree and the posting sets share (locale \<open>radix_summary\<close>), the watermarks and the
    staircase of one lane, the engine with its updates, folding and queries (locale \<open>resource_step\<close> for the
    three updates of a posting), and the properties over every engine that updates can reach.
  \<^item> \<open>Tracker\<close>: the executed tracker of \<^verbatim>\<open>sparse_progress.go\<close>, compared with a set of instances.
  \<^item> \<open>Tarjan\<close>, \<open>Node\<close>, \<open>Execution\<close>: the scheduler of \<^verbatim>\<open>sparse_progress.go\<close>. The search for strongly connected
    components over any graph that fits the contract \<open>dependency_graph\<close>; the state of the node that the
    scheduler reads; the view of its records, the dependency iterator, the components and the readiness
    test. The interpretation \<open>exec\<close> supplies the graph of the node to the search.

  \<^bold>\<open>How they interact.\<close> A message that arrives is decoded (\<open>Codec\<close>) and checked (\<open>Validate\<close>) before a
  handler sees it; its checksum covers every field (\<open>Checksum\<close>). A replica asks the conflict engine which
  instances a command depends on, and the engine answers from its summaries as a search through the
  records would. Votes are tallied in vote sets, whose majorities meet by the quorum sizes. The tracker
  and the scheduler decide what is executed and in which order, from the dependencies of the records.
  Checkpoints cover the executed prefix of the lanes and are certified by a quorum.

  \<^bold>\<open>What the properties show.\<close>

  \<^item> Execution: the components are found for every set of records, are exactly the cycles of the
    dependency graph and come in dependency order; a component is ready exactly when nothing it depends
    on is undecided; the tracker answers as a set of instances.
  \<^item> Conflict engine: every reachable engine passes its self check, and its answers are those of a search
    through the resident and retired records, or bounds of them where the staircase has dropped steps.
    One query skips records; the property states how.
  \<^item> Quorums and votes: sizes, overlaps and the exact witness bound; tallies keep the first vote of each
    voter, and two majorities share a record.
  \<^item> Values: canonicalization, conflict of footprints, attributes as least upper bounds, layouts that
    authenticate every field, and the gap of the older layouts.
  \<^item> Wire format and validation: round trip, equivalence of the two decoders, what an accepted message
    guarantees and which errors are returned.
  \<^item> Checkpoints: certificates share a witness, compaction and allocation are separated, the digest
    authenticates the checkpoint, and the field of the certificate that no check looks at.

  \<^bold>\<open>Termination and bounds.\<close> No definition uses fuel. Loops over slices are structural. The loops that count
  through 64-bit instances end because the distance to their bound decreases modulo \<open>2 ^ 64\<close>
  (\<^verbatim>\<open>firstPrefixBlocker\<close>, \<^verbatim>\<open>allPending\<close>) or because the number grows towards the greatest word (\<^verbatim>\<open>add\<close> of the
  tracker). The loop of \<^verbatim>\<open>executionComponents\<close> is a \<open>while_option\<close>, so not returning would be a value, and it is
  proved to return from every state of the node. The recursion of the radix trie goes down its levels.

  \<^bold>\<open>Parameters.\<close> BLAKE3 is a function \<open>H\<close> from bytes to bytes; the encoding of control payloads as JSON is a pair of
  functions. The order in which Go ranges over a map is a list of its keys wherever it could be seen.

  \<^bold>\<open>Not modelled.\<close>

  \<^item> The handlers of \<^verbatim>\<open>RawNode\<close> in \<^verbatim>\<open>node.go\<close> (\<^verbatim>\<open>Step\<close> and the message handlers, proposals, timers, recovery, the
    deferral by time and Ready/Advance), \<^verbatim>\<open>tryExecute\<close> and the recovery scheduling of \<^verbatim>\<open>sparse_progress.go\<close>,
    \<^verbatim>\<open>checkpoint_node.go\<close>, \<^verbatim>\<open>retire.go\<close> and the plans of \<^verbatim>\<open>bootstrap.go\<close>: they change one state of about eighty
    fields and call each other across these files.
  \<^item> \<^verbatim>\<open>storage.go\<close> but for \<^verbatim>\<open>sortRefs\<close>, \<^verbatim>\<open>pool.go\<close>, deep copies and the reuse of buffers: they do not change the
    values that the modelled code computes.
  \<^item> \<^verbatim>\<open>examples\<close>, \<^verbatim>\<open>visualizer\<close>, \<^verbatim>\<open>tests\<close>, \<^verbatim>\<open>jepsen\<close>, \<^verbatim>\<open>tla\<close>: clients, tools and models around the library.
\<close>

end
